(* ===== verification/Prelude.thy ===== *)
theory Prelude
  imports "HOL-Library.Word" "HOL-Library.Signed_Division"
begin

text \<open>
  Shared vocabulary of the development.

  \<^item> Unsigned C++ integers are machine words: \<open>u8\<close>, \<open>u16\<close>, \<open>u32\<close>, \<open>u64\<close>; their
    arithmetic wraps, as the language defines it.
  \<^item> Signed C++ integers are \<open>int\<close>. The language leaves signed overflow undefined, so the
    model computes the exact value, and conversions between signed widths, which the
    language does define (modulo \<open>2 ^ w\<close>), are \<open>to_i16\<close>, \<open>to_i32\<close>, \<open>to_i64\<close>. The
    predicates \<open>in_i16\<close>, \<open>in_i32\<close> and \<open>in_i64\<close> say that a value fits.
  \<^item> Signed division and remainder truncate towards zero: \<open>sdiv\<close> and \<open>smod\<close>.
  \<^item> A fixed array or a vector that never grows is a function from its indices, together
    with the bound the code keeps.
  \<^item> \<open>reach\<close> and the locales \<open>invariant_system\<close> and \<open>op_machine\<close> carry the invariant
    proofs of the state machines.
\<close>

unbundle bit_operations_syntax

subsection \<open>Types\<close>

type_synonym u8 = "8 word"
type_synonym u16 = "16 word"
type_synonym u32 = "32 word"
type_synonym u64 = "64 word"

named_theorems cpp_simps \<open>conversions and truncating division\<close>

definition to_i16 :: "int \<Rightarrow> int" where
  "to_i16 x = signed_take_bit 15 x"

definition to_i32 :: "int \<Rightarrow> int" where
  "to_i32 x = signed_take_bit 31 x"

definition to_i64 :: "int \<Rightarrow> int" where
  "to_i64 x = signed_take_bit 63 x"

definition in_i16 :: "int \<Rightarrow> bool" where
  "in_i16 x \<longleftrightarrow> - (2 ^ 15) \<le> x \<and> x < 2 ^ 15"

definition in_i32 :: "int \<Rightarrow> bool" where
  "in_i32 x \<longleftrightarrow> - (2 ^ 31) \<le> x \<and> x < 2 ^ 31"

definition in_i64 :: "int \<Rightarrow> bool" where
  "in_i64 x \<longleftrightarrow> - (2 ^ 63) \<le> x \<and> x < 2 ^ 63"

lemma to_i16_id [cpp_simps]: "in_i16 x \<Longrightarrow> to_i16 x = x"
  by (simp add: to_i16_def in_i16_def signed_take_bit_int_eq_self_iff)

lemma to_i32_id [cpp_simps]: "in_i32 x \<Longrightarrow> to_i32 x = x"
  by (simp add: to_i32_def in_i32_def signed_take_bit_int_eq_self_iff)

lemma to_i64_id [cpp_simps]: "in_i64 x \<Longrightarrow> to_i64 x = x"
  by (simp add: to_i64_def in_i64_def signed_take_bit_int_eq_self_iff)

subsection \<open>Truncating division\<close>

lemma sdiv_nonneg [cpp_simps]: "0 \<le> (a::int) \<Longrightarrow> 0 \<le> b \<Longrightarrow> a sdiv b = a div b"
  by (cases "a = 0"; cases "b = 0") (auto simp: signed_divide_int_def sgn_if)

lemma sdiv_neg [cpp_simps]: "(a::int) \<le> 0 \<Longrightarrow> 0 \<le> b \<Longrightarrow> a sdiv b = - ((- a) div b)"
  by (cases "a = 0"; cases "b = 0") (auto simp: signed_divide_int_def sgn_if)

lemma abs_sdiv: "0 < (b::int) \<Longrightarrow> \<bar>a sdiv b\<bar> = \<bar>a\<bar> div b"
  by (cases "0 \<le> a") (auto simp: sdiv_nonneg sdiv_neg pos_imp_zdiv_nonneg_iff)

subsection \<open>Powers of two\<close>

lemma nat_and_le: "a AND b \<le> b" for a b :: nat
  by (simp add: and_nat_def nat_le_iff)

lemma nat_and_pred_zero: "0 < n \<Longrightarrow> n AND (n - 1) = 0 \<Longrightarrow> \<exists>k. n = 2 ^ k" for n :: nat
proof (induction n rule: less_induct)
  case (less n)
  show ?case
  proof (cases "even n")
    case True
    then obtain m where n: "n = 2 * m" by blast
    with less.prems(1) have m: "0 < m" by simp
    then have "n - 1 = 1 + 2 * (m - 1)" by (simp add: n)
    then have "n AND (n - 1) = 2 * (m AND (m - 1))"
      by (simp add: n and_rec [of "2 * m"])
    with less.prems(2) have "m AND (m - 1) = 0" by simp
    with less.IH [of m] m obtain k where "m = 2 ^ k" by (auto simp: n)
    then have "n = 2 ^ Suc k" by (simp add: n)
    then show ?thesis by blast
  next
    case False
    then obtain m where n: "n = 1 + 2 * m" by (metis oddE add.commute)
    then have "n AND (n - 1) = 2 * m" by (simp add: and_rec [of "Suc (2 * m)"])
    with less.prems(2) n have "n = 2 ^ 0" by simp
    then show ?thesis by blast
  qed
qed

lemma word_and_pred_zero:
  fixes C :: "'a::len word"
  assumes "0 < C" "C AND (C - 1) = 0"
  shows "\<exists>k < LENGTH('a). C = 2 ^ k \<and> unat C = 2 ^ k"
proof -
  have pos: "0 < unat C" using assms(1) by (simp add: word_gt_0 unat_gt_0)
  have "unat (C - 1) = unat C - 1"
    using assms(1) by (simp add: unat_sub word_gt_0 word_le_nat_alt unat_gt_0 Suc_leI)
  then have "unat C AND (unat C - 1) = unat (C AND (C - 1))"
    by (simp add: unsigned_and_eq)
  with assms(2) have "unat C AND (unat C - 1) = 0" by simp
  with pos obtain k where k: "unat C = 2 ^ k" using nat_and_pred_zero by blast
  then have "(2::nat) ^ k < 2 ^ LENGTH('a)" using unsigned_less [of C] by (simp flip: k)
  then have "k < LENGTH('a)" by simp
  moreover have "C = 2 ^ k"
  proof -
    have "C = of_nat (unat C)" by simp
    also have "\<dots> = 2 ^ k" by (simp add: k)
    finally show ?thesis .
  qed
  ultimately show ?thesis using k by blast
qed

lemma unat_and_pred_pow2:
  fixes x :: "'a::len word"
  assumes "k < LENGTH('a)"
  shows "unat (x AND (2 ^ k - 1)) = unat x mod 2 ^ k"
proof -
  have "x AND (2 ^ k - 1) = take_bit k x"
    by (simp add: take_bit_eq_mask mask_eq_exp_minus_1)
  then have "unat (x AND (2 ^ k - 1)) = take_bit k (unat x)" by (simp only: unsigned_take_bit_eq)
  then show ?thesis by (simp only: take_bit_eq_mod)
qed

text \<open>Wrapping an index by a power of two is blind to the wrap-around of the word itself.\<close>

lemma unat_add_mod_pow2:
  fixes x :: "'a::len word"
  assumes "k < LENGTH('a)"
  shows "unat (x + of_nat i) mod 2 ^ k = (unat x + i) mod 2 ^ k"
proof -
  have "(2::nat) ^ k dvd 2 ^ LENGTH('a)" using assms by (simp add: le_imp_power_dvd)
  then show ?thesis
    by (simp add: unat_word_ariths unat_of_nat mod_mod_cancel mod_add_right_eq)
qed

lemma mod_add_inj:
  fixes a i j m :: nat
  assumes "i < m" "j < m" "(a + i) mod m = (a + j) mod m"
  shows "i = j"
proof -
  have eq: "p = q" if "p \<le> q" "q < m" "(a + p) mod m = (a + q) mod m" for p q
  proof -
    from that have "m dvd (a + q) - (a + p)"
      by (metis mod_eq_dvd_iff_nat add_le_cancel_left)
    with that show ?thesis by (auto dest: dvd_imp_le)
  qed
  show ?thesis
    using eq [of i j] eq [of j i] assms by (cases "i \<le> j") auto
qed

lemma option_eqI:
  assumes "\<And>r. x = Some r \<longleftrightarrow> y = Some r"
  shows "x = y"
  using assms [of "the x"] assms [of "the y"] by (cases x; cases y) auto

subsection \<open>Counting the marked slots of an array\<close>

definition marked :: "nat \<Rightarrow> ('a \<Rightarrow> bool) \<Rightarrow> (nat \<Rightarrow> 'a) \<Rightarrow> nat" where
  "marked n P f = card {i. i < n \<and> P (f i)}"

lemma marked_set: "i < n \<Longrightarrow> \<not> P (f i) \<Longrightarrow> P x \<Longrightarrow> marked n P (f(i := x)) = Suc (marked n P f)"
proof -
  assume a: "i < n" "\<not> P (f i)" "P x"
  then have "{j. j < n \<and> P ((f(i := x)) j)} = insert i {j. j < n \<and> P (f j)}" by auto
  then show ?thesis using a by (simp add: marked_def)
qed

lemma marked_same: "(P x \<longleftrightarrow> P (f i)) \<Longrightarrow> marked n P (f(i := x)) = marked n P f"
proof -
  assume "P x \<longleftrightarrow> P (f i)"
  then have "{j. j < n \<and> P ((f(i := x)) j)} = {j. j < n \<and> P (f j)}" by auto
  then show ?thesis by (simp add: marked_def)
qed

lemma marked_clear: "i < n \<Longrightarrow> P (f i) \<Longrightarrow> \<not> P x \<Longrightarrow> Suc (marked n P (f(i := x))) = marked n P f"
  using marked_set [of i n P "f(i := x)" "f i"] by simp

lemma marked_le: "marked n P f \<le> n"
  using card_mono [of "{..< n}" "{i. i < n \<and> P (f i)}"] by (auto simp: marked_def)

lemma marked_zero: "(\<And>i. i < n \<Longrightarrow> \<not> P (f i)) \<Longrightarrow> marked n P f = 0"
  by (simp add: marked_def)

subsection \<open>Transition systems\<close>

inductive reach :: "('s \<Rightarrow> bool) \<Rightarrow> ('s \<Rightarrow> 's \<Rightarrow> bool) \<Rightarrow> 's \<Rightarrow> bool"
  for init :: "'s \<Rightarrow> bool" and step :: "'s \<Rightarrow> 's \<Rightarrow> bool" where
  reach_init: "init s \<Longrightarrow> reach init step s"
| reach_step: "reach init step s \<Longrightarrow> step s t \<Longrightarrow> reach init step t"

locale invariant_system =
  fixes init :: "'s \<Rightarrow> bool" and step :: "'s \<Rightarrow> 's \<Rightarrow> bool" and inv :: "'s \<Rightarrow> bool"
  assumes inv_init: "init s \<Longrightarrow> inv s"
    and inv_step: "inv s \<Longrightarrow> step s t \<Longrightarrow> inv t"
begin

lemma reach_inv: "reach init step s \<Longrightarrow> inv s"
  by (induction rule: reach.induct) (blast intro: inv_init inv_step)+

end

locale op_machine =
  fixes exec :: "'op \<Rightarrow> 's \<Rightarrow> 's" and inv :: "'s \<Rightarrow> bool"
  assumes exec_inv: "inv s \<Longrightarrow> inv (exec op s)"
begin

lemma run_inv: "inv s \<Longrightarrow> inv (fold exec ops s)"
  by (induction ops arbitrary: s) (simp_all add: exec_inv)

end

end
