(* ===== verification/Ring_Buffer.thy ===== *)
theory Ring_Buffer
  imports Prelude
begin

text \<open>
  The lock-free single-producer / single-consumer ring buffer of
  \<^verbatim>\<open>src/common/ring_buffer.hpp\<close>.

  The sequential operations are \<open>RingBuffer_push\<close> and \<open>RingBuffer_pop\<close>; \<open>rb_contents\<close>
  abstracts a buffer to the list of queued elements. The interface locale
  \<open>bounded_queue\<close> states what the users of the buffer (the market-data gateway and the
  logger) rely on and is interpreted on the ring buffer.

  The concurrent behaviour is the step relation \<open>spsc_step\<close>: one rule per atomic access
  of \<open>push\<close> and \<open>pop\<close>, interleaved in every order. The acquire and release orderings of
  the source make each index access happen before the slot access that depends on it, so
  the interleavings of these accesses are the behaviours of the code.
\<close>

subsection \<open>State and operations\<close>

record 'a RingBuffer =
  rb_head :: u64
  rb_tail :: u64
  rb_buffer :: "nat \<Rightarrow> 'a"

text \<open>The two static assertions on the template parameter.\<close>

definition valid_capacity :: "u64 \<Rightarrow> bool" where
  "valid_capacity Capacity \<longleftrightarrow> 2 \<le> Capacity \<and> (Capacity AND (Capacity - 1)) = 0"

definition kMask :: "u64 \<Rightarrow> u64" where
  "kMask Capacity = Capacity - 1"

definition RingBuffer_init :: "(nat \<Rightarrow> 'a) \<Rightarrow> 'a RingBuffer" where
  "RingBuffer_init b = \<lparr>rb_head = 0, rb_tail = 0, rb_buffer = b\<rparr>"

definition RingBuffer_push :: "u64 \<Rightarrow> 'a \<Rightarrow> 'a RingBuffer \<Rightarrow> bool \<times> 'a RingBuffer" where
  "RingBuffer_push Capacity value rb =
     (let tail = rb_tail rb; next = tail + 1
      in if next - rb_head rb > Capacity then (False, rb)
         else (True, rb\<lparr>rb_buffer := (rb_buffer rb)(unat (tail AND kMask Capacity) := value),
                        rb_tail := next\<rparr>))"

definition RingBuffer_pop :: "u64 \<Rightarrow> 'a RingBuffer \<Rightarrow> 'a option \<times> 'a RingBuffer" where
  "RingBuffer_pop Capacity rb =
     (let head = rb_head rb
      in if head = rb_tail rb then (None, rb)
         else (Some (rb_buffer rb (unat (head AND kMask Capacity))), rb\<lparr>rb_head := head + 1\<rparr>))"

definition RingBuffer_size :: "'a RingBuffer \<Rightarrow> u64" where
  "RingBuffer_size rb = rb_tail rb - rb_head rb"

definition RingBuffer_empty :: "'a RingBuffer \<Rightarrow> bool" where
  "RingBuffer_empty rb \<longleftrightarrow> RingBuffer_size rb = 0"

subsection \<open>Slots\<close>

definition slot :: "u64 \<Rightarrow> u64 \<Rightarrow> nat" where
  "slot Capacity i = unat (i AND kMask Capacity)"

lemma valid_capacity_pow2:
  assumes "valid_capacity C"
  obtains k where "k < 64" "C = 2 ^ k" "unat C = 2 ^ k"
proof -
  have "0 < C" using assms by (auto simp: valid_capacity_def word_gt_0)
  with assms show ?thesis
    using word_and_pred_zero [of C] that by (auto simp: valid_capacity_def)
qed

lemma slot_add:
  assumes "valid_capacity C"
  shows "slot C (i + of_nat n) = (unat i + n) mod unat C"
proof -
  obtain k where k: "k < 64" "C = 2 ^ k" "unat C = 2 ^ k"
    using assms by (rule valid_capacity_pow2)
  then have "slot C (i + of_nat n) = unat (i + of_nat n) mod 2 ^ k"
    by (simp add: slot_def kMask_def unat_and_pred_pow2)
  then show ?thesis using k by (simp add: unat_add_mod_pow2)
qed

lemma slot_bound: "valid_capacity C \<Longrightarrow> slot C i < unat C"
  using slot_add [of C i 0] by (auto simp: valid_capacity_def word_le_nat_alt)

lemma slot_inj:
  assumes "valid_capacity C" "m < unat C" "n < unat C"
    "slot C (i + of_nat m) = slot C (i + of_nat n)"
  shows "m = n"
  using assms by (auto simp: slot_add intro: mod_add_inj)

subsection \<open>Abstraction to a list\<close>

definition window :: "u64 \<Rightarrow> (nat \<Rightarrow> 'a) \<Rightarrow> u64 \<Rightarrow> u64 \<Rightarrow> 'a list" where
  "window C b h t = map (\<lambda>i. b (slot C (h + of_nat i))) [0..<unat (t - h)]"

definition rb_contents :: "u64 \<Rightarrow> 'a RingBuffer \<Rightarrow> 'a list" where
  "rb_contents C rb = window C (rb_buffer rb) (rb_head rb) (rb_tail rb)"

definition rb_inv :: "u64 \<Rightarrow> 'a RingBuffer \<Rightarrow> bool" where
  "rb_inv C rb \<longleftrightarrow> valid_capacity C \<and> rb_tail rb - rb_head rb \<le> C"

lemma length_window [simp]: "length (window C b h t) = unat (t - h)"
  by (simp add: window_def)

lemma window_empty [simp]: "window C b h h = []"
  by (simp add: window_def)

lemma capacity_small: "valid_capacity C \<Longrightarrow> unat C < 2 ^ 64 - 1"
  by (rule valid_capacity_pow2 [of C], assumption)
     (auto intro: order_le_less_trans [OF power_increasing [of _ 63 "2::nat"]])

lemma unat_succ_diff:
  assumes "valid_capacity C" "t - h \<le> C"
  shows "unat (t + 1 - h) = Suc (unat (t - h))"
proof -
  have "t + 1 - h = (t - h) + 1" by simp
  moreover have "unat (t - h) < 2 ^ 64 - 1"
    using assms capacity_small [of C] by (simp add: word_le_nat_alt)
  ultimately show ?thesis by (simp only: unat_word_ariths) simp
qed

text \<open>Writing the slot behind the window leaves the window alone while there is room.\<close>

lemma window_write:
  assumes "valid_capacity C" "unat (t - h) < unat C"
  shows "window C (b(slot C t := v)) h t = window C b h t"
proof -
  have t: "t = h + of_nat (unat (t - h))" by simp
  have "slot C (h + of_nat i) \<noteq> slot C t" if "i < unat (t - h)" for i
    using slot_inj [of C i "unat (t - h)" h] that assms t by auto
  then show ?thesis by (auto simp: window_def)
qed

lemma window_snoc:
  assumes "valid_capacity C" "unat (t - h) < unat C"
  shows "window C b h (t + 1) = window C b h t @ [b (slot C t)]"
proof -
  have "unat (t + 1 - h) = Suc (unat (t - h))"
    using assms by (intro unat_succ_diff) (auto simp: word_le_nat_alt)
  then show ?thesis by (simp add: window_def)
qed

lemma window_Cons:
  assumes "t \<noteq> h"
  shows "window C b h t = b (slot C h) # window C b (h + 1) t"
proof -
  have "t - h \<noteq> 0" using assms by simp
  then have pos: "0 < unat (t - h)" by (simp add: unat_gt_0)
  have "t - (h + 1) = (t - h) - 1" by simp
  then have "unat (t - h) = Suc (unat (t - (h + 1)))"
    using pos by (metis Suc_pred unat_minus_one \<open>t - h \<noteq> 0\<close> One_nat_def)
  then show ?thesis
    by (simp add: window_def upt_conv_Cons map_Suc_upt [symmetric] comp_def add.assoc
        del: upt_Suc)
qed

subsection \<open>The queue interface\<close>

locale bounded_queue =
  fixes push :: "'a \<Rightarrow> 'q \<Rightarrow> bool \<times> 'q" and pop :: "'q \<Rightarrow> 'a option \<times> 'q"
    and contents :: "'q \<Rightarrow> 'a list" and cap :: nat and invar :: "'q \<Rightarrow> bool"
  assumes push_room: "invar q \<Longrightarrow> length (contents q) < cap \<Longrightarrow>
      fst (push x q) \<and> contents (snd (push x q)) = contents q @ [x]"
    and push_full: "invar q \<Longrightarrow> \<not> length (contents q) < cap \<Longrightarrow> push x q = (False, q)"
    and pop_front: "invar q \<Longrightarrow> contents q = x # xs \<Longrightarrow>
      fst (pop q) = Some x \<and> contents (snd (pop q)) = xs"
    and pop_none: "invar q \<Longrightarrow> contents q = [] \<Longrightarrow> pop q = (None, q)"
    and invar_push: "invar q \<Longrightarrow> invar (snd (push x q))"
    and invar_pop: "invar q \<Longrightarrow> invar (snd (pop q))"
    and contents_bound: "invar q \<Longrightarrow> length (contents q) \<le> cap"

text \<open>The reference behaviour: a list that never grows past the capacity.\<close>

datatype 'a queue_op = Push 'a | Pop

datatype 'a queue_ret = Pushed bool | Popped "'a option"

fun list_exec :: "nat \<Rightarrow> 'a queue_op \<Rightarrow> 'a list \<Rightarrow> 'a queue_ret \<times> 'a list" where
  "list_exec cap (Push x) xs =
     (if length xs < cap then (Pushed True, xs @ [x]) else (Pushed False, xs))"
| "list_exec cap Pop xs =
     (case xs of [] \<Rightarrow> (Popped None, []) | y # ys \<Rightarrow> (Popped (Some y), ys))"

fun queue_exec :: "('a \<Rightarrow> 'q \<Rightarrow> bool \<times> 'q) \<Rightarrow> ('q \<Rightarrow> 'a option \<times> 'q) \<Rightarrow>
    'a queue_op \<Rightarrow> 'q \<Rightarrow> 'a queue_ret \<times> 'q" where
  "queue_exec push pop (Push x) q = (let (b, q') = push x q in (Pushed b, q'))"
| "queue_exec push pop Pop q = (let (r, q') = pop q in (Popped r, q'))"

fun run_ops :: "('op \<Rightarrow> 's \<Rightarrow> 'r \<times> 's) \<Rightarrow> 'op list \<Rightarrow> 's \<Rightarrow> 'r list" where
  "run_ops exec [] s = []"
| "run_ops exec (op # ops) s = (let (r, s') = exec op s in r # run_ops exec ops s')"

text \<open>The element-by-element producer of the users: push each value, count the drops.\<close>

fun push_each :: "('a \<Rightarrow> 'q \<Rightarrow> bool \<times> 'q) \<Rightarrow> 'a list \<Rightarrow> 'q \<times> u64 \<Rightarrow> 'q \<times> u64" where
  "push_each push [] (q, dropped) = (q, dropped)"
| "push_each push (x # xs) (q, dropped) =
     (case push x q of (ok, q') \<Rightarrow>
        push_each push xs (q', if ok then dropped else dropped + 1))"

context bounded_queue
begin

lemma exec_refines:
  assumes "invar q"
  shows "fst (queue_exec push pop op q) = fst (list_exec cap op (contents q))"
    and "contents (snd (queue_exec push pop op q)) = snd (list_exec cap op (contents q))"
    and "invar (snd (queue_exec push pop op q))"
proof -
  have "fst (queue_exec push pop op q) = fst (list_exec cap op (contents q)) \<and>
    contents (snd (queue_exec push pop op q)) = snd (list_exec cap op (contents q)) \<and>
    invar (snd (queue_exec push pop op q))"
  proof (cases op)
    case (Push x)
    then show ?thesis
      using push_room [OF assms, of x] push_full [OF assms, of x] invar_push [OF assms, of x]
      by (cases "length (contents q) < cap") (auto simp: split_beta)
  next
    case Pop
    then show ?thesis
      using pop_front [OF assms] pop_none [OF assms] invar_pop [OF assms]
      by (cases "contents q") (auto simp: split_beta)
  qed
  then show "fst (queue_exec push pop op q) = fst (list_exec cap op (contents q))"
    and "contents (snd (queue_exec push pop op q)) = snd (list_exec cap op (contents q))"
    and "invar (snd (queue_exec push pop op q))" by auto
qed

lemma run_refines:
  "invar q \<Longrightarrow>
    run_ops (queue_exec push pop) ops q = run_ops (list_exec cap) ops (contents q)"
proof (induction ops arbitrary: q)
  case (Cons op ops)
  then show ?case
    using exec_refines [OF Cons.prems, of op] by (simp add: split_beta)
qed simp

lemma push_each_contents:
  "invar q \<Longrightarrow> invar (fst (push_each push xs (q, d))) \<and>
    contents (fst (push_each push xs (q, d))) =
      contents q @ take (cap - length (contents q)) xs"
proof (induction xs arbitrary: q d)
  case (Cons x xs)
  obtain ok q' where p: "push x q = (ok, q')" by fastforce
  have inv: "invar q'" using invar_push [OF Cons.prems, of x] p by simp
  show ?case
  proof (cases "length (contents q) < cap")
    case True
    with push_room [OF Cons.prems, of x] p have "ok" "contents q' = contents q @ [x]" by auto
    with True Cons.IH [OF inv] p show ?thesis by (auto simp: take_Cons' Suc_diff_Suc)
  next
    case False
    with push_full [OF Cons.prems, of x] p have "\<not> ok" "q' = q" by auto
    with False Cons.IH [OF inv] p show ?thesis by auto
  qed
qed simp

lemma push_each_dropped:
  "invar q \<Longrightarrow> snd (push_each push xs (q, d)) =
    d + of_nat (length xs - (cap - length (contents q)))"
proof (induction xs arbitrary: q d)
  case (Cons x xs)
  obtain ok q' where p: "push x q = (ok, q')" by fastforce
  have inv: "invar q'" using invar_push [OF Cons.prems, of x] p by simp
  show ?case
  proof (cases "length (contents q) < cap")
    case True
    with push_room [OF Cons.prems, of x] p have "ok" "contents q' = contents q @ [x]" by auto
    moreover have "length (x # xs) - (cap - length (contents q)) =
        length xs - (cap - length (contents q'))"
      using True calculation by simp
    ultimately show ?thesis using Cons.IH [OF inv] p by simp
  next
    case False
    with push_full [OF Cons.prems, of x] p have "\<not> ok" "q' = q" by auto
    with False Cons.IH [OF inv] p show ?thesis by (simp add: algebra_simps)
  qed
qed simp

end

lemma push_accepts_iff:
  assumes "rb_inv C rb"
  shows "rb_tail rb + 1 - rb_head rb \<le> C \<longleftrightarrow> length (rb_contents C rb) < unat C"
  using assms unat_succ_diff [of C "rb_tail rb" "rb_head rb"]
  by (auto simp: rb_inv_def rb_contents_def word_le_nat_alt)

interpretation rbq: bounded_queue "RingBuffer_push C" "RingBuffer_pop C"
  "rb_contents C" "unat C" "rb_inv C" for C
proof (unfold_locales, goal_cases)
  case (1 q x)
  then show ?case
    using push_accepts_iff [OF 1(1)]
    by (auto simp: RingBuffer_push_def Let_def rb_inv_def rb_contents_def window_snoc
        window_write slot_def [symmetric])
next
  case (2 q x)
  then show ?case using push_accepts_iff [OF 2(1)] by (auto simp: RingBuffer_push_def Let_def)
next
  case (3 q x xs)
  then have "rb_tail q \<noteq> rb_head q" by (auto simp: rb_contents_def)
  with 3 show ?case
    by (auto simp: RingBuffer_pop_def Let_def rb_contents_def window_Cons slot_def [symmetric])
next
  case (4 q)
  then have "length (rb_contents C q) = 0" by simp
  then have "rb_tail q - rb_head q = 0" by (simp add: rb_contents_def unat_eq_zero)
  then show ?case by (simp add: RingBuffer_pop_def Let_def)
next
  case (5 q x)
  then show ?case by (auto simp: RingBuffer_push_def Let_def rb_inv_def)
next
  case (6 q)
  then show ?case
    using length_window [of C "rb_buffer q" "rb_head q" "rb_tail q"]
    by (cases "rb_tail q = rb_head q")
       (auto simp: RingBuffer_pop_def Let_def rb_inv_def word_le_nat_alt window_Cons)
next
  case (7 q)
  then show ?case by (simp add: rb_inv_def rb_contents_def word_le_nat_alt)
qed

lemma rb_init_inv: "valid_capacity C \<Longrightarrow> rb_inv C (RingBuffer_init b)"
  by (simp add: rb_inv_def RingBuffer_init_def)

lemma rb_init_contents [simp]: "rb_contents C (RingBuffer_init b) = []"
  by (simp add: rb_contents_def RingBuffer_init_def)

subsection \<open>Producer and consumer, interleaved\<close>

text \<open>
  Where the producer is inside \<open>push\<close>: before the first load, after the load of the tail,
  after the load of the head found room, after the slot was written. The consumer inside
  \<open>pop\<close> likewise.
\<close>

datatype 'a producer_pc = P_idle | P_tail 'a u64 | P_room 'a u64 | P_written 'a u64

datatype 'a consumer_pc = C_idle | C_head u64 | C_avail u64 | C_read u64 'a

text \<open>\<open>pushed\<close> and \<open>popped\<close> record the values of the completed calls, in order.\<close>

record 'a spsc =
  sp_rb :: "'a RingBuffer"
  producer :: "'a producer_pc"
  consumer :: "'a consumer_pc"
  pushed :: "'a list"
  popped :: "'a list"

definition producer_step :: "u64 \<Rightarrow> 'a \<Rightarrow> 'a spsc \<Rightarrow> 'a spsc" where
  "producer_step C value s =
     (case producer s of
        P_idle \<Rightarrow> s\<lparr>producer := P_tail value (rb_tail (sp_rb s))\<rparr>
      | P_tail v t \<Rightarrow>
          (if t + 1 - rb_head (sp_rb s) > C then s\<lparr>producer := P_idle\<rparr>
           else s\<lparr>producer := P_room v t\<rparr>)
      | P_room v t \<Rightarrow>
          s\<lparr>sp_rb := (sp_rb s)\<lparr>rb_buffer := (rb_buffer (sp_rb s))(unat (t AND kMask C) := v)\<rparr>,
            producer := P_written v t\<rparr>
      | P_written v t \<Rightarrow>
          s\<lparr>sp_rb := (sp_rb s)\<lparr>rb_tail := t + 1\<rparr>, producer := P_idle,
            pushed := pushed s @ [v]\<rparr>)"

definition consumer_step :: "u64 \<Rightarrow> 'a spsc \<Rightarrow> 'a spsc" where
  "consumer_step C s =
     (case consumer s of
        C_idle \<Rightarrow> s\<lparr>consumer := C_head (rb_head (sp_rb s))\<rparr>
      | C_head h \<Rightarrow>
          (if h = rb_tail (sp_rb s) then s\<lparr>consumer := C_idle\<rparr>
           else s\<lparr>consumer := C_avail h\<rparr>)
      | C_avail h \<Rightarrow> s\<lparr>consumer := C_read h (rb_buffer (sp_rb s) (unat (h AND kMask C)))\<rparr>
      | C_read h v \<Rightarrow>
          s\<lparr>sp_rb := (sp_rb s)\<lparr>rb_head := h + 1\<rparr>, consumer := C_idle,
            popped := popped s @ [v]\<rparr>)"

inductive spsc_step :: "u64 \<Rightarrow> 'a spsc \<Rightarrow> 'a spsc \<Rightarrow> bool" for C :: u64 where
  produce: "spsc_step C s (producer_step C v s)"
| consume: "spsc_step C s (consumer_step C s)"

definition spsc_start :: "(nat \<Rightarrow> 'a) \<Rightarrow> 'a spsc" where
  "spsc_start b = \<lparr>sp_rb = RingBuffer_init b, producer = P_idle, consumer = C_idle,
     pushed = [], popped = []\<rparr>"

definition spsc_init :: "u64 \<Rightarrow> 'a spsc \<Rightarrow> bool" where
  "spsc_init C s \<longleftrightarrow> valid_capacity C \<and> (\<exists>b. s = spsc_start b)"

definition room :: "u64 \<Rightarrow> 'a RingBuffer \<Rightarrow> bool" where
  "room C rb \<longleftrightarrow> unat (rb_tail rb - rb_head rb) < unat C"

fun producer_inv :: "u64 \<Rightarrow> 'a RingBuffer \<Rightarrow> 'a producer_pc \<Rightarrow> bool" where
  "producer_inv C rb P_idle = True"
| "producer_inv C rb (P_tail v t) = (t = rb_tail rb)"
| "producer_inv C rb (P_room v t) = (t = rb_tail rb \<and> room C rb)"
| "producer_inv C rb (P_written v t) =
     (t = rb_tail rb \<and> room C rb \<and> rb_buffer rb (slot C t) = v)"

fun consumer_inv :: "u64 \<Rightarrow> 'a RingBuffer \<Rightarrow> 'a consumer_pc \<Rightarrow> bool" where
  "consumer_inv C rb C_idle = True"
| "consumer_inv C rb (C_head h) = (h = rb_head rb)"
| "consumer_inv C rb (C_avail h) = (h = rb_head rb \<and> rb_tail rb \<noteq> h)"
| "consumer_inv C rb (C_read h v) =
     (h = rb_head rb \<and> rb_tail rb \<noteq> h \<and> rb_buffer rb (slot C h) = v)"

definition spsc_inv :: "u64 \<Rightarrow> 'a spsc \<Rightarrow> bool" where
  "spsc_inv C s \<longleftrightarrow> rb_inv C (sp_rb s) \<and> pushed s = popped s @ rb_contents C (sp_rb s) \<and>
     producer_inv C (sp_rb s) (producer s) \<and> consumer_inv C (sp_rb s) (consumer s)"

lemma slot_head_tail:
  assumes "valid_capacity C" "t \<noteq> h" "unat (t - h) < unat C"
  shows "slot C h \<noteq> slot C t"
proof
  assume "slot C h = slot C t"
  then have "slot C (h + of_nat 0) = slot C (h + of_nat (unat (t - h)))" by simp
  moreover have "0 < unat C" using assms(3) by simp
  ultimately have "0 = unat (t - h)"
    using assms(1,3) slot_inj [of C 0 "unat (t - h)" h] by blast
  with assms(2) show False by (simp add: unat_eq_zero)
qed

lemma tail_advance_neq:
  assumes "rb_inv C rb" shows "rb_tail rb + 1 \<noteq> rb_head rb"
  using unat_succ_diff [of C "rb_tail rb" "rb_head rb"] assms by (auto simp: rb_inv_def)

lemma room_advance: "rb_inv C rb \<Longrightarrow> room C rb \<Longrightarrow> rb_tail rb + 1 - rb_head rb \<le> C"
  using unat_succ_diff [of C "rb_tail rb" "rb_head rb"]
  by (auto simp: rb_inv_def room_def word_le_nat_alt)

lemma no_room: "rb_inv C rb \<Longrightarrow> \<not> rb_tail rb + 1 - rb_head rb > C \<Longrightarrow> room C rb"
  using unat_succ_diff [of C "rb_tail rb" "rb_head rb"]
  by (auto simp: rb_inv_def room_def word_le_nat_alt not_less)

lemma pop_shrinks:
  assumes "rb_tail rb \<noteq> rb_head rb"
  shows "unat (rb_tail rb - (rb_head rb + 1)) < unat (rb_tail rb - rb_head rb)"
proof -
  have "length (window 2 (\<lambda>_. ()) (rb_head rb) (rb_tail rb)) =
    Suc (length (window 2 (\<lambda>_. ()) (rb_head rb + 1) (rb_tail rb)))"
    using window_Cons [OF assms] by (metis length_Cons)
  then show ?thesis by simp
qed

lemma spsc_producer_inv: "spsc_inv C s \<Longrightarrow> spsc_inv C (producer_step C v s)"
proof (cases "producer s")
  case P_idle
  then show "spsc_inv C s \<Longrightarrow> ?thesis" by (simp add: spsc_inv_def producer_step_def)
next
  case (P_tail v' t)
  then show "spsc_inv C s \<Longrightarrow> ?thesis"
    by (auto simp: spsc_inv_def producer_step_def intro: no_room)
next
  case (P_room v' t)
  assume inv: "spsc_inv C s"
  with P_room have t: "t = rb_tail (sp_rb s)" and rm: "room C (sp_rb s)"
    and vc: "valid_capacity C" by (auto simp: spsc_inv_def rb_inv_def)
  have "consumer_inv C (sp_rb s\<lparr>rb_buffer := (rb_buffer (sp_rb s))(slot C t := v')\<rparr>) (consumer s)"
    using inv rm slot_head_tail [OF vc, of t "rb_head (sp_rb s)"] t
    by (cases "consumer s") (auto simp: spsc_inv_def room_def)
  with inv rm vc t show ?thesis
    by (simp add: spsc_inv_def producer_step_def P_room rb_inv_def room_def rb_contents_def
        window_write slot_def [symmetric])
next
  case (P_written v' t)
  assume inv: "spsc_inv C s"
  with P_written have t: "t = rb_tail (sp_rb s)" and rm: "room C (sp_rb s)"
    and rb: "rb_inv C (sp_rb s)" and v': "rb_buffer (sp_rb s) (slot C t) = v'"
    by (auto simp: spsc_inv_def)
  have "consumer_inv C (sp_rb s\<lparr>rb_tail := t + 1\<rparr>) (consumer s)"
    using inv tail_advance_neq [OF rb] t by (cases "consumer s") (auto simp: spsc_inv_def)
  with inv rm rb t v' show ?thesis
    using room_advance [OF rb rm]
    by (simp add: spsc_inv_def producer_step_def P_written rb_inv_def room_def rb_contents_def
        window_snoc)
qed

lemma spsc_consumer_inv: "spsc_inv C s \<Longrightarrow> spsc_inv C (consumer_step C s)"
proof (cases "consumer s")
  case (C_read h v)
  assume inv: "spsc_inv C s"
  with C_read have h: "h = rb_head (sp_rb s)" and ne: "rb_tail (sp_rb s) \<noteq> rb_head (sp_rb s)"
    and rb: "rb_inv C (sp_rb s)" and v: "rb_buffer (sp_rb s) (slot C h) = v"
    by (auto simp: spsc_inv_def)
  note less = pop_shrinks [OF ne]
  have "producer_inv C (sp_rb s\<lparr>rb_head := h + 1\<rparr>) (producer s)"
    using inv less h by (cases "producer s") (auto simp: spsc_inv_def room_def)
  with inv rb h v less show ?thesis
    by (auto simp: spsc_inv_def consumer_step_def C_read rb_inv_def rb_contents_def
        window_Cons [OF ne] word_le_nat_alt)
qed (auto simp: spsc_inv_def consumer_step_def slot_def)

interpretation spsc: invariant_system "spsc_init C" "spsc_step C" "spsc_inv C" for C
proof
  show "spsc_inv C s" if "spsc_init C s" for s :: "'b spsc"
    using that by (auto simp: spsc_init_def spsc_start_def spsc_inv_def rb_init_inv)
  show "spsc_inv C t" if "spsc_inv C s" "spsc_step C s t" for s t :: "'b spsc"
    using that(2,1) by cases (simp_all add: spsc_producer_inv spsc_consumer_inv)
qed

text \<open>A schedule: \<open>Some v\<close> lets the producer take a step (with \<open>v\<close> as its next value),
  \<open>None\<close> the consumer.\<close>

fun spsc_run :: "u64 \<Rightarrow> 'a option list \<Rightarrow> 'a spsc \<Rightarrow> 'a spsc" where
  "spsc_run C [] s = s"
| "spsc_run C (Some v # sched) s = spsc_run C sched (producer_step C v s)"
| "spsc_run C (None # sched) s = spsc_run C sched (consumer_step C s)"

lemma spsc_run_reach:
  "reach (spsc_init C) (spsc_step C) s \<Longrightarrow>
    reach (spsc_init C) (spsc_step C) (spsc_run C sched s)"
  by (induction C sched s rule: spsc_run.induct) (auto intro: reach_step spsc_step.intros)

lemma spsc_start_reach: "valid_capacity C \<Longrightarrow> reach (spsc_init C) (spsc_step C) (spsc_start b)"
  by (rule reach_init) (auto simp: spsc_init_def)

lemmas spsc_eval = spsc_start_def RingBuffer_init_def producer_step_def consumer_step_def
  kMask_def

subsection \<open>Properties\<close>

text \<open>C6: used by one thread, the ring buffer is a FIFO queue bounded by its capacity: every
  sequence of pushes and pops on a fresh buffer returns exactly what the same sequence
  returns on a list that accepts at most \<open>Capacity\<close> elements, including when the 64-bit
  indices wrap.\<close>

theorem ring_buffer_refines_list:
  assumes "valid_capacity C"
  shows "run_ops (queue_exec (RingBuffer_push C) (RingBuffer_pop C)) ops (RingBuffer_init b) =
    run_ops (list_exec (unat C)) ops []"
  using rbq.run_refines [OF rb_init_inv [OF assms], of ops b] by simp

theorem ring_buffer_refines_list_witness:
  "valid_capacity 2 \<and>
   run_ops (queue_exec (RingBuffer_push 2) (RingBuffer_pop 2))
     [Push (5::nat), Push 6, Push 7, Pop, Pop, Pop] (RingBuffer_init (\<lambda>_. 0)) =
   [Pushed True, Pushed True, Pushed False, Popped (Some 5), Popped (Some 6), Popped None]"
proof -
  have v: "valid_capacity 2" by (simp add: valid_capacity_def)
  show ?thesis by (subst ring_buffer_refines_list [OF v]) (simp add: v)
qed

text \<open>C7: for every interleaving of one producer and one consumer, the values popped so far
  followed by the values still queued are the values pushed so far, in order: nothing is
  lost, duplicated, reordered or read before it was written, and the queue never holds more
  than \<open>Capacity\<close> values.\<close>

theorem spsc_fifo:
  assumes "reach (spsc_init C) (spsc_step C) s"
  shows "pushed s = popped s @ rb_contents C (sp_rb s) \<and>
    length (rb_contents C (sp_rb s)) \<le> unat C"
  using spsc.reach_inv [OF assms] by (auto simp: spsc_inv_def intro: rbq.contents_bound)

theorem spsc_fifo_witness:
  "let s = spsc_run 2 [Some (7::nat), Some 7, Some 7, None, Some 7, Some 8, None, None, Some 8]
       (spsc_start (\<lambda>_. 0))
   in reach (spsc_init 2) (spsc_step 2) s \<and> pushed s = [7] \<and> popped s = [] \<and>
     pushed s = popped s @ rb_contents 2 (sp_rb s) \<and>
     length (rb_contents 2 (sp_rb s)) \<le> unat (2::u64)"
proof -
  have v: "valid_capacity 2" by (simp add: valid_capacity_def)
  note r = spsc_run_reach [OF spsc_start_reach [OF v]]
  show ?thesis unfolding Let_def
    by (intro conjI r spsc_fifo [OF r, THEN conjunct1] spsc_fifo [OF r, THEN conjunct2])
       (simp_all add: spsc_eval)
qed

text \<open>C8: no data race on the slots: whenever the producer is about to write a slot and the
  consumer is about to read one, the two slots are different, and both are inside the
  array.\<close>

theorem spsc_race_free:
  assumes "reach (spsc_init C) (spsc_step C) s"
    and "producer s = P_room v t" and "consumer s = C_avail h"
  shows "unat (t AND kMask C) \<noteq> unat (h AND kMask C) \<and>
    unat (t AND kMask C) < unat C \<and> unat (h AND kMask C) < unat C"
proof -
  have "spsc_inv C s" using assms(1) by (rule spsc.reach_inv)
  with assms(2,3) have v: "valid_capacity C" and "t \<noteq> h" "unat (t - h) < unat C"
    by (auto simp: spsc_inv_def rb_inv_def room_def)
  then have "slot C h \<noteq> slot C t" by (rule slot_head_tail)
  with v show ?thesis using slot_bound by (auto simp: slot_def)
qed

theorem spsc_race_free_witness:
  "let s = spsc_run 2 [Some (7::nat), Some 7, Some 7, Some 7, Some 8, Some 8, None, None]
       (spsc_start (\<lambda>_. 0))
   in producer s = P_room 8 1 \<and> consumer s = C_avail 0 \<and>
     unat (1 AND kMask 2) \<noteq> unat (0 AND kMask 2)"
proof -
  have v: "valid_capacity 2" by (simp add: valid_capacity_def)
  let ?s = "spsc_run 2 [Some (7::nat), Some 7, Some 7, Some 7, Some 8, Some 8, None, None]
       (spsc_start (\<lambda>_. 0))"
  have pc: "producer ?s = P_room 8 1" "consumer ?s = C_avail 0" by (simp_all add: spsc_eval)
  show ?thesis
    using spsc_race_free [OF spsc_run_reach [OF spsc_start_reach [OF v]] pc] pc
    by (simp add: Let_def)
qed

end
