(* ===== verification/Types.thy ===== *)
theory Types
  imports Prelude
begin

text \<open>
  The fundamental types of \<^verbatim>\<open>src/common/types.hpp\<close>. The fields of the C++ structs keep
  their names behind a prefix that names the struct (\<open>me_\<close> for \<open>MarketEvent\<close>, \<open>o_\<close> for
  \<open>Order\<close>, \<open>f_\<close> for \<open>FillReport\<close>), since field names are global here. The raw message
  type of an event is a byte, as in the source; the enumerators of \<open>MtbtMsgType\<close> are the
  bytes the code compares it with.
\<close>

type_synonym Token = u32
type_synonym Price = int
type_synonym Quantity = int
type_synonym OrderId = int
type_synonym ClOrdId = int
type_synonym Timestamp = u64
type_synonym Side = bool
type_synonym Segment = u8

abbreviation (input) kBuy :: Side where "kBuy \<equiv> True"
abbreviation (input) kSell :: Side where "kSell \<equiv> False"

definition kSegmentCm :: Segment where "kSegmentCm = 1"
definition kSegmentFo :: Segment where "kSegmentFo = 2"
definition kSegmentCd :: Segment where "kSegmentCd = 3"

record MarketEvent =
  me_ts :: Timestamp
  me_token :: Token
  me_price :: Price
  me_qty :: Quantity
  me_side :: Side
  me_type :: u8
  me_order_no :: int
  me_stream_id :: u32
  me_seq_no :: u64
  me_order_no2 :: int
  me_trade_no :: int
  me_bid_price :: Price
  me_bid_qty :: Quantity
  me_ask_price :: Price
  me_ask_qty :: Quantity

datatype OrderType = kLimit | kMarket | kStopLoss | kStopLossMarket

datatype Validity = kDay | kIoc | kGtd | kEos

fun Validity_code :: "Validity \<Rightarrow> int" where
  "Validity_code kDay = 1"
| "Validity_code kIoc = 3"
| "Validity_code kGtd = 4"
| "Validity_code kEos = 6"

record Order =
  o_client_order_id :: ClOrdId
  o_exchange_order_no :: int
  o_token :: Token
  o_segment :: Segment
  o_price :: Price
  o_qty :: Quantity
  o_disclosed_qty :: Quantity
  o_side :: Side
  o_order_type :: OrderType
  o_validity :: Validity
  o_created_at :: Timestamp

record FillReport =
  f_exchange_order_no :: int
  f_client_order_id :: ClOrdId
  f_token :: Token
  f_fill_price :: Price
  f_fill_qty :: Quantity
  f_remaining_qty :: Quantity
  f_fill_time :: Timestamp
  f_trade_no :: int
  f_side :: Side

text \<open>\<open>MtbtMsgType\<close>: the codes \<open>'A'\<close>, \<open>'M'\<close>, \<open>'X'\<close>, \<open>'T'\<close>, \<open>'O'\<close>, \<open>'Q'\<close>, \<open>'H'\<close>.\<close>

definition kOrderAdd :: u8 where "kOrderAdd = 65"
definition kOrderModify :: u8 where "kOrderModify = 77"
definition kOrderCancel :: u8 where "kOrderCancel = 88"
definition kTrade :: u8 where "kTrade = 84"
definition kOpenInterest :: u8 where "kOpenInterest = 79"
definition kSnapQuote :: u8 where "kSnapQuote = 81"
definition kHeartbeat :: u8 where "kHeartbeat = 72"

lemmas mtbt_codes = kOrderAdd_def kOrderModify_def kOrderCancel_def kTrade_def
  kOpenInterest_def kSnapQuote_def kHeartbeat_def

text \<open>A value-initialised event and order: every field zero.\<close>

definition zero_event :: MarketEvent where
  "zero_event = \<lparr>me_ts = 0, me_token = 0, me_price = 0, me_qty = 0, me_side = kSell,
     me_type = 0, me_order_no = 0, me_stream_id = 0, me_seq_no = 0, me_order_no2 = 0,
     me_trade_no = 0, me_bid_price = 0, me_bid_qty = 0, me_ask_price = 0, me_ask_qty = 0\<rparr>"

text \<open>An order used in examples.\<close>

definition example_order :: Order where
  "example_order = \<lparr>o_client_order_id = 1, o_exchange_order_no = 0, o_token = 7, o_segment = kSegmentFo, o_price = 10050,
     o_qty = 25, o_disclosed_qty = 0, o_side = kBuy, o_order_type = kLimit, o_validity = kDay, o_created_at = 0\<rparr>"

end
