(* ===== verification/Price_Levels.thy ===== *)
theory Price_Levels
  imports Types
begin

text \<open>
  One side of an order book: \<^verbatim>\<open>src/order_book/price_level.hpp\<close> and the level-array
  maintenance of \<^verbatim>\<open>src/order_book/order_book.hpp\<close>.

  A side is the array of levels, a function from indices, and the number of levels in use.
  The template parameter \<open>IsBid\<close> of the source only selects the array and the direction of
  the order, so the searches take the direction as the predicate \<open>sorts_before IsBid\<close>. The
  locale \<open>side_order\<close> states what they need of it (a strict total order) and proves the
  binary searches, the shifts and the level operations once for both sides.
\<close>

subsection \<open>A price level\<close>

record PriceLevel =
  pl_price :: Price
  pl_total_quantity :: Quantity
  pl_order_count :: int

definition add_order :: "Quantity \<Rightarrow> PriceLevel \<Rightarrow> PriceLevel" where
  "add_order qty l = l\<lparr>pl_total_quantity := pl_total_quantity l + qty,
     pl_order_count := pl_order_count l + 1\<rparr>"

definition remove_order :: "Quantity \<Rightarrow> bool \<Rightarrow> PriceLevel \<Rightarrow> PriceLevel" where
  "remove_order qty drop_order l =
     (let total = pl_total_quantity l - qty
      in l\<lparr>pl_total_quantity := (if total < 0 then 0 else total),
           pl_order_count := (if drop_order \<and> pl_order_count l > 0
                              then pl_order_count l - 1 else pl_order_count l)\<rparr>)"

definition modify_order :: "Quantity \<Rightarrow> Quantity \<Rightarrow> PriceLevel \<Rightarrow> PriceLevel" where
  "modify_order old_qty new_qty l =
     (let total = pl_total_quantity l + (new_qty - old_qty)
      in l\<lparr>pl_total_quantity := (if total < 0 then 0 else total)\<rparr>)"

definition PriceLevel_empty :: "PriceLevel \<Rightarrow> bool" where
  "PriceLevel_empty l \<longleftrightarrow> pl_order_count l \<le> 0"

definition PriceLevel_default :: PriceLevel where
  "PriceLevel_default = \<lparr>pl_price = 0, pl_total_quantity = 0, pl_order_count = 0\<rparr>"

subsection \<open>Level arrays\<close>

type_synonym levels = "nat \<Rightarrow> PriceLevel"

definition kMaxLevelsPerSide :: nat where
  "kMaxLevelsPerSide = 256"

definition sorts_before :: "bool \<Rightarrow> Price \<Rightarrow> Price \<Rightarrow> bool" where
  "sorts_before IsBid mp price = (if IsBid then mp > price else mp < price)"

function FindLevel_loop :: "(Price \<Rightarrow> Price \<Rightarrow> bool) \<Rightarrow> levels \<Rightarrow> nat \<Rightarrow> Price \<Rightarrow> nat \<Rightarrow> nat \<Rightarrow> nat" where
  "FindLevel_loop before lv count price lo hi =
     (if lo < hi
      then let mid = (lo + hi) div 2; mp = pl_price (lv mid)
           in if mp = price then mid
              else if before mp price then FindLevel_loop before lv count price (mid + 1) hi
              else FindLevel_loop before lv count price lo mid
      else count)"
  by pat_completeness auto
termination
  by (relation "measure (\<lambda>(before, lv, count, price, lo, hi). hi - lo)") auto

definition FindLevel :: "(Price \<Rightarrow> Price \<Rightarrow> bool) \<Rightarrow> levels \<Rightarrow> nat \<Rightarrow> Price \<Rightarrow> nat" where
  "FindLevel before lv count price = FindLevel_loop before lv count price 0 count"

function InsertionPoint_loop :: "(Price \<Rightarrow> Price \<Rightarrow> bool) \<Rightarrow> levels \<Rightarrow> Price \<Rightarrow> nat \<Rightarrow> nat \<Rightarrow> nat" where
  "InsertionPoint_loop before lv price lo hi =
     (if lo < hi
      then let mid = (lo + hi) div 2
           in if before (pl_price (lv mid)) price then InsertionPoint_loop before lv price (mid + 1) hi
              else InsertionPoint_loop before lv price lo mid
      else lo)"
  by pat_completeness auto
termination
  by (relation "measure (\<lambda>(before, lv, price, lo, hi). hi - lo)") auto

definition InsertionPoint :: "(Price \<Rightarrow> Price \<Rightarrow> bool) \<Rightarrow> levels \<Rightarrow> nat \<Rightarrow> Price \<Rightarrow> nat" where
  "InsertionPoint before lv count price = InsertionPoint_loop before lv price 0 count"

text \<open>\<open>for (i = start; i > pos; --i) levels[i] = levels[i - 1]\<close> and
  \<open>for (i = idx; i + 1 < count; ++i) levels[i] = levels[i + 1]\<close>.\<close>

primrec shift_right :: "nat \<Rightarrow> nat \<Rightarrow> levels \<Rightarrow> levels" where
  "shift_right pos 0 lv = lv"
| "shift_right pos (Suc i) lv =
     (if Suc i > pos then shift_right pos i (lv(Suc i := lv i)) else lv)"

function shift_left :: "nat \<Rightarrow> nat \<Rightarrow> levels \<Rightarrow> levels" where
  "shift_left count i lv =
     (if i + 1 < count then shift_left count (i + 1) (lv(i := lv (i + 1))) else lv)"
  by pat_completeness auto
termination
  by (relation "measure (\<lambda>(count, i, lv). count - i)") auto

declare FindLevel_loop.simps [simp del] InsertionPoint_loop.simps [simp del]
  shift_left.simps [simp del]

definition AddQtyToLevel :: "(Price \<Rightarrow> Price \<Rightarrow> bool) \<Rightarrow> Price \<Rightarrow> Quantity \<Rightarrow>
    levels \<times> nat \<Rightarrow> levels \<times> nat" where
  "AddQtyToLevel before price qty side =
     (case side of (lv, count) \<Rightarrow>
        let idx = FindLevel before lv count price
        in if idx < count then (lv(idx := add_order qty (lv idx)), count)
           else let pos = InsertionPoint before lv count price;
                    fresh = add_order qty \<lparr>pl_price = price, pl_total_quantity = 0, pl_order_count = 0\<rparr>
                in if count \<ge> kMaxLevelsPerSide
                   then if pos \<ge> kMaxLevelsPerSide then (lv, count)
                        else ((shift_right pos (kMaxLevelsPerSide - 1) lv)(pos := fresh), count)
                   else ((shift_right pos count lv)(pos := fresh), count + 1))"

definition RemoveQtyFromLevel :: "(Price \<Rightarrow> Price \<Rightarrow> bool) \<Rightarrow> Price \<Rightarrow> Quantity \<Rightarrow> bool \<Rightarrow>
    levels \<times> nat \<Rightarrow> levels \<times> nat" where
  "RemoveQtyFromLevel before price qty drop_order side =
     (case side of (lv, count) \<Rightarrow>
        let idx = FindLevel before lv count price
        in if idx \<ge> count then (lv, count)
           else let lv' = lv(idx := remove_order qty drop_order (lv idx))
                in if PriceLevel_empty (lv' idx) then (shift_left count idx lv', count - 1)
                   else (lv', count))"

text \<open>\<open>displayed_qty_at\<close>: the linear scan over one side.\<close>

function displayed_scan :: "levels \<Rightarrow> nat \<Rightarrow> Price \<Rightarrow> nat \<Rightarrow> Quantity" where
  "displayed_scan lv count price i =
     (if i < count
      then if pl_price (lv i) = price then pl_total_quantity (lv i)
           else displayed_scan lv count price (i + 1)
      else 0)"
  by pat_completeness auto
termination
  by (relation "measure (\<lambda>(lv, count, price, i). count - i)") auto

declare displayed_scan.simps [simp del]

subsection \<open>The shifts\<close>

lemma shift_right_eq: "shift_right pos i lv = (\<lambda>k. if pos < k \<and> k \<le> i then lv (k - 1) else lv k)"
proof (induction i arbitrary: lv)
  case (Suc i)
  show ?case
  proof (cases "Suc i > pos")
    case True
    then show ?thesis by (auto simp: Suc fun_eq_iff)
  next
    case False
    then show ?thesis by (auto simp: fun_eq_iff)
  qed
qed (auto simp: fun_eq_iff)

lemma shift_left_eq:
  "shift_left count i lv = (\<lambda>k. if i \<le> k \<and> k + 1 < count then lv (k + 1) else lv k)"
proof (induction count i lv rule: shift_left.induct)
  case (1 count i lv)
  show ?case
  proof (cases "i + 1 < count")
    case True
    show ?thesis
      unfolding shift_left.simps [of count i lv] using True
      by (simp only: "1.IH" [OF True] if_True) (auto simp: fun_eq_iff)
  next
    case False
    then show ?thesis by (subst shift_left.simps) (auto simp: fun_eq_iff)
  qed
qed

subsection \<open>A side as a finite map from prices to levels\<close>

definition side_map :: "(Price \<Rightarrow> Price \<Rightarrow> bool) \<Rightarrow> levels \<times> nat \<Rightarrow> Price \<Rightarrow> PriceLevel option" where
  "side_map before side price =
     (case side of (lv, count) \<Rightarrow>
        let idx = FindLevel before lv count price in if idx < count then Some (lv idx) else None)"

definition side_sorted :: "(Price \<Rightarrow> Price \<Rightarrow> bool) \<Rightarrow> levels \<times> nat \<Rightarrow> bool" where
  "side_sorted before side =
     (case side of (lv, count) \<Rightarrow>
        \<forall>j<count. \<forall>i<j. before (pl_price (lv i)) (pl_price (lv j)))"

text \<open>The invariant of a side: strictly sorted from the best price outwards, within the array,
  and no level without orders.\<close>

definition side_inv :: "(Price \<Rightarrow> Price \<Rightarrow> bool) \<Rightarrow> levels \<times> nat \<Rightarrow> bool" where
  "side_inv before side \<longleftrightarrow> side_sorted before side \<and> snd side \<le> kMaxLevelsPerSide \<and>
     (\<forall>i < snd side. 0 < pl_order_count (fst side i))"

locale side_order =
  fixes before :: "Price \<Rightarrow> Price \<Rightarrow> bool"
  assumes before_irrefl: "\<not> before p p"
    and before_trans: "before p q \<Longrightarrow> before q r \<Longrightarrow> before p r"
    and before_total: "p \<noteq> q \<Longrightarrow> before p q \<or> before q p"
begin

lemma before_asym: "before p q \<Longrightarrow> \<not> before q p"
  using before_irrefl before_trans by blast

lemma sorted_before:
  "side_sorted before (lv, count) \<Longrightarrow> j < count \<Longrightarrow> i < j \<Longrightarrow> before (pl_price (lv i)) (pl_price (lv j))"
  by (simp add: side_sorted_def)

lemma sorted_inj:
  assumes "side_sorted before (lv, count)" "i < count" "j < count" "pl_price (lv i) = pl_price (lv j)"
  shows "i = j"
  using assms sorted_before [of lv count i j] sorted_before [of lv count j i] before_irrefl
  by (metis linorder_neqE_nat)

lemma sorted_before_iff:
  assumes "side_sorted before (lv, count)" "i < count" "j < count"
  shows "before (pl_price (lv i)) (pl_price (lv j)) \<longleftrightarrow> i < j"
  using assms sorted_before [of lv count i j] sorted_before [of lv count j i] before_irrefl before_asym
  by (metis linorder_neqE_nat)

lemma FindLevel_loop_found:
  assumes "side_sorted before (lv, count)" "k < count" "pl_price (lv k) = price"
  shows "lo \<le> k \<Longrightarrow> k < hi \<Longrightarrow> hi \<le> count \<Longrightarrow> FindLevel_loop before lv count price lo hi = k"
proof (induction "hi - lo" arbitrary: lo hi rule: less_induct)
  case less
  define mid where "mid = (lo + hi) div 2"
  have mid: "lo \<le> mid" "mid < hi" "mid < count" using less.prems by (auto simp: mid_def)
  consider "mid = k" | "mid < k" | "k < mid" by linarith
  then show ?case
  proof cases
    case 2
    have "before (pl_price (lv mid)) price" "pl_price (lv mid) \<noteq> price"
      using sorted_before_iff [OF assms(1) mid(3) assms(2)] 2 assms(3) before_irrefl by auto
    moreover have "FindLevel_loop before lv count price (mid + 1) hi = k"
      using less.hyps [of hi "mid + 1"] 2 mid less.prems by simp
    ultimately show ?thesis
      using less.prems by (subst FindLevel_loop.simps) (simp add: mid_def Let_def)
  next
    case 3
    have "\<not> before (pl_price (lv mid)) price" "pl_price (lv mid) \<noteq> price"
      using sorted_before_iff [OF assms(1) mid(3) assms(2)] sorted_inj [OF assms(1) mid(3) assms(2)] 3
        assms(3) by auto
    moreover have "FindLevel_loop before lv count price lo mid = k"
      using less.hyps [of mid lo] 3 mid less.prems by simp
    ultimately show ?thesis
      using less.prems by (subst FindLevel_loop.simps) (simp add: mid_def Let_def)
  qed (use less.prems assms(3) in \<open>subst FindLevel_loop.simps, simp add: mid_def Let_def\<close>)
qed

lemma FindLevel_loop_absent:
  assumes "\<forall>k<count. pl_price (lv k) \<noteq> price"
  shows "hi \<le> count \<Longrightarrow> FindLevel_loop before lv count price lo hi = count"
proof (induction "hi - lo" arbitrary: lo hi rule: less_induct)
  case less
  have "lo < hi \<Longrightarrow> pl_price (lv ((lo + hi) div 2)) \<noteq> price" using assms less.prems by simp
  then show ?case
    using less.prems less.hyps [of hi "(lo + hi) div 2 + 1"] less.hyps [of "(lo + hi) div 2" lo]
    by (subst FindLevel_loop.simps) (simp add: Let_def)
qed

lemma FindLevel_found:
  "side_sorted before (lv, count) \<Longrightarrow> k < count \<Longrightarrow> FindLevel before lv count (pl_price (lv k)) = k"
  by (simp add: FindLevel_def FindLevel_loop_found)

lemma FindLevel_absent:
  "\<forall>k<count. pl_price (lv k) \<noteq> price \<Longrightarrow> FindLevel before lv count price = count"
  by (simp add: FindLevel_def FindLevel_loop_absent)

lemma FindLevel_price:
  assumes "side_sorted before (lv, count)" "FindLevel before lv count price < count"
  shows "pl_price (lv (FindLevel before lv count price)) = price"
proof (cases "\<exists>k<count. pl_price (lv k) = price")
  case True
  then obtain k where k: "k < count" "pl_price (lv k) = price" by blast
  show ?thesis using FindLevel_found [OF assms(1) k(1)] k(2) by simp
next
  case False
  then show ?thesis using FindLevel_absent [of count lv price] assms(2) by simp
qed

text \<open>The insertion point splits the side: everything before it is strictly better, everything
  from it on is not.\<close>

lemma InsertionPoint_loop_split:
  assumes "side_sorted before (lv, count)"
  shows "lo \<le> hi \<Longrightarrow> hi \<le> count \<Longrightarrow> \<forall>k<lo. before (pl_price (lv k)) price \<Longrightarrow>
    \<forall>k. hi \<le> k \<and> k < count \<longrightarrow> \<not> before (pl_price (lv k)) price \<Longrightarrow>
    (let pos = InsertionPoint_loop before lv price lo hi
     in pos \<le> count \<and> (\<forall>k<pos. before (pl_price (lv k)) price) \<and>
        (\<forall>k. pos \<le> k \<and> k < count \<longrightarrow> \<not> before (pl_price (lv k)) price))"
proof (induction "hi - lo" arbitrary: lo hi rule: less_induct)
  case less
  define mid where "mid = (lo + hi) div 2"
  show ?case
  proof (cases "lo < hi")
    case True
    then have mid: "lo \<le> mid" "mid < hi" "mid < count" using less.prems by (auto simp: mid_def)
    show ?thesis
    proof (cases "before (pl_price (lv mid)) price")
      case up: True
      have "\<forall>k<mid + 1. before (pl_price (lv k)) price"
        using up sorted_before [OF assms mid(3)] before_trans less_Suc_eq by (metis Suc_eq_plus1)
      then show ?thesis
        using less.hyps [of hi "mid + 1"] mid less.prems up True
        by (subst InsertionPoint_loop.simps) (simp add: mid_def Let_def)
    next
      case down: False
      have "\<forall>k. mid \<le> k \<and> k < count \<longrightarrow> \<not> before (pl_price (lv k)) price"
        using down sorted_before [OF assms] before_trans le_eq_less_or_eq by metis
      then show ?thesis
        using less.hyps [of mid lo] mid less.prems down True
        by (subst InsertionPoint_loop.simps) (simp add: mid_def Let_def)
    qed
  next
    case False
    then have "lo = hi" using less.prems by simp
    then show ?thesis
      using less.prems by (subst InsertionPoint_loop.simps) (simp add: Let_def)
  qed
qed

lemma InsertionPoint_split:
  assumes "side_sorted before (lv, count)"
  shows "InsertionPoint before lv count price \<le> count"
    and "\<forall>k<InsertionPoint before lv count price. before (pl_price (lv k)) price"
    and "\<forall>k. InsertionPoint before lv count price \<le> k \<and> k < count \<longrightarrow> \<not> before (pl_price (lv k)) price"
proof -
  have "\<forall>k. count \<le> k \<and> k < count \<longrightarrow> \<not> before (pl_price (lv k)) price" by auto
  note split = InsertionPoint_loop_split [OF assms, of 0 count price, OF le0 order_refl _ this,
      folded InsertionPoint_def, unfolded Let_def, simplified]
  show "InsertionPoint before lv count price \<le> count" using split by (rule conjunct1)
  show "\<forall>k<InsertionPoint before lv count price. before (pl_price (lv k)) price"
    using split by (rule conjunct1 [OF conjunct2])
  show "\<forall>k. InsertionPoint before lv count price \<le> k \<and> k < count \<longrightarrow> \<not> before (pl_price (lv k)) price"
    using split by (rule conjunct2 [OF conjunct2])
qed

lemma side_map_Some_iff:
  assumes "side_sorted before (lv, count)"
  shows "side_map before (lv, count) p = Some l \<longleftrightarrow> (\<exists>i<count. lv i = l \<and> pl_price l = p)"
proof
  assume "side_map before (lv, count) p = Some l"
  then have "FindLevel before lv count p < count" "lv (FindLevel before lv count p) = l"
    by (auto simp: side_map_def Let_def split: if_splits)
  then show "\<exists>i<count. lv i = l \<and> pl_price l = p" using FindLevel_price [OF assms] by blast
next
  assume "\<exists>i<count. lv i = l \<and> pl_price l = p"
  then show "side_map before (lv, count) p = Some l"
    using FindLevel_found [OF assms] by (auto simp: side_map_def Let_def)
qed

lemma side_map_None_iff:
  assumes "side_sorted before (lv, count)"
  shows "side_map before (lv, count) p = None \<longleftrightarrow> (\<forall>i<count. pl_price (lv i) \<noteq> p)"
  using side_map_Some_iff [OF assms, of p] by (metis option.exhaust option.distinct(1))

lemma side_map_eqI:
  assumes "side_sorted before (lv, count)"
    and "\<And>i. i < count \<Longrightarrow> f (pl_price (lv i)) = Some (lv i)"
    and "\<And>p l. f p = Some l \<Longrightarrow> \<exists>i<count. lv i = l \<and> pl_price l = p"
  shows "side_map before (lv, count) = f"
proof (rule ext, rule option_eqI)
  fix p l
  show "side_map before (lv, count) p = Some l \<longleftrightarrow> f p = Some l"
    using side_map_Some_iff [OF assms(1), of p l] assms(2,3) by blast
qed

lemma sorted_prefix: "side_sorted before (lv, count) \<Longrightarrow> n \<le> count \<Longrightarrow> side_sorted before (lv, n)"
  by (auto simp: side_sorted_def)

text \<open>The insertion of a level into the first \<open>n\<close> levels of a side, with the ones from the
  insertion point on shifted one place up.\<close>

lemma insert_level_nth:
  assumes "pos \<le> n" "k < Suc n"
  shows "((shift_right pos n lv)(pos := l)) k =
    (if k < pos then lv k else if k = pos then l else lv (k - 1))"
  using assms by (auto simp: shift_right_eq)

lemma insert_level_sorted:
  assumes sorted: "side_sorted before (lv, n)" and pos: "pos \<le> n"
    and lower: "\<forall>k<pos. before (pl_price (lv k)) (pl_price l)"
    and upper: "\<forall>k. pos \<le> k \<and> k < n \<longrightarrow> before (pl_price l) (pl_price (lv k))"
  shows "side_sorted before ((shift_right pos n lv)(pos := l), Suc n)"
proof -
  have "before (pl_price (((shift_right pos n lv)(pos := l)) i))
               (pl_price (((shift_right pos n lv)(pos := l)) j))" if "j < Suc n" "i < j" for i j
  proof -
    note nth = insert_level_nth [OF pos \<open>j < Suc n\<close>, of lv l]
      insert_level_nth [OF pos less_trans [OF that(2,1)], of lv l]
    consider "j < pos" | "j = pos" | "pos < j" "i < pos" | "pos < j" "i = pos" | "pos < j" "pos < i"
      by linarith
    then show ?thesis
    proof cases
      case 4
      then have "pos \<le> j - 1 \<and> j - 1 < n" using that by auto
      then show ?thesis using 4 upper unfolding nth by auto
    next
      case 3
      then have "before (pl_price (lv i)) (pl_price (lv (j - 1)))"
        using sorted_before [OF sorted, of "j - 1" i] that by simp
      then show ?thesis using 3 unfolding nth by auto
    next
      case 5
      then have "before (pl_price (lv (i - 1))) (pl_price (lv (j - 1)))"
        using sorted_before [OF sorted, of "j - 1" "i - 1"] that by simp
      then show ?thesis using 5 unfolding nth by auto
    qed (use that pos lower sorted_before [OF sorted, of j i] in \<open>simp_all only: nth, auto\<close>)
  qed
  then show ?thesis by (simp add: side_sorted_def del: fun_upd_apply)
qed

lemma insert_level_map:
  assumes sorted: "side_sorted before (lv, n)" and pos: "pos \<le> n"
    and lower: "\<forall>k<pos. before (pl_price (lv k)) (pl_price l)"
    and upper: "\<forall>k. pos \<le> k \<and> k < n \<longrightarrow> before (pl_price l) (pl_price (lv k))"
  shows "side_map before ((shift_right pos n lv)(pos := l), Suc n) =
    (side_map before (lv, n))(pl_price l \<mapsto> l)"
proof (rule side_map_eqI [OF insert_level_sorted [OF assms]])
  have other: "pl_price (lv k) \<noteq> pl_price l" if "k < n" for k
    using that lower upper before_irrefl not_less by metis
  fix i assume i: "i < Suc n"
  have hit: "((side_map before (lv, n))(pl_price l \<mapsto> l)) (pl_price (lv k)) = Some (lv k)" if "k < n" for k
    using that side_map_Some_iff [OF sorted, of "pl_price (lv k)" "lv k"] other [OF that] by auto
  show "((side_map before (lv, n))(pl_price l \<mapsto> l)) (pl_price (((shift_right pos n lv)(pos := l)) i)) =
      Some (((shift_right pos n lv)(pos := l)) i)"
  proof -
    consider "i < pos" "i < n" | "i = pos" | "pos < i" "i - 1 < n" using i pos by linarith
    then show ?thesis
      using hit [of i] hit [of "i - 1"] unfolding insert_level_nth [OF pos i]
      by cases (simp_all del: fun_upd_apply add: fun_upd_same)
  qed
next
  fix p l' assume "((side_map before (lv, n))(pl_price l \<mapsto> l)) p = Some l'"
  then have "(p = pl_price l \<and> l' = l) \<or> side_map before (lv, n) p = Some l'"
    by (cases "p = pl_price l") simp_all
  then show "\<exists>i<Suc n. ((shift_right pos n lv)(pos := l)) i = l' \<and> pl_price l' = p"
  proof
    assume "p = pl_price l \<and> l' = l"
    then show ?thesis using pos by (intro exI [of _ pos]) simp
  next
    assume "side_map before (lv, n) p = Some l'"
    then obtain i where i: "i < n" "lv i = l'" "pl_price l' = p"
      unfolding side_map_Some_iff [OF sorted] by blast
    define i' where "i' = (if i < pos then i else i + 1)"
    have i': "i' < Suc n" using i(1) by (simp add: i'_def)
    have "((shift_right pos n lv)(pos := l)) i' = l'"
      using insert_level_nth [OF pos i', of lv l] i(2) by (simp add: i'_def split: if_splits)
    then show ?thesis using i' i(3) by blast
  qed
qed

text \<open>The removal of the level at an index, with the ones behind it shifted one place down.\<close>

lemma delete_level:
  assumes sorted: "side_sorted before (lv, count)" and idx: "idx < count"
  shows "side_sorted before (shift_left count idx lv, count - 1)"
    and "side_map before (shift_left count idx lv, count - 1) =
      (side_map before (lv, count))(pl_price (lv idx) := None)"
proof -
  let ?lv = "shift_left count idx lv"
  have nth: "?lv k = lv (if k < idx then k else k + 1)" if "k < count - 1" for k
    using that idx by (auto simp: shift_left_eq)
  show sorted': "side_sorted before (?lv, count - 1)"
    using sorted_before [OF sorted] by (auto simp: side_sorted_def nth)
  show "side_map before (?lv, count - 1) = (side_map before (lv, count))(pl_price (lv idx) := None)"
  proof (rule side_map_eqI [OF sorted'])
    fix i assume i: "i < count - 1"
    define i' where "i' = (if i < idx then i else i + 1)"
    have i': "i' < count" "i' \<noteq> idx" using i by (auto simp: i'_def)
    then have "pl_price (lv i') \<noteq> pl_price (lv idx)" using sorted_inj [OF sorted _ idx] by blast
    moreover have "side_map before (lv, count) (pl_price (lv i')) = Some (lv i')"
      using side_map_Some_iff [OF sorted] i' by blast
    ultimately show "((side_map before (lv, count))(pl_price (lv idx) := None)) (pl_price (?lv i)) = Some (?lv i)"
      using nth [OF i] by (simp add: i'_def)
  next
    fix p l assume "((side_map before (lv, count))(pl_price (lv idx) := None)) p = Some l"
    then obtain i where i: "i < count" "lv i = l" "pl_price l = p" "i \<noteq> idx"
      using side_map_Some_iff [OF sorted] by (auto split: if_splits)
    define i' where "i' = (if i < idx then i else i - 1)"
    have "i' < count - 1" "(if i' < idx then i' else i' + 1) = i" using i idx by (auto simp: i'_def)
    then show "\<exists>i<count - 1. ?lv i = l \<and> pl_price l = p" using nth [of i'] i by auto
  qed
qed

lemma update_level:
  assumes sorted: "side_sorted before (lv, count)" and idx: "idx < count"
    and price: "pl_price l = pl_price (lv idx)"
  shows "side_sorted before (lv(idx := l), count)"
    and "side_map before (lv(idx := l), count) = (side_map before (lv, count))(pl_price l \<mapsto> l)"
proof -
  show sorted': "side_sorted before (lv(idx := l), count)"
    using sorted price by (auto simp: side_sorted_def)
  show "side_map before (lv(idx := l), count) = (side_map before (lv, count))(pl_price l \<mapsto> l)"
  proof (rule side_map_eqI [OF sorted'])
    fix i assume i: "i < count"
    then have "side_map before (lv, count) (pl_price (lv i)) = Some (lv i)"
      using side_map_Some_iff [OF sorted] by blast
    then show "((side_map before (lv, count))(pl_price l \<mapsto> l)) (pl_price ((lv(idx := l)) i)) =
        Some ((lv(idx := l)) i)"
      using sorted_inj [OF sorted i idx] price by auto
  next
    fix p l' assume "((side_map before (lv, count))(pl_price l \<mapsto> l)) p = Some l'"
    then consider "l' = l" "p = pl_price l" | i where "i < count" "i \<noteq> idx" "lv i = l'" "pl_price l' = p"
      using side_map_Some_iff [OF sorted] price by (auto split: if_splits)
    then show "\<exists>i<count. (lv(idx := l)) i = l' \<and> pl_price l' = p"
      using idx by cases auto
  qed
qed

text \<open>The operations on a side, through the map.\<close>

lemma side_inv_iff:
  "side_inv before (lv, count) \<longleftrightarrow> side_sorted before (lv, count) \<and> count \<le> kMaxLevelsPerSide \<and>
    (\<forall>p l. side_map before (lv, count) p = Some l \<longrightarrow> 0 < pl_order_count l)"
  unfolding side_inv_def fst_conv snd_conv
  using side_map_Some_iff [of lv count] by (metis (no_types, lifting))

lemma side_inv_sorted: "side_inv before s \<Longrightarrow> side_sorted before s"
  by (simp add: side_inv_def)

lemma side_map_level: "side_sorted before s \<Longrightarrow> side_map before s p = Some l \<Longrightarrow> pl_price l = p"
  using side_map_Some_iff [of "fst s" "snd s" p l] by auto

lemma side_inv_level: "side_inv before s \<Longrightarrow> side_map before s p = Some l \<Longrightarrow> 0 < pl_order_count l"
  using side_inv_iff [of "fst s" "snd s"] by simp

lemma FindLevel_cases:
  assumes "side_sorted before (lv, count)"
  obtains (found) idx where "FindLevel before lv count p = idx" "idx < count" "pl_price (lv idx) = p"
      "side_map before (lv, count) p = Some (lv idx)"
  | (absent) "FindLevel before lv count p = count" "side_map before (lv, count) p = None"
      "\<forall>k<count. pl_price (lv k) \<noteq> p"
proof (cases "\<exists>k<count. pl_price (lv k) = p")
  case True
  then obtain k where k: "k < count" "pl_price (lv k) = p" by blast
  then show ?thesis
    using found [of k] FindLevel_found [OF assms k(1)] by (simp add: side_map_def)
next
  case False
  then show ?thesis
    using absent FindLevel_absent [of count lv p] by (simp add: side_map_def)
qed

lemma insertion_bounds:
  assumes sorted: "side_sorted before (lv, count)" and absent: "\<forall>k<count. pl_price (lv k) \<noteq> p"
  shows "\<forall>k<InsertionPoint before lv count p. before (pl_price (lv k)) p"
    and "\<forall>k. InsertionPoint before lv count p \<le> k \<and> k < count \<longrightarrow> before p (pl_price (lv k))"
  using InsertionPoint_split [OF sorted, of p] absent before_total by blast+

lemma AddQty_existing:
  assumes inv: "side_inv before s" and l: "side_map before s p = Some l"
  shows "side_inv before (AddQtyToLevel before p q s)"
    and "side_map before (AddQtyToLevel before p q s) = (side_map before s)(p \<mapsto> add_order q l)"
    and "snd (AddQtyToLevel before p q s) = snd s"
proof -
  obtain lv count where s: "s = (lv, count)" by (cases s)
  have sorted: "side_sorted before (lv, count)" using inv s by (simp add: side_inv_def)
  obtain idx where idx: "FindLevel before lv count p = idx" "idx < count" "pl_price (lv idx) = p" "l = lv idx"
    using l s by (cases rule: FindLevel_cases [OF sorted, where p = p]) auto
  have run: "AddQtyToLevel before p q (lv, count) = (lv(idx := add_order q l), count)"
    using idx by (simp add: AddQtyToLevel_def)
  have price: "pl_price (add_order q l) = pl_price (lv idx)" using idx by (simp add: add_order_def)
  note upd = update_level [OF sorted idx(2) price]
  show map: "side_map before (AddQtyToLevel before p q s) = (side_map before s)(p \<mapsto> add_order q l)"
    using upd(2) price idx(3) unfolding s run by simp
  show "snd (AddQtyToLevel before p q s) = snd s" by (simp add: s run)
  have "0 < pl_order_count (add_order q l)" using side_inv_level [OF inv l] by (simp add: add_order_def)
  then show "side_inv before (AddQtyToLevel before p q s)"
    using inv upd(1) idx(2) unfolding s run side_inv_def by simp
qed

lemma AddQty_new:
  assumes inv: "side_inv before s" and l: "side_map before s p = None" and room: "snd s < kMaxLevelsPerSide"
  shows "side_inv before (AddQtyToLevel before p q s)"
    and "side_map before (AddQtyToLevel before p q s) =
      (side_map before s)(p \<mapsto> \<lparr>pl_price = p, pl_total_quantity = q, pl_order_count = 1\<rparr>)"
    and "snd (AddQtyToLevel before p q s) = snd s + 1"
proof -
  obtain lv count where s: "s = (lv, count)" by (cases s)
  have sorted: "side_sorted before (lv, count)" using inv s by (simp add: side_inv_def)
  have absent: "FindLevel before lv count p = count" "\<forall>k<count. pl_price (lv k) \<noteq> p"
    using l s by (cases rule: FindLevel_cases [OF sorted, where p = p]; auto)+
  define pos where "pos = InsertionPoint before lv count p"
  define fresh where "fresh = \<lparr>pl_price = p, pl_total_quantity = q, pl_order_count = 1\<rparr>"
  have run: "AddQtyToLevel before p q (lv, count) = ((shift_right pos count lv)(pos := fresh), Suc count)"
    using absent room s by (simp add: AddQtyToLevel_def Let_def add_order_def pos_def fresh_def)
  have pos: "pos \<le> count" using InsertionPoint_split(1) [OF sorted] by (simp add: pos_def)
  have price: "pl_price fresh = p" by (simp add: fresh_def)
  note bounds = insertion_bounds [OF sorted absent(2), folded pos_def]
  note ins = insert_level_sorted [OF sorted pos, of fresh, unfolded price, OF bounds]
    insert_level_map [OF sorted pos, of fresh, unfolded price, OF bounds]
  show map: "side_map before (AddQtyToLevel before p q s) =
      (side_map before s)(p \<mapsto> \<lparr>pl_price = p, pl_total_quantity = q, pl_order_count = 1\<rparr>)"
    unfolding s run ins(2) by (simp add: fresh_def)
  show "snd (AddQtyToLevel before p q s) = snd s + 1" by (simp add: s run)
  show "side_inv before (AddQtyToLevel before p q s)"
    unfolding s run side_inv_iff ins(2)
    using ins(1) room side_inv_level [OF inv] by (auto simp: s fresh_def split: if_splits)
qed

lemma AddQty_full:
  assumes inv: "side_inv before s" and l: "side_map before s p = None" and full: "snd s = kMaxLevelsPerSide"
    and worst: "w = pl_price (fst s (kMaxLevelsPerSide - 1))"
  shows "side_inv before (AddQtyToLevel before p q s)"
    and "side_map before (AddQtyToLevel before p q s) =
      (if before p w
       then (side_map before s)(w := None, p \<mapsto> \<lparr>pl_price = p, pl_total_quantity = q, pl_order_count = 1\<rparr>)
       else side_map before s)"
proof -
  obtain m where M: "kMaxLevelsPerSide = Suc m" by (simp add: kMaxLevelsPerSide_def)
  obtain lv where s: "s = (lv, Suc m)" using full M by (cases s) auto
  have w: "w = pl_price (lv m)" using worst by (simp add: s M)
  have sorted: "side_sorted before (lv, Suc m)" using inv s by (simp add: side_inv_def)
  have absent: "FindLevel before lv (Suc m) p = Suc m" "\<forall>k<Suc m. pl_price (lv k) \<noteq> p"
    using l s by (cases rule: FindLevel_cases [OF sorted, where p = p]; auto)+
  define pos where "pos = InsertionPoint before lv (Suc m) p"
  define fresh where "fresh = \<lparr>pl_price = p, pl_total_quantity = q, pl_order_count = 1\<rparr>"
  have run: "AddQtyToLevel before p q (lv, Suc m) =
      (if Suc m \<le> pos then (lv, Suc m) else ((shift_right pos m lv)(pos := fresh), Suc m))"
    using absent by (simp add: AddQtyToLevel_def Let_def add_order_def pos_def fresh_def M)
  note bounds = insertion_bounds [OF sorted absent(2), folded pos_def]
  have better: "before p w \<longleftrightarrow> pos \<le> m" using bounds before_asym unfolding w by (meson lessI not_le)
  have prefix: "side_sorted before (lv, m)" by (rule sorted_prefix [OF sorted]) simp
  have drop: "side_map before (lv, m) = (side_map before (lv, Suc m))(w := None)"
    using delete_level(2) [OF sorted, of m] by (simp add: shift_left.simps w)
  show map: "side_map before (AddQtyToLevel before p q s) =
      (if before p w
       then (side_map before s)(w := None, p \<mapsto> \<lparr>pl_price = p, pl_total_quantity = q, pl_order_count = 1\<rparr>)
       else side_map before s)"
    and "side_inv before (AddQtyToLevel before p q s)"
  proof -
    have price: "pl_price fresh = p" by (simp add: fresh_def)
    have upper: "\<forall>k. pos \<le> k \<and> k < m \<longrightarrow> before p (pl_price (lv k))" using bounds(2) by auto
    note ins = insert_level_sorted [OF prefix, of pos fresh, unfolded price, OF _ bounds(1) upper]
      insert_level_map [OF prefix, of pos fresh, unfolded price, OF _ bounds(1) upper]
    show map: "side_map before (AddQtyToLevel before p q s) =
      (if before p w
       then (side_map before s)(w := None, p \<mapsto> \<lparr>pl_price = p, pl_total_quantity = q, pl_order_count = 1\<rparr>)
       else side_map before s)"
      unfolding s run better using ins(2) by (simp add: drop fresh_def del: fun_upd_apply)
    have "side_inv before ((shift_right pos m lv)(pos := fresh), Suc m)" if "pos \<le> m"
      unfolding side_inv_iff ins(2) [OF that] drop
      using ins(1) [OF that] side_inv_level [OF inv] by (auto simp: s M fresh_def split: if_splits)
    then show "side_inv before (AddQtyToLevel before p q s)" using inv unfolding s run by auto
  qed
qed

lemma RemoveQty_all:
  assumes inv: "side_inv before s"
  shows "side_inv before (RemoveQtyFromLevel before p q d s) \<and>
    side_map before (RemoveQtyFromLevel before p q d s) =
      (case side_map before s p of None \<Rightarrow> side_map before s
       | Some l \<Rightarrow> (side_map before s)(p := (if PriceLevel_empty (remove_order q d l) then None
                                           else Some (remove_order q d l)))) \<and>
    snd (RemoveQtyFromLevel before p q d s) =
      (case side_map before s p of None \<Rightarrow> snd s
       | Some l \<Rightarrow> if PriceLevel_empty (remove_order q d l) then snd s - 1 else snd s)"
proof -
  obtain lv count where s: "s = (lv, count)" by (cases s)
  have sorted: "side_sorted before (lv, count)" using inv s by (simp add: side_inv_def)
  show ?thesis
  proof (rule FindLevel_cases [OF sorted, where p = p])
    assume absent: "FindLevel before lv count p = count" "side_map before (lv, count) p = None"
    then show ?thesis using inv by (simp add: RemoveQtyFromLevel_def s)
  next
    fix idx
    assume found: "FindLevel before lv count p = idx" "idx < count" "pl_price (lv idx) = p"
      "side_map before (lv, count) p = Some (lv idx)"
    define l where "l = remove_order q d (lv idx)"
    have price: "pl_price l = pl_price (lv idx)" by (simp add: l_def remove_order_def Let_def)
    note upd = update_level [OF sorted found(2) price]
    show ?thesis
    proof (cases "PriceLevel_empty l")
      case True
      have run: "RemoveQtyFromLevel before p q d (lv, count) = (shift_left count idx (lv(idx := l)), count - 1)"
        using found True by (simp add: RemoveQtyFromLevel_def Let_def l_def)
      note del = delete_level [OF upd(1) found(2)]
      have map: "side_map before (shift_left count idx (lv(idx := l)), count - 1) = (side_map before (lv, count))(p := None)"
        using del(2) upd(2) price found(3) by simp
      have "side_inv before (shift_left count idx (lv(idx := l)), count - 1)"
        unfolding side_inv_iff map using del(1) inv side_inv_level [OF inv] by (auto simp: s side_inv_def split: if_splits)
      then show ?thesis using found True map by (simp add: s run l_def [symmetric])
    next
      case False
      have run: "RemoveQtyFromLevel before p q d (lv, count) = (lv(idx := l), count)"
        using found False by (simp add: RemoveQtyFromLevel_def Let_def l_def)
      have map: "side_map before (lv(idx := l), count) = (side_map before (lv, count))(p := Some l)"
        using upd(2) price found(3) by simp
      have "side_inv before (lv(idx := l), count)"
        unfolding side_inv_iff map using upd(1) inv False side_inv_level [OF inv]
        by (auto simp: s side_inv_def PriceLevel_empty_def split: if_splits)
      then show ?thesis using found False by (simp add: s run map l_def [symmetric])
    qed
  qed
qed

lemmas RemoveQty = RemoveQty_all [THEN conjunct1] RemoveQty_all [THEN conjunct2, THEN conjunct1]
  RemoveQty_all [THEN conjunct2, THEN conjunct2]

lemma AddQty_inv:
  assumes "side_inv before s"
  shows "side_inv before (AddQtyToLevel before p q s)"
proof (cases "side_map before s p")
  case None
  have "snd s \<le> kMaxLevelsPerSide" using assms by (simp add: side_inv_def)
  then consider "snd s < kMaxLevelsPerSide" | "snd s = kMaxLevelsPerSide" by linarith
  then show ?thesis
    using AddQty_new(1) [OF assms None] AddQty_full(1) [OF assms None _ refl] by cases auto
qed (rule AddQty_existing(1) [OF assms])

lemma AddQty_room:
  assumes "side_inv before s" "side_map before s p \<noteq> None \<or> snd s < kMaxLevelsPerSide"
  shows "side_map before (AddQtyToLevel before p q s) = (side_map before s)(p \<mapsto>
    (case side_map before s p of None \<Rightarrow> \<lparr>pl_price = p, pl_total_quantity = q, pl_order_count = 1\<rparr>
     | Some l \<Rightarrow> add_order q l))"
  using assms AddQty_existing(2) [OF assms(1)] AddQty_new(2) [OF assms(1)]
  by (cases "side_map before s p") auto

text \<open>The first level is the best one.\<close>

lemma best_level:
  assumes "side_inv before (lv, count)" "0 < count"
  shows "side_map before (lv, count) (pl_price (lv 0)) = Some (lv 0)"
    and "side_map before (lv, count) p = Some l \<Longrightarrow> p = pl_price (lv 0) \<or> before (pl_price (lv 0)) p"
proof -
  have sorted: "side_sorted before (lv, count)" using assms(1) by (simp add: side_inv_def)
  show "side_map before (lv, count) (pl_price (lv 0)) = Some (lv 0)"
    unfolding side_map_Some_iff [OF sorted] using assms(2) by blast
  show "p = pl_price (lv 0) \<or> before (pl_price (lv 0)) p" if hit: "side_map before (lv, count) p = Some l"
  proof -
    obtain i where i: "i < count" "pl_price (lv i) = p" using hit unfolding side_map_Some_iff [OF sorted] by blast
    show ?thesis using i sorted_before [OF sorted i(1), of 0] by (cases "i = 0") auto
  qed
qed

lemma card_levels:
  assumes "side_sorted before (lv, count)"
  shows "card (dom (side_map before (lv, count))) = count"
proof -
  have "dom (side_map before (lv, count)) = (\<lambda>i. pl_price (lv i)) ` {..<count}"
    unfolding dom_def side_map_Some_iff [OF assms] not_None_eq by auto
  moreover have "inj_on (\<lambda>i. pl_price (lv i)) {..<count}"
    using sorted_inj [OF assms] by (intro inj_onI) simp
  ultimately show ?thesis by (simp add: card_image)
qed

lemma no_level: "side_map before (lv, 0) = Map.empty"
  by (simp add: side_map_def FindLevel_def FindLevel_loop.simps fun_eq_iff)

lemma one_level: "side_map before (lv, Suc 0) = [pl_price (lv 0) \<mapsto> lv 0]"
proof (rule side_map_eqI)
  show "side_sorted before (lv, Suc 0)" by (simp add: side_sorted_def)
  show "\<exists>i<Suc 0. lv i = l \<and> pl_price l = p" if "[pl_price (lv 0) \<mapsto> lv 0] p = Some l" for p l
    using that by (simp split: if_splits)
qed simp

lemma displayed_scan_from:
  assumes "side_sorted before (lv, count)"
  shows "\<forall>k<i. pl_price (lv k) \<noteq> p \<Longrightarrow> i \<le> count \<Longrightarrow> displayed_scan lv count p i =
    (case side_map before (lv, count) p of None \<Rightarrow> 0 | Some l \<Rightarrow> pl_total_quantity l)"
proof (induction "count - i" arbitrary: i rule: less_induct)
  case less
  show ?case
  proof (cases "i < count")
    case True
    have hit: "side_map before (lv, count) (pl_price (lv i)) = Some (lv i)"
      using side_map_Some_iff [OF assms] True by blast
    have next_i: "displayed_scan lv count p (Suc i) =
        (case side_map before (lv, count) p of None \<Rightarrow> 0 | Some l \<Rightarrow> pl_total_quantity l)"
      if "pl_price (lv i) \<noteq> p"
      using less.hyps [of "Suc i"] less.prems True that by (auto simp: less_Suc_eq)
    show ?thesis
      using True hit next_i by (subst displayed_scan.simps) auto
  next
    case False
    then have "side_map before (lv, count) p = None"
      using less.prems side_map_None_iff [OF assms] by simp
    then show ?thesis using False by (subst displayed_scan.simps) simp
  qed
qed

lemma displayed_scan_map:
  assumes "side_sorted before (lv, count)"
  shows "displayed_scan lv count p 0 =
    (case side_map before (lv, count) p of None \<Rightarrow> 0 | Some l \<Rightarrow> pl_total_quantity l)"
  by (rule displayed_scan_from [OF assms]) simp_all

end

interpretation lv: side_order "sorts_before IsBid" for IsBid
  by unfold_locales (auto simp: sorts_before_def split: if_splits)

end
