(* ===== verification/Order_Table.thy ===== *)
theory Order_Table
  imports Types
begin

text \<open>
  The open-addressing order table of \<^verbatim>\<open>src/order_book/order_book.hpp\<close>: linear probing
  with backward-shift deletion, keyed by the exchange order number.

  A table is a function from slot indices to records together with \<open>order_mask\<close>, one less than
  its size. The probe loops run at most \<open>order_mask + 1\<close> times, so they recurse on the number of
  probes left. The shift loop of \<open>EraseOrder\<close> has no bound of its own: it is a
  \<^theory_text>\<open>partial_function\<close> whose value \<open>None\<close> means that it does not return.

  \<open>tbl_map\<close> abstracts a table to a finite map; the interface locale \<open>keyed_store\<close> states
  what the order book relies on and is interpreted on the table.
\<close>

subsection \<open>Records and operations\<close>

record OrderRecord =
  r_order_no :: int
  r_price :: Price
  r_qty :: Quantity
  r_side :: Side
  r_occupied :: bool

definition OrderRecord_default :: OrderRecord where
  "OrderRecord_default =
     \<lparr>r_order_no = 0, r_price = 0, r_qty = 0, r_side = kBuy, r_occupied = False\<rparr>"

type_synonym slots = "nat \<Rightarrow> OrderRecord"

partial_function (option) RoundUpPow2_loop :: "u64 \<Rightarrow> u64 \<Rightarrow> u64 option" where
  "RoundUpPow2_loop v p = (if p < v then RoundUpPow2_loop v (push_bit 1 p) else Some p)"

declare RoundUpPow2_loop.simps [code]

definition RoundUpPow2 :: "u64 \<Rightarrow> u64 option" where
  "RoundUpPow2 v = RoundUpPow2_loop v 1"

definition Hash :: "nat \<Rightarrow> int \<Rightarrow> nat" where
  "Hash order_mask order_no =
     (let x = (word_of_int order_no :: u64) * 0x9E3779B97F4A7C15
      in unat (drop_bit 40 x) AND order_mask)"

primrec FindOrder_loop :: "nat \<Rightarrow> slots \<Rightarrow> int \<Rightarrow> nat \<Rightarrow> nat \<Rightarrow> nat option" where
  "FindOrder_loop order_mask orders order_no 0 idx = None"
| "FindOrder_loop order_mask orders order_no (Suc n) idx =
     (if \<not> r_occupied (orders idx) then None
      else if r_order_no (orders idx) = order_no then Some idx
      else FindOrder_loop order_mask orders order_no n ((idx + 1) AND order_mask))"

definition FindOrder :: "nat \<Rightarrow> slots \<Rightarrow> int \<Rightarrow> nat option" where
  "FindOrder order_mask orders order_no =
     FindOrder_loop order_mask orders order_no (order_mask + 1) (Hash order_mask order_no)"

primrec InsertOrder_loop :: "nat \<Rightarrow> slots \<Rightarrow> OrderRecord \<Rightarrow> nat \<Rightarrow> nat \<Rightarrow> slots option" where
  "InsertOrder_loop order_mask orders rec 0 idx = None"
| "InsertOrder_loop order_mask orders rec (Suc n) idx =
     (if \<not> r_occupied (orders idx) then Some (orders(idx := rec\<lparr>r_occupied := True\<rparr>))
      else if r_order_no (orders idx) = r_order_no rec
        then Some (orders(idx := rec\<lparr>r_occupied := True\<rparr>))
      else InsertOrder_loop order_mask orders rec n ((idx + 1) AND order_mask))"

text \<open>\<open>None\<close>: the table is full and unchanged.\<close>

definition InsertOrder :: "nat \<Rightarrow> slots \<Rightarrow> OrderRecord \<Rightarrow> slots option" where
  "InsertOrder order_mask orders rec =
     InsertOrder_loop order_mask orders rec (order_mask + 1) (Hash order_mask (r_order_no rec))"

definition can_move :: "nat \<Rightarrow> nat \<Rightarrow> nat \<Rightarrow> bool" where
  "can_move hole next home =
     (if hole \<le> next then \<not> (hole < home \<and> home \<le> next)
      else \<not> (hole < home \<or> home \<le> next))"

partial_function (option) EraseOrder_shift :: "nat \<Rightarrow> slots \<Rightarrow> nat \<Rightarrow> nat \<Rightarrow> slots option" where
  "EraseOrder_shift order_mask orders hole next =
     (if r_occupied (orders next)
      then if can_move hole next (Hash order_mask (r_order_no (orders next)))
           then EraseOrder_shift order_mask (orders(hole := orders next)) next ((next + 1) AND order_mask)
           else EraseOrder_shift order_mask orders hole ((next + 1) AND order_mask)
      else Some (orders(hole := (orders hole)\<lparr>r_occupied := False\<rparr>)))"

declare EraseOrder_shift.simps [code]

text \<open>The search loop of \<open>EraseOrder\<close> is the probe loop of \<open>FindOrder\<close>.\<close>

definition EraseOrder :: "nat \<Rightarrow> slots \<Rightarrow> int \<Rightarrow> slots option" where
  "EraseOrder order_mask orders order_no =
     (case FindOrder_loop order_mask orders order_no (order_mask + 1) (Hash order_mask order_no) of
        None \<Rightarrow> Some orders
      | Some found \<Rightarrow> EraseOrder_shift order_mask orders found ((found + 1) AND order_mask))"

subsection \<open>Table sizes\<close>

definition pow2_mask :: "nat \<Rightarrow> bool" where
  "pow2_mask order_mask \<longleftrightarrow> (\<exists>k. order_mask + 1 = 2 ^ k)"

lemma and_pow2_mask [simp]:
  assumes "pow2_mask order_mask"
  shows "n AND order_mask = n mod (order_mask + 1)"
proof -
  from assms obtain k where k: "order_mask + 1 = 2 ^ k" by (auto simp: pow2_mask_def)
  then have "order_mask = 2 ^ k - 1" by simp
  then have "n AND order_mask = take_bit k n" by (simp add: take_bit_eq_mask mask_eq_exp_minus_1)
  then show ?thesis using k by (simp add: take_bit_eq_mod)
qed

lemma Hash_bound: "pow2_mask order_mask \<Longrightarrow> Hash order_mask k < order_mask + 1"
  by (simp add: Hash_def Let_def)

subsection \<open>Probe sequences\<close>

definition nth_slot :: "nat \<Rightarrow> nat \<Rightarrow> nat \<Rightarrow> nat" where
  "nth_slot m h d = (h + d) mod (m + 1)"

lemma nth_slot_bound [simp]: "nth_slot m h d < m + 1" "nth_slot m h d \<le> m"
  using mod_less_divisor [of "m + 1" "h + d"] by (auto simp: nth_slot_def)

lemma nth_slot_0 [simp]: "h \<le> m \<Longrightarrow> nth_slot m h 0 = h"
  by (simp add: nth_slot_def)

lemma nth_slot_step: "pow2_mask m \<Longrightarrow> (nth_slot m h d + 1) AND m = nth_slot m h (Suc d)"
  by (simp add: nth_slot_def mod_Suc_eq)

lemma nth_slot_inj: "nth_slot m h d = nth_slot m h d' \<Longrightarrow> d \<le> m \<Longrightarrow> d' \<le> m \<Longrightarrow> d = d'"
  using mod_add_inj [of d "m + 1" d' h] by (simp add: nth_slot_def)

lemma nth_slot_surj:
  assumes "i \<le> m" "h \<le> m"
  shows "\<exists>d \<le> m. nth_slot m h d = i"
proof (cases "h \<le> i")
  case True
  then have "nth_slot m h (i - h) = i" "i - h \<le> m" using assms by (auto simp: nth_slot_def)
  then show ?thesis by blast
next
  case False
  then have "h + (i + (m + 1) - h) = i + (m + 1)" using assms by simp
  then have "nth_slot m h (i + (m + 1) - h) = (i + (m + 1)) mod (m + 1)"
    by (simp only: nth_slot_def)
  also have "\<dots> = i" using assms by (simp only: mod_add_self2) simp
  finally have "nth_slot m h (i + (m + 1) - h) = i" .
  moreover have "i + (m + 1) - h \<le> m" using False assms by simp
  ultimately show ?thesis by blast
qed

lemma nth_slot_add: "nth_slot m (nth_slot m h d) d' = nth_slot m h (d + d')"
  by (simp add: nth_slot_def mod_add_left_eq add.assoc)

lemma nth_slot_wrap: "h \<le> m \<Longrightarrow> nth_slot m h (m + 1) = h"
  unfolding nth_slot_def by (simp only: mod_add_self2) simp

lemma nth_slot_eq_iff [simp]:
  "p \<le> m \<Longrightarrow> q \<le> m \<Longrightarrow> nth_slot m h p = nth_slot m h q \<longleftrightarrow> p = q"
  by (auto dest: nth_slot_inj)

definition occ :: "slots \<Rightarrow> nat \<Rightarrow> bool" where
  "occ t i \<longleftrightarrow> r_occupied (t i)"

definition keyat :: "slots \<Rightarrow> nat \<Rightarrow> int" where
  "keyat t i = r_order_no (t i)"

definition full :: "nat \<Rightarrow> slots \<Rightarrow> bool" where
  "full m t \<longleftrightarrow> (\<forall>i \<le> m. occ t i)"

lemma find_loop_hit:
  assumes "pow2_mask m"
  shows "j < n \<Longrightarrow> \<forall>d<j. occ t (nth_slot m h (c + d)) \<and> keyat t (nth_slot m h (c + d)) \<noteq> k \<Longrightarrow>
    occ t (nth_slot m h (c + j)) \<Longrightarrow> keyat t (nth_slot m h (c + j)) = k \<Longrightarrow>
    FindOrder_loop m t k n (nth_slot m h c) = Some (nth_slot m h (c + j))"
proof (induction n arbitrary: j c)
  case (Suc n)
  show ?case
  proof (cases j)
    case 0
    with Suc.prems show ?thesis by (simp add: occ_def keyat_def)
  next
    case (Suc j')
    have "FindOrder_loop m t k n (nth_slot m h (Suc c)) = Some (nth_slot m h (Suc c + j'))"
      using Suc.prems Suc by (intro Suc.IH) force+
    moreover have "occ t (nth_slot m h c)" "keyat t (nth_slot m h c) \<noteq> k"
      using Suc.prems(2) Suc by force+
    ultimately show ?thesis
      using nth_slot_step [OF assms, of h c] Suc by (simp add: occ_def keyat_def del: and_pow2_mask)
  qed
qed simp

lemma find_loop_miss:
  assumes "pow2_mask m" "\<forall>i \<le> m. occ t i \<longrightarrow> keyat t i \<noteq> k"
  shows "FindOrder_loop m t k n (nth_slot m h c) = None"
proof (induction n arbitrary: c)
  case (Suc n)
  then show ?case
    using assms(2) nth_slot_step [OF assms(1), of h c]
    by (auto simp: occ_def keyat_def simp del: and_pow2_mask)
qed simp

definition stops :: "slots \<Rightarrow> int \<Rightarrow> nat \<Rightarrow> bool" where
  "stops t k i \<longleftrightarrow> \<not> occ t i \<or> keyat t i = k"

lemma insert_loop_cases:
  assumes "pow2_mask m"
  shows "(\<exists>j<n. (\<forall>d<j. \<not> stops t (r_order_no rec) (nth_slot m h (c + d))) \<and>
        stops t (r_order_no rec) (nth_slot m h (c + j)) \<and>
        InsertOrder_loop m t rec n (nth_slot m h c) =
          Some (t(nth_slot m h (c + j) := rec\<lparr>r_occupied := True\<rparr>))) \<or>
    (\<forall>d<n. \<not> stops t (r_order_no rec) (nth_slot m h (c + d))) \<and>
      InsertOrder_loop m t rec n (nth_slot m h c) = None"
proof (induction n arbitrary: c)
  case (Suc n)
  show ?case
  proof (cases "stops t (r_order_no rec) (nth_slot m h c)")
    case True
    then show ?thesis by (intro disjI1 exI [of _ 0]) (auto simp: stops_def occ_def keyat_def)
  next
    case False
    then have eq: "InsertOrder_loop m t rec (Suc n) (nth_slot m h c) =
        InsertOrder_loop m t rec n (nth_slot m h (Suc c))"
      using nth_slot_step [OF assms, of h c]
      by (simp add: stops_def occ_def keyat_def del: and_pow2_mask)
    have all: "(\<forall>d<Suc j. \<not> stops t (r_order_no rec) (nth_slot m h (c + d))) \<longleftrightarrow>
        (\<forall>d<j. \<not> stops t (r_order_no rec) (nth_slot m h (Suc c + d)))" for j
      using False by (auto simp: less_Suc_eq_0_disj)
    from Suc.IH [of "Suc c"] show ?thesis
    proof (elim disjE exE conjE)
      fix j assume "j < n" "\<forall>d<j. \<not> stops t (r_order_no rec) (nth_slot m h (Suc c + d))"
        "stops t (r_order_no rec) (nth_slot m h (Suc c + j))"
        "InsertOrder_loop m t rec n (nth_slot m h (Suc c)) =
          Some (t(nth_slot m h (Suc c + j) := rec\<lparr>r_occupied := True\<rparr>))"
      then show ?thesis
        unfolding eq by (intro disjI1 exI [of _ "Suc j"]) (simp add: all del: fun_upd_apply)
    next
      assume "\<forall>d<n. \<not> stops t (r_order_no rec) (nth_slot m h (Suc c + d))"
        "InsertOrder_loop m t rec n (nth_slot m h (Suc c)) = None"
      then show ?thesis unfolding eq by (intro disjI2) (simp add: all)
    qed
  qed
qed simp

subsection \<open>The invariant and the map a table stands for\<close>

text \<open>Every record sits in its probe sequence behind occupied slots only, and no key occurs
  twice.\<close>

definition chained :: "nat \<Rightarrow> slots \<Rightarrow> nat \<Rightarrow> bool" where
  "chained m t i \<longleftrightarrow> (\<exists>d \<le> m. i = nth_slot m (Hash m (keyat t i)) d \<and>
     (\<forall>d' < d. occ t (nth_slot m (Hash m (keyat t i)) d')))"

definition tbl_inv :: "nat \<Rightarrow> slots \<Rightarrow> bool" where
  "tbl_inv m t \<longleftrightarrow> pow2_mask m \<and> (\<forall>i \<le> m. occ t i \<longrightarrow> chained m t i) \<and>
     (\<forall>i \<le> m. \<forall>j \<le> m. occ t i \<longrightarrow> occ t j \<longrightarrow> keyat t i = keyat t j \<longrightarrow> i = j)"

definition tbl_map :: "nat \<Rightarrow> slots \<Rightarrow> int \<rightharpoonup> OrderRecord" where
  "tbl_map m t k = map_option t (FindOrder m t k)"

lemma tbl_invD:
  assumes "tbl_inv m t"
  shows "pow2_mask m" "i \<le> m \<Longrightarrow> occ t i \<Longrightarrow> chained m t i"
    "i \<le> m \<Longrightarrow> j \<le> m \<Longrightarrow> occ t i \<Longrightarrow> occ t j \<Longrightarrow> keyat t i = keyat t j \<Longrightarrow> i = j"
  using assms by (auto simp: tbl_inv_def)

lemma FindOrder_hit:
  assumes "tbl_inv m t" "i \<le> m" "occ t i"
  shows "FindOrder m t (keyat t i) = Some i"
proof -
  let ?h = "Hash m (keyat t i)"
  have pw: "pow2_mask m" using assms(1) by (rule tbl_invD)
  from tbl_invD(2) [OF assms] obtain d where d: "d \<le> m" "i = nth_slot m ?h d"
    "\<forall>d' < d. occ t (nth_slot m ?h d')" by (auto simp: chained_def)
  have ne: "keyat t (nth_slot m ?h d') \<noteq> keyat t i" if "d' < d" for d'
  proof
    assume "keyat t (nth_slot m ?h d') = keyat t i"
    then have "nth_slot m ?h d' = i"
      using tbl_invD(3) [OF assms(1), of "nth_slot m ?h d'" i] assms(2,3) d(3) that by simp
    with d(1,2) that have "d' = d" by (metis nth_slot_inj less_imp_le order_trans)
    with that show False by simp
  qed
  have "FindOrder_loop m t (keyat t i) (m + 1) (nth_slot m ?h 0) = Some (nth_slot m ?h (0 + d))"
  proof (rule find_loop_hit [OF pw])
    show "occ t (nth_slot m ?h (0 + d))" "keyat t (nth_slot m ?h (0 + d)) = keyat t i"
      using assms(3) d(2) by simp_all
  qed (use d ne in auto)
  then show ?thesis
    using Hash_bound [OF pw, of "keyat t i"] d(2) by (simp add: FindOrder_def)
qed

lemma FindOrder_iff:
  assumes "tbl_inv m t"
  shows "FindOrder m t k = Some i \<longleftrightarrow> i \<le> m \<and> occ t i \<and> keyat t i = k"
proof (cases "\<exists>j \<le> m. occ t j \<and> keyat t j = k")
  case True
  then show ?thesis using FindOrder_hit [OF assms] tbl_invD(3) [OF assms] by fastforce
next
  case False
  have pw: "pow2_mask m" using assms by (rule tbl_invD)
  from False have "FindOrder_loop m t k (m + 1) (nth_slot m (Hash m k) 0) = None"
    by (intro find_loop_miss [OF pw]) auto
  with False Hash_bound [OF pw, of k] show ?thesis by (auto simp: FindOrder_def)
qed

definition recs :: "nat \<Rightarrow> slots \<Rightarrow> OrderRecord set" where
  "recs m t = {t i |i. i \<le> m \<and> occ t i}"

lemma tbl_map_iff:
  "tbl_inv m t \<Longrightarrow> tbl_map m t k = Some r \<longleftrightarrow> r \<in> recs m t \<and> r_order_no r = k"
  by (auto simp: tbl_map_def FindOrder_iff recs_def keyat_def)

lemma FindOrder_map: "tbl_inv m t \<Longrightarrow> FindOrder m t k = Some i \<Longrightarrow> tbl_map m t k = Some (t i)"
  by (simp add: tbl_map_def)

lemma FindOrder_None_map: "FindOrder m t k = None \<longleftrightarrow> tbl_map m t k = None"
  by (simp add: tbl_map_def)

subsection \<open>Insertion\<close>

lemma insert_inv:
  assumes inv: "tbl_inv m t" and r: "r_occupied r" "r_order_no r = k"
    and d: "d \<le> m" "\<forall>d'<d. \<not> stops t k (nth_slot m (Hash m k) d')"
    and i: "i = nth_slot m (Hash m k) d" "stops t k i"
  shows "tbl_inv m (t(i := r))" and "tbl_map m (t(i := r)) = (tbl_map m t)(k \<mapsto> r)"
proof -
  let ?t = "t(i := r)"
  have occ: "occ ?t j \<longleftrightarrow> j = i \<or> occ t j" for j using r by (simp add: occ_def)
  have key: "keyat ?t j = (if j = i then k else keyat t j)" for j using r by (simp add: keyat_def)
  have nokey: "keyat t j \<noteq> k" if "j \<le> m" "occ t j" "j \<noteq> i" for j
  proof
    assume jk: "keyat t j = k"
    from tbl_invD(2) [OF inv that(1,2)] jk obtain e where e: "e \<le> m"
      "j = nth_slot m (Hash m k) e" "\<forall>d'<e. occ t (nth_slot m (Hash m k) d')"
      by (auto simp: chained_def)
    have "\<not> e < d" using d(2) e(2) jk by (auto simp: stops_def)
    moreover have "e \<noteq> d" using e(2) i(1) that(3) by auto
    ultimately have "d < e" by simp
    with e(3) i(1) have "occ t i" by auto
    with i(2) have "keyat t i = k" by (auto simp: stops_def)
    with tbl_invD(3) [OF inv that(1) _ that(2) \<open>occ t i\<close>] jk i(1) have "j = i" by simp
    with that(3) show False ..
  qed
  have "chained m ?t j" if "j \<le> m" "occ ?t j" for j
  proof (cases "j = i")
    case True
    have ki: "keyat ?t i = k" by (simp add: key)
    have "\<forall>d'<d. occ ?t (nth_slot m (Hash m k) d')" using d(2) by (simp add: occ stops_def)
    with d(1) i(1) have "chained m ?t i" unfolding chained_def ki by blast
    with True show ?thesis by simp
  next
    case False
    with that occ have "chained m t j" using tbl_invD(2) [OF inv] by blast
    then show ?thesis using False by (auto simp: chained_def key occ)
  qed
  moreover have "j = l" if "j \<le> m" "l \<le> m" "occ ?t j" "occ ?t l" "keyat ?t j = keyat ?t l" for j l
    using that nokey tbl_invD(3) [OF inv, of j l] by (auto simp: key occ split: if_splits)
  ultimately show inv': "tbl_inv m ?t" using tbl_invD(1) [OF inv] by (auto simp: tbl_inv_def)
  have im: "i \<le> m" using i(1) by simp
  have recs: "q \<in> recs m ?t \<longleftrightarrow> q = r \<or> q \<in> recs m t \<and> r_order_no q \<noteq> k" for q
  proof
    assume "q \<in> recs m ?t"
    then show "q = r \<or> q \<in> recs m t \<and> r_order_no q \<noteq> k"
      using nokey by (auto simp: recs_def occ keyat_def split: if_splits)
  next
    assume "q = r \<or> q \<in> recs m t \<and> r_order_no q \<noteq> k"
    moreover have "\<not> (occ t i \<and> keyat t i \<noteq> k)" using i(2) by (auto simp: stops_def)
    ultimately show "q \<in> recs m ?t"
      using im r by (auto simp: recs_def occ keyat_def fun_upd_apply)
  qed
  show "tbl_map m ?t = (tbl_map m t)(k \<mapsto> r)"
  proof (rule ext, rule option_eqI)
    fix l q
    show "tbl_map m ?t l = Some q \<longleftrightarrow> ((tbl_map m t)(k \<mapsto> r)) l = Some q"
      using r by (auto simp: tbl_map_iff [OF inv'] tbl_map_iff [OF inv] recs)
  qed
qed

lemma InsertOrder_cases:
  assumes inv: "tbl_inv m t"
  shows "(full m t \<and> tbl_map m t (r_order_no r) = None \<and> InsertOrder m t r = None) \<or>
    ((\<not> full m t \<or> tbl_map m t (r_order_no r) \<noteq> None) \<and>
     (\<exists>t'. InsertOrder m t r = Some t' \<and> tbl_inv m t' \<and>
        tbl_map m t' = (tbl_map m t)(r_order_no r \<mapsto> r\<lparr>r_occupied := True\<rparr>)))"
proof -
  let ?k = "r_order_no r" and ?h = "Hash m (r_order_no r)"
  have pw: "pow2_mask m" using inv by (rule tbl_invD)
  have h: "nth_slot m ?h 0 = ?h" using Hash_bound [OF pw, of ?k] by simp
  from insert_loop_cases [OF pw, of "m + 1" t r ?h 0] show ?thesis
  proof (elim disjE exE conjE)
    fix j assume j: "j < m + 1" "\<forall>d<j. \<not> stops t ?k (nth_slot m ?h (0 + d))"
      "stops t ?k (nth_slot m ?h (0 + j))"
      "InsertOrder_loop m t r (m + 1) (nth_slot m ?h 0) =
        Some (t(nth_slot m ?h (0 + j) := r\<lparr>r_occupied := True\<rparr>))"
    let ?i = "nth_slot m ?h j"
    have "\<not> full m t \<or> tbl_map m t ?k \<noteq> None"
      using j(3) FindOrder_hit [OF inv, of ?i] nth_slot_bound(2) [of m ?h j]
      by (auto simp: stops_def full_def tbl_map_def simp del: nth_slot_bound)
    moreover have "InsertOrder m t r = Some (t(?i := r\<lparr>r_occupied := True\<rparr>))"
      using j(4) h by (simp add: InsertOrder_def del: fun_upd_apply)
    moreover have "d \<le> m \<Longrightarrow> \<forall>d'<d. \<not> stops t ?k (nth_slot m ?h d') \<Longrightarrow> stops t ?k (nth_slot m ?h d) \<Longrightarrow>
        tbl_inv m (t(nth_slot m ?h d := r\<lparr>r_occupied := True\<rparr>)) \<and>
        tbl_map m (t(nth_slot m ?h d := r\<lparr>r_occupied := True\<rparr>)) =
          (tbl_map m t)(?k \<mapsto> r\<lparr>r_occupied := True\<rparr>)" for d
      using insert_inv [OF inv, of "r\<lparr>r_occupied := True\<rparr>" ?k d] by simp
    ultimately show ?thesis using j(1-3) by simp
  next
    assume n: "\<forall>d<m + 1. \<not> stops t ?k (nth_slot m ?h (0 + d))"
      "InsertOrder_loop m t r (m + 1) (nth_slot m ?h 0) = None"
    have all: "occ t i \<and> keyat t i \<noteq> ?k" if im: "i \<le> m" for i
    proof -
      obtain d where "d \<le> m" "nth_slot m ?h d = i"
        using nth_slot_surj [OF im, of ?h] Hash_bound [OF pw, of ?k] by auto
      with n(1) show ?thesis by (force simp: stops_def)
    qed
    then have "tbl_map m t ?k = None"
      by (intro option_eqI) (auto simp: tbl_map_iff [OF inv] recs_def keyat_def)
    with all n(2) h show ?thesis by (auto simp: full_def InsertOrder_def)
  qed
qed

subsection \<open>Erasure\<close>

text \<open>
  While some slot \<open>e\<close> is free, no probe sequence of a stored record crosses it. Counting
  positions from \<open>e\<close> therefore unrolls the ring: \<open>nth_slot m e p\<close> is the slot at position
  \<open>p\<close>, \<open>home_pos\<close> the position of a key's home slot, and a record's home is never after
  the record.
\<close>

definition home_pos :: "nat \<Rightarrow> nat \<Rightarrow> int \<Rightarrow> nat" where
  "home_pos m e k = (Hash m k + (m + 1 - e)) mod (m + 1)"

lemma home_pos_bound [simp]: "home_pos m e k < m + 1" "home_pos m e k \<le> m"
  using mod_less_divisor [of "m + 1" "Hash m k + (m + 1 - e)"] by (auto simp: home_pos_def)

lemma nth_slot_home_pos:
  assumes "pow2_mask m" "e \<le> m"
  shows "nth_slot m e (home_pos m e k) = Hash m k"
proof -
  have "e + (Hash m k + (m + 1 - e)) = Hash m k + (m + 1)" using assms(2) by simp
  then have "nth_slot m e (home_pos m e k) = (Hash m k + (m + 1)) mod (m + 1)"
    unfolding nth_slot_def home_pos_def by (metis mod_add_right_eq)
  then show ?thesis using Hash_bound [OF assms(1), of k] by (simp only: mod_add_self2) simp
qed

definition pos_chained :: "nat \<Rightarrow> nat \<Rightarrow> slots \<Rightarrow> nat \<Rightarrow> bool" where
  "pos_chained m e t p \<longleftrightarrow> home_pos m e (keyat t (nth_slot m e p)) \<le> p \<and>
     (\<forall>r. home_pos m e (keyat t (nth_slot m e p)) \<le> r \<and> r < p \<longrightarrow> occ t (nth_slot m e r))"

lemma chained_pos:
  assumes pw: "pow2_mask m" and e: "e \<le> m" "\<not> occ t e"
    and p: "p \<le> m" "occ t (nth_slot m e p)" and ch: "chained m t (nth_slot m e p)"
  shows "pos_chained m e t p"
proof -
  let ?k = "keyat t (nth_slot m e p)"
  let ?q = "home_pos m e ?k"
  have via: "nth_slot m (Hash m ?k) d = nth_slot m e (?q + d)" for d
    using nth_slot_home_pos [OF pw e(1), of ?k] nth_slot_add [of m e ?q d] by simp
  from ch obtain d where d: "d \<le> m" "nth_slot m e p = nth_slot m e (?q + d)"
    "\<forall>d'<d. occ t (nth_slot m e (?q + d'))" by (auto simp: chained_def via)
  note wrap = nth_slot_wrap [OF e(1)]
  have "?q + d < m + 1"
  proof (rule ccontr)
    assume "\<not> ?q + d < m + 1"
    then have le: "m + 1 - ?q \<le> d" by simp
    have "occ t (nth_slot m e (?q + (m + 1 - ?q)))"
    proof (cases "m + 1 - ?q = d")
      case True
      with d(2) p(2) show ?thesis by simp
    next
      case False
      with le d(3) show ?thesis by simp
    qed
    moreover have "?q + (m + 1 - ?q) = m + 1" by (rule le_add_diff_inverse) (simp add: le_SucI)
    ultimately show False using wrap e(2) by simp
  qed
  with d(2) p(1) have "p = ?q + d" by (auto dest: nth_slot_inj)
  then have "occ t (nth_slot m e r)" if "?q \<le> r" "r < p" for r
    using d(3) that by (metis add_less_cancel_left le_add_diff_inverse)
  with \<open>p = ?q + d\<close> show ?thesis by (simp add: pos_chained_def)
qed

lemma pos_chained_chained:
  assumes pw: "pow2_mask m" and e: "e \<le> m" and p: "p \<le> m" and ch: "pos_chained m e t p"
  shows "chained m t (nth_slot m e p)"
proof -
  let ?k = "keyat t (nth_slot m e p)"
  let ?q = "home_pos m e ?k"
  have via: "nth_slot m (Hash m ?k) d = nth_slot m e (?q + d)" for d
    using nth_slot_home_pos [OF pw e, of ?k] nth_slot_add [of m e ?q d] by simp
  have "?q + (p - ?q) = p" "p - ?q \<le> m" using ch p by (auto simp: pos_chained_def)
  moreover have "\<forall>d'<p - ?q. occ t (nth_slot m e (?q + d'))"
    using ch by (auto simp: pos_chained_def)
  ultimately show ?thesis unfolding chained_def via by metis
qed

text \<open>The circular test of the code is the linear test on positions.\<close>

lemma nth_slot_if: "e \<le> m \<Longrightarrow> p \<le> m \<Longrightarrow>
    nth_slot m e p = (if e + p \<le> m then e + p else e + p - (m + 1))"
  by (auto simp: nth_slot_def mod_if)

lemma can_move_pos:
  assumes "e \<le> m" "a < b" "b \<le> m" "q \<le> m"
  shows "can_move (nth_slot m e a) (nth_slot m e b) (nth_slot m e q) \<longleftrightarrow> \<not> (a < q \<and> q \<le> b)"
  using assms by (auto simp: can_move_def nth_slot_if)

text \<open>The loop invariant: apart from the hole at position \<open>a\<close>, the table is well formed up
  to probe sequences that may cross the hole, and the records scanned between the hole and
  position \<open>b\<close> do not cross it.\<close>

definition pos_hole :: "nat \<Rightarrow> nat \<Rightarrow> slots \<Rightarrow> nat \<Rightarrow> nat \<Rightarrow> bool" where
  "pos_hole m e t a p \<longleftrightarrow> home_pos m e (keyat t (nth_slot m e p)) \<le> p \<and>
     (\<forall>r. home_pos m e (keyat t (nth_slot m e p)) \<le> r \<and> r < p \<and> r \<noteq> a \<longrightarrow> occ t (nth_slot m e r))"

definition shift_inv :: "nat \<Rightarrow> nat \<Rightarrow> slots \<Rightarrow> nat \<Rightarrow> nat \<Rightarrow> bool" where
  "shift_inv m e t a b \<longleftrightarrow> pow2_mask m \<and> e \<le> m \<and> \<not> occ t e \<and> 0 < a \<and> a < b \<and> b \<le> m + 1 \<and>
     (\<forall>p \<le> m. p \<noteq> a \<longrightarrow> occ t (nth_slot m e p) \<longrightarrow> pos_hole m e t a p) \<and>
     (\<forall>p. a < p \<longrightarrow> p < b \<longrightarrow> occ t (nth_slot m e p) \<longrightarrow>
        a < home_pos m e (keyat t (nth_slot m e p))) \<and>
     (\<forall>p \<le> m. \<forall>q \<le> m. p \<noteq> a \<longrightarrow> q \<noteq> a \<longrightarrow> occ t (nth_slot m e p) \<longrightarrow> occ t (nth_slot m e q) \<longrightarrow>
        keyat t (nth_slot m e p) = keyat t (nth_slot m e q) \<longrightarrow> p = q)"

definition recs_but :: "nat \<Rightarrow> nat \<Rightarrow> slots \<Rightarrow> nat \<Rightarrow> OrderRecord set" where
  "recs_but m e t a = {t (nth_slot m e p) |p. p \<le> m \<and> p \<noteq> a \<and> occ t (nth_slot m e p)}"

lemma shift_invD:
  assumes "shift_inv m e t a b"
  shows "pow2_mask m" "e \<le> m" "\<not> occ t e" "0 < a" "a < b" "b \<le> m + 1" "a \<le> m"
    "p \<le> m \<Longrightarrow> p \<noteq> a \<Longrightarrow> occ t (nth_slot m e p) \<Longrightarrow> pos_hole m e t a p"
    "a < p \<Longrightarrow> p < b \<Longrightarrow> occ t (nth_slot m e p) \<Longrightarrow> a < home_pos m e (keyat t (nth_slot m e p))"
    "p \<le> m \<Longrightarrow> q \<le> m \<Longrightarrow> p \<noteq> a \<Longrightarrow> q \<noteq> a \<Longrightarrow> occ t (nth_slot m e p) \<Longrightarrow> occ t (nth_slot m e q) \<Longrightarrow>
      keyat t (nth_slot m e p) = keyat t (nth_slot m e q) \<Longrightarrow> p = q"
  using assms unfolding shift_inv_def by auto

lemma shift_stop:
  assumes inv: "shift_inv m e t a b" and free: "\<not> occ t (nth_slot m e b)"
  defines "t' \<equiv> t(nth_slot m e a := (t (nth_slot m e a))\<lparr>r_occupied := False\<rparr>)"
  shows "tbl_inv m t' \<and> recs m t' = recs_but m e t a"
proof -
  note D = shift_invD [OF inv]
  have pos: "\<exists>p \<le> m. i = nth_slot m e p" if "i \<le> m" for i
    using nth_slot_surj [OF that D(2)] by metis
  have occ: "occ t' (nth_slot m e p) \<longleftrightarrow> p \<noteq> a \<and> occ t (nth_slot m e p)" if "p \<le> m" for p
    using that D(7) by (auto simp: t'_def occ_def)
  have key: "keyat t' i = keyat t i" for i by (simp add: t'_def keyat_def)
  have at: "t' (nth_slot m e p) = t (nth_slot m e p)" if "p \<le> m" "p \<noteq> a" for p
    using that D(7) by (simp add: t'_def)
  have "pos_chained m e t' p" if p: "p \<le> m" "p \<noteq> a" "occ t (nth_slot m e p)" for p
  proof -
    let ?q = "home_pos m e (keyat t (nth_slot m e p))"
    have ph: "?q \<le> p" "\<And>r. ?q \<le> r \<Longrightarrow> r < p \<Longrightarrow> r \<noteq> a \<Longrightarrow> occ t (nth_slot m e r)"
      using D(8) [OF p] by (auto simp: pos_hole_def)
    have "\<not> (?q \<le> a \<and> a < p)"
    proof
      assume c: "?q \<le> a \<and> a < p"
      then have "\<not> p < b" using D(9) [of p] p(3) by auto
      moreover have "p \<noteq> b" using p(3) free by auto
      ultimately have "occ t (nth_slot m e b)" using ph(2) [of b] c D(5) by auto
      with free show False ..
    qed
    then show ?thesis using ph p occ by (auto simp: pos_chained_def key)
  qed
  then have "chained m t' i" if "i \<le> m" "occ t' i" for i
    using pos [OF that(1)] that(2) pos_chained_chained [OF D(1,2)] occ by auto
  moreover have "i = j" if "i \<le> m" "j \<le> m" "occ t' i" "occ t' j" "keyat t' i = keyat t' j" for i j
    using pos [OF that(1)] pos [OF that(2)] that(3-5) occ D(10) by (auto simp: key)
  moreover have "recs m t' = recs_but m e t a"
  proof (rule set_eqI)
    fix r
    have "r \<in> recs m t' \<longleftrightarrow> (\<exists>p \<le> m. r = t' (nth_slot m e p) \<and> occ t' (nth_slot m e p))"
      using pos by (auto simp: recs_def)
    also have "\<dots> \<longleftrightarrow> r \<in> recs_but m e t a" using occ at by (auto simp: recs_but_def)
    finally show "r \<in> recs m t' \<longleftrightarrow> r \<in> recs_but m e t a" .
  qed
  ultimately show ?thesis using D(1) by (auto simp: tbl_inv_def)
qed

lemma shift_keep:
  assumes inv: "shift_inv m e t a b" and b: "b \<le> m" "occ t (nth_slot m e b)"
    and q: "a < home_pos m e (keyat t (nth_slot m e b))"
  shows "shift_inv m e t a (b + 1)"
  using inv b q unfolding shift_inv_def by (auto simp: less_Suc_eq)

lemma shift_move:
  assumes inv: "shift_inv m e t a b" and b: "b \<le> m" "occ t (nth_slot m e b)"
    and q: "home_pos m e (keyat t (nth_slot m e b)) \<le> a"
  defines "t' \<equiv> t(nth_slot m e a := t (nth_slot m e b))"
  shows "shift_inv m e t' b (b + 1) \<and> recs_but m e t' b = recs_but m e t a"
proof -
  note D = shift_invD [OF inv]
  have ab: "a \<noteq> b" using D(5) by simp
  have at: "t' (nth_slot m e p) = (if p = a then t (nth_slot m e b) else t (nth_slot m e p))"
    if "p \<le> m" for p using that D(7) by (simp add: t'_def)
  have occ: "occ t' (nth_slot m e p) \<longleftrightarrow> p = a \<or> occ t (nth_slot m e p)" if "p \<le> m" for p
    using at [OF that] b by (auto simp: occ_def)
  have key: "keyat t' (nth_slot m e p) =
      (if p = a then keyat t (nth_slot m e b) else keyat t (nth_slot m e p))" if "p \<le> m" for p
    using at [OF that] by (simp add: keyat_def)
  have e0: "nth_slot m e 0 = e" using D(2) by simp
  have free: "\<not> occ t' e" using occ [of 0] D(3,4) by (simp add: e0)
  have hole: "pos_hole m e t' b p" if p: "p \<le> m" "p \<noteq> b" "occ t' (nth_slot m e p)" for p
  proof (cases "p = a")
    case True
    have "pos_hole m e t a b" using D(8) [OF b(1) _ b(2)] ab by simp
    then have "occ t (nth_slot m e r)"
      if "home_pos m e (keyat t (nth_slot m e b)) \<le> r" "r < a" for r
      using that D(5) by (simp add: pos_hole_def)
    then show ?thesis using True q D(7) key [OF D(7)] occ by (simp add: pos_hole_def)
  next
    case False
    then have "occ t (nth_slot m e p)" using p occ by blast
    with False have "pos_hole m e t a p" using D(8) [OF p(1)] by blast
    then have "occ t' (nth_slot m e r)"
      if "home_pos m e (keyat t (nth_slot m e p)) \<le> r" "r < p" for r
      using that p(1) occ [of r] by (cases "r = a") (simp_all add: pos_hole_def)
    with \<open>pos_hole m e t a p\<close> show ?thesis
      using False by (simp add: pos_hole_def key [OF p(1)])
  qed
  have inj: "p = r" if "p \<le> m" "r \<le> m" "p \<noteq> b" "r \<noteq> b" "occ t' (nth_slot m e p)"
      "occ t' (nth_slot m e r)" "keyat t' (nth_slot m e p) = keyat t' (nth_slot m e r)" for p r
  proof -
    have "occ t (nth_slot m e p)" if "p \<noteq> a" using that \<open>p \<le> m\<close> \<open>occ t' (nth_slot m e p)\<close> occ by blast
    moreover have "occ t (nth_slot m e r)" if "r \<noteq> a"
      using that \<open>r \<le> m\<close> \<open>occ t' (nth_slot m e r)\<close> occ by blast
    moreover have "p = b" if "p \<noteq> a" "r = a" "occ t (nth_slot m e p)"
      using that \<open>p \<le> m\<close> \<open>keyat t' _ = _\<close> key D(10) [of p b] b ab \<open>r \<le> m\<close> by simp
    moreover have "r = b" if "p = a" "r \<noteq> a" "occ t (nth_slot m e r)"
      using that \<open>r \<le> m\<close> \<open>keyat t' _ = _\<close> key D(10) [of b r] b ab \<open>p \<le> m\<close> by simp
    moreover have "p = r" if "p \<noteq> a" "r \<noteq> a" "occ t (nth_slot m e p)" "occ t (nth_slot m e r)"
      using that \<open>p \<le> m\<close> \<open>r \<le> m\<close> \<open>keyat t' _ = _\<close> key D(10) [of p r] by simp
    ultimately show ?thesis using \<open>p \<noteq> b\<close> \<open>r \<noteq> b\<close> by metis
  qed
  have "recs_but m e t' b = recs_but m e t a"
  proof (rule set_eqI)
    fix r
    have "r \<in> recs_but m e t' b \<longleftrightarrow>
        (\<exists>p. p \<le> m \<and> p \<noteq> b \<and> occ t' (nth_slot m e p) \<and> r = t' (nth_slot m e p))"
      by (auto simp: recs_but_def)
    also have "\<dots> \<longleftrightarrow> (\<exists>p. p \<le> m \<and> p \<noteq> b \<and> (p = a \<or> occ t (nth_slot m e p)) \<and>
        r = (if p = a then t (nth_slot m e b) else t (nth_slot m e p)))"
      by (simp add: occ at cong: conj_cong)
    also have "\<dots> \<longleftrightarrow> r \<in> recs_but m e t a" using D(7) b ab by (auto simp: recs_but_def)
    finally show "r \<in> recs_but m e t' b \<longleftrightarrow> r \<in> recs_but m e t a" .
  qed
  moreover have "shift_inv m e t' b (b + 1)"
    unfolding shift_inv_def using hole inj free D(1,2,4,5) b(1)
    by (intro conjI allI impI) (assumption | simp | linarith | blast)+
  ultimately show ?thesis by simp
qed

lemma shift_result:
  "shift_inv m e t a b \<Longrightarrow>
    \<exists>t'. EraseOrder_shift m t (nth_slot m e a) (nth_slot m e b) = Some t' \<and>
      tbl_inv m t' \<and> recs m t' = recs_but m e t a"
proof (induction "m + 1 - b" arbitrary: t a b rule: less_induct)
  case less
  note D = shift_invD [OF less.prems]
  have nxt: "(nth_slot m e b + 1) AND m = nth_slot m e (b + 1)"
    using nth_slot_step [OF D(1), of e b] by simp
  show ?case
  proof (cases "occ t (nth_slot m e b)")
    case False
    then show ?thesis using shift_stop [OF less.prems False]
      by (simp add: EraseOrder_shift.simps [of m t] occ_def)
  next
    case True
    have b: "b \<le> m"
    proof (rule ccontr)
      assume "\<not> b \<le> m"
      then have "b = m + 1" using D(6) by simp
      with nth_slot_wrap [OF D(2)] True D(3) show False by simp
    qed
    then have less': "m + 1 - (b + 1) < m + 1 - b" by simp
    let ?q = "home_pos m e (keyat t (nth_slot m e b))"
    have mv: "can_move (nth_slot m e a) (nth_slot m e b) (Hash m (r_order_no (t (nth_slot m e b))))
        \<longleftrightarrow> \<not> (a < ?q \<and> ?q \<le> b)"
      using can_move_pos [OF D(2,5) b, of ?q] nth_slot_home_pos [OF D(1,2)]
      by (simp add: keyat_def)
    have "?q \<le> b" using D(8) [OF b _ True] D(5) by (auto simp: pos_hole_def)
    show ?thesis
    proof (cases "a < ?q")
      case True': True
      from less.hyps [OF less' shift_keep [OF less.prems b True True']] show ?thesis
        using True True' mv nxt \<open>?q \<le> b\<close>
        by (subst EraseOrder_shift.simps) (simp add: occ_def del: and_pow2_mask)
    next
      case False
      then have "?q \<le> a" by simp
      note sm = shift_move [OF less.prems b True this]
      from less.hyps [OF less' sm [THEN conjunct1]] sm show ?thesis
        using True False mv nxt
        by (subst EraseOrder_shift.simps) (simp add: occ_def del: and_pow2_mask fun_upd_apply)
    qed
  qed
qed

lemma erase_start:
  assumes inv: "tbl_inv m t" and e: "e \<le> m" "\<not> occ t e"
    and a: "a \<le> m" "occ t (nth_slot m e a)"
  shows "shift_inv m e t a (a + 1)"
    and "recs_but m e t a = {r \<in> recs m t. r_order_no r \<noteq> keyat t (nth_slot m e a)}"
proof -
  note D = tbl_invD [OF inv]
  have e0: "nth_slot m e 0 = e" using e(1) by simp
  have a0: "0 < a" using a(2) e(2) by (cases "a = 0") (auto simp: e0)
  have "pos_hole m e t a p" if "p \<le> m" "occ t (nth_slot m e p)" for p
    using chained_pos [OF D(1) e that D(2) [OF _ that(2)]] by (simp add: pos_hole_def pos_chained_def)
  moreover have "p = q" if "p \<le> m" "q \<le> m" "occ t (nth_slot m e p)" "occ t (nth_slot m e q)"
      "keyat t (nth_slot m e p) = keyat t (nth_slot m e q)" for p q
    using D(3) [of "nth_slot m e p" "nth_slot m e q"] that by simp
  ultimately show "shift_inv m e t a (a + 1)"
    unfolding shift_inv_def using D(1) e a a0 by auto
  show "recs_but m e t a = {r \<in> recs m t. r_order_no r \<noteq> keyat t (nth_slot m e a)}"
  proof (intro equalityI subsetI)
    fix r assume "r \<in> recs_but m e t a"
    then obtain p where p: "p \<le> m" "p \<noteq> a" "occ t (nth_slot m e p)" "r = t (nth_slot m e p)"
      by (auto simp: recs_but_def)
    then have "keyat t (nth_slot m e p) \<noteq> keyat t (nth_slot m e a)"
      using D(3) [of "nth_slot m e p" "nth_slot m e a"] a by auto
    with p show "r \<in> {r \<in> recs m t. r_order_no r \<noteq> keyat t (nth_slot m e a)}"
      by (auto simp: recs_def keyat_def)
  next
    fix r assume "r \<in> {r \<in> recs m t. r_order_no r \<noteq> keyat t (nth_slot m e a)}"
    then obtain i where i: "i \<le> m" "occ t i" "r = t i" "keyat t i \<noteq> keyat t (nth_slot m e a)"
      by (auto simp: recs_def keyat_def)
    moreover obtain p where "p \<le> m" "i = nth_slot m e p"
      using nth_slot_surj [OF i(1) e(1)] by metis
    ultimately show "r \<in> recs_but m e t a" by (auto simp: recs_but_def)
  qed
qed

lemma EraseOrder_room:
  assumes inv: "tbl_inv m t" and room: "\<not> full m t"
  shows "\<exists>t'. EraseOrder m t k = Some t' \<and> tbl_inv m t' \<and> tbl_map m t' = (tbl_map m t)(k := None)"
proof (cases "FindOrder m t k")
  case None
  then have "tbl_map m t k = None" by (simp add: tbl_map_def)
  then have "(tbl_map m t)(k := None) = tbl_map m t" by (rule fun_upd_idem)
  with None inv show ?thesis by (simp add: EraseOrder_def FindOrder_def)
next
  case (Some i)
  then have i: "i \<le> m" "occ t i" "keyat t i = k" by (simp_all add: FindOrder_iff [OF inv])
  from room obtain e where e: "e \<le> m" "\<not> occ t e" by (auto simp: full_def)
  obtain a where a: "a \<le> m" "i = nth_slot m e a" using nth_slot_surj [OF i(1) e(1)] by metis
  note start = erase_start [OF inv e a(1)]
  have "(i + 1) AND m = nth_slot m e (a + 1)"
    using nth_slot_step [OF tbl_invD(1) [OF inv], of e a] a(2) by simp
  then have "EraseOrder m t k = EraseOrder_shift m t (nth_slot m e a) (nth_slot m e (a + 1))"
    using Some a(2) by (simp add: EraseOrder_def FindOrder_def del: and_pow2_mask)
  then obtain t' where t': "EraseOrder m t k = Some t'" "tbl_inv m t'"
    "recs m t' = {r \<in> recs m t. r_order_no r \<noteq> k}"
    using shift_result [OF start(1)] start(2) i a(2) by auto
  have "tbl_map m t' l = ((tbl_map m t)(k := None)) l" for l
    by (rule option_eqI) (auto simp: tbl_map_iff [OF t'(2)] tbl_map_iff [OF inv] t'(3))
  then have "tbl_map m t' = (tbl_map m t)(k := None)" by (rule ext)
  with t' show ?thesis by blast
qed

text \<open>On a full table the shift loop never meets a free slot.\<close>

lemma shift_full_stuck:
  assumes "full m t" "hole \<le> m" "nxt \<le> m"
  shows "EraseOrder_shift m t hole nxt = None"
proof -
  have "False" if ret: "EraseOrder_shift m t hole nxt = Some r" for r
  proof -
    have "full m t \<and> hole \<le> m \<and> nxt \<le> m \<longrightarrow> False"
    proof (rule EraseOrder_shift.raw_induct [where P =
          "\<lambda>m t hole nxt r. full m t \<and> hole \<le> m \<and> nxt \<le> m \<longrightarrow> False", OF _ ret])
      fix f m t hole nxt r
      assume IH: "\<And>m t hole nxt r. f m t hole nxt = Some r \<Longrightarrow>
            full m t \<and> hole \<le> m \<and> nxt \<le> m \<longrightarrow> False"
        and eq: "(if r_occupied (t nxt)
          then if can_move hole nxt (Hash m (r_order_no (t nxt)))
               then f m (t(hole := t nxt)) nxt ((nxt + 1) AND m)
               else f m t hole ((nxt + 1) AND m)
          else Some (t(hole := (t hole)\<lparr>r_occupied := False\<rparr>))) = Some r"
      show "full m t \<and> hole \<le> m \<and> nxt \<le> m \<longrightarrow> False"
      proof
        assume a: "full m t \<and> hole \<le> m \<and> nxt \<le> m"
        then have "r_occupied (t nxt)" "(nxt + 1) AND m \<le> m" "full m (t(hole := t nxt))"
          by (auto simp: full_def occ_def nat_and_le)
        with a eq IH show False by (auto split: if_splits)
      qed
    qed
    with assms show False by blast
  qed
  then show ?thesis by (cases "EraseOrder_shift m t hole nxt") auto
qed

lemma EraseOrder_full:
  assumes "tbl_inv m t" "full m t" "tbl_map m t k \<noteq> None"
  shows "EraseOrder m t k = None"
proof -
  from assms(3) obtain i where i: "FindOrder m t k = Some i" by (auto simp: tbl_map_def)
  then have "i \<le> m" by (simp add: FindOrder_iff [OF assms(1)])
  then have "EraseOrder_shift m t i ((i + 1) AND m) = None"
    by (intro shift_full_stuck [OF assms(2)]) (simp_all add: nat_and_le)
  with i show ?thesis by (simp add: EraseOrder_def FindOrder_def)
qed

lemma EraseOrder_absent: "tbl_map m t k = None \<Longrightarrow> EraseOrder m t k = Some t"
  by (simp add: tbl_map_def EraseOrder_def FindOrder_def)

lemma EraseOrder_Some:
  assumes "tbl_inv m t" "EraseOrder m t k = Some t'"
  shows "tbl_inv m t'" and "tbl_map m t' = (tbl_map m t)(k := None)"
proof -
  have "tbl_inv m t' \<and> tbl_map m t' = (tbl_map m t)(k := None)"
  proof (cases "full m t \<and> tbl_map m t k \<noteq> None")
    case True
    then show ?thesis using EraseOrder_full [OF assms(1), of k] assms(2) by simp
  next
    case False
    then show ?thesis
      using EraseOrder_room [OF assms(1), of k] EraseOrder_absent [of m t k] assms fun_upd_idem [of "tbl_map m t" k None]
      by (cases "full m t") auto
  qed
  then show "tbl_inv m t'" and "tbl_map m t' = (tbl_map m t)(k := None)" by blast+
qed

text \<open>An assignment through the pointer that \<open>FindOrder\<close> returned.\<close>

lemma slot_update:
  assumes inv: "tbl_inv m t" and i: "FindOrder m t k = Some i" and r: "r_order_no r = k" "r_occupied r"
  shows "tbl_inv m (t(i := r))" and "tbl_map m (t(i := r)) = (tbl_map m t)(k \<mapsto> r)"
    and "full m (t(i := r)) = full m t"
proof -
  have i': "i \<le> m" "occ t i" "keyat t i = k" using i by (simp_all add: FindOrder_iff [OF inv])
  have occ: "occ (t(i := r)) j = occ t j" for j using i' r by (simp add: occ_def)
  have key: "keyat (t(i := r)) j = keyat t j" for j using i' r by (simp add: keyat_def)
  show inv': "tbl_inv m (t(i := r))" using inv by (simp add: tbl_inv_def chained_def occ key)
  show "full m (t(i := r)) = full m t" by (simp add: full_def occ)
  have "FindOrder m (t(i := r)) j = FindOrder m t j" for j
    by (rule option_eqI) (simp add: FindOrder_iff [OF inv'] FindOrder_iff [OF inv] occ key)
  then show "tbl_map m (t(i := r)) = (tbl_map m t)(k \<mapsto> r)"
    using i by (auto simp: tbl_map_def fun_eq_iff FindOrder_iff [OF inv] split: option.splits
        intro!: option.map_cong)
qed

subsection \<open>Counting\<close>

lemma tbl_dom:
  assumes "tbl_inv m t"
  shows "dom (tbl_map m t) = keyat t ` {i. i \<le> m \<and> occ t i}"
    and "inj_on (keyat t) {i. i \<le> m \<and> occ t i}"
  using assms by (auto simp: dom_def tbl_map_iff recs_def keyat_def tbl_inv_def intro!: inj_onI)

lemma tbl_card:
  assumes "tbl_inv m t"
  shows "finite (dom (tbl_map m t))" and "card (dom (tbl_map m t)) \<le> m + 1"
    and "full m t \<longleftrightarrow> card (dom (tbl_map m t)) = m + 1"
proof -
  let ?S = "{i. i \<le> m \<and> occ t i}"
  have c: "card (dom (tbl_map m t)) = card ?S"
    using tbl_dom [OF assms] by (simp add: card_image)
  have sub: "?S \<subseteq> {..m}" by auto
  then have le: "card ?S \<le> m + 1" using card_mono [OF finite_atMost sub] by simp
  show "finite (dom (tbl_map m t))" using tbl_dom(1) [OF assms] by simp
  show "card (dom (tbl_map m t)) \<le> m + 1" using c le by simp
  have "full m t \<longleftrightarrow> ?S = {..m}" by (auto simp: full_def)
  also have "\<dots> \<longleftrightarrow> card ?S = m + 1"
    using card_subset_eq [OF finite_atMost sub] by auto
  finally show "full m t \<longleftrightarrow> card (dom (tbl_map m t)) = m + 1" using c by simp
qed

subsection \<open>The store interface\<close>

text \<open>
  What the order book relies on: lookups after insertions and deletions, that a store that is
  full refuses a new key, and that deleting a stored key from a full store does not return.
\<close>

locale keyed_store =
  fixes lookup :: "'t \<Rightarrow> 'k \<rightharpoonup> 'r" and insert :: "'t \<Rightarrow> 'r \<Rightarrow> 't option"
    and erase :: "'t \<Rightarrow> 'k \<Rightarrow> 't option" and key :: "'r \<Rightarrow> 'k" and stored :: "'r \<Rightarrow> 'r"
    and cap :: nat and invar :: "'t \<Rightarrow> bool"
  assumes insert_room: "invar t \<Longrightarrow> card (dom (lookup t)) < cap \<or> key r \<in> dom (lookup t) \<Longrightarrow>
      \<exists>t'. insert t r = Some t' \<and> invar t' \<and> lookup t' = (lookup t)(key r \<mapsto> stored r)"
    and insert_full: "invar t \<Longrightarrow> \<not> card (dom (lookup t)) < cap \<Longrightarrow> key r \<notin> dom (lookup t) \<Longrightarrow>
      insert t r = None"
    and erase_room: "invar t \<Longrightarrow> card (dom (lookup t)) < cap \<Longrightarrow>
      \<exists>t'. erase t k = Some t' \<and> invar t' \<and> lookup t' = (lookup t)(k := None)"
    and erase_absent: "lookup t k = None \<Longrightarrow> erase t k = Some t"
    and erase_full: "invar t \<Longrightarrow> \<not> card (dom (lookup t)) < cap \<Longrightarrow> lookup t k \<noteq> None \<Longrightarrow>
      erase t k = None"
    and finite_dom: "invar t \<Longrightarrow> finite (dom (lookup t))"

datatype ('k, 'r) store_op = Insert 'r | Erase 'k

fun store_exec :: "('t \<Rightarrow> 'r \<Rightarrow> 't option) \<Rightarrow> ('t \<Rightarrow> 'k \<Rightarrow> 't option) \<Rightarrow>
    ('k, 'r) store_op list \<Rightarrow> 't \<Rightarrow> 't option" where
  "store_exec ins era [] t = Some t"
| "store_exec ins era (Insert r # ops) t =
     (case ins t r of None \<Rightarrow> store_exec ins era ops t | Some t' \<Rightarrow> store_exec ins era ops t')"
| "store_exec ins era (Erase k # ops) t =
     (case era t k of None \<Rightarrow> None | Some t' \<Rightarrow> store_exec ins era ops t')"

text \<open>The reference: a finite map with a capacity. Inserting a new key into a full map is
  refused; \<open>None\<close> is the non-termination of a deletion in a full map.\<close>

fun map_exec :: "nat \<Rightarrow> ('r \<Rightarrow> 'k) \<Rightarrow> ('r \<Rightarrow> 'r) \<Rightarrow> ('k, 'r) store_op list \<Rightarrow> ('k \<rightharpoonup> 'r) \<Rightarrow>
    ('k \<rightharpoonup> 'r) option" where
  "map_exec cap key st [] f = Some f"
| "map_exec cap key st (Insert r # ops) f =
     (if card (dom f) < cap \<or> key r \<in> dom f then map_exec cap key st ops (f(key r \<mapsto> st r))
      else map_exec cap key st ops f)"
| "map_exec cap key st (Erase k # ops) f =
     (if card (dom f) < cap \<or> k \<notin> dom f then map_exec cap key st ops (f(k := None)) else None)"

context keyed_store
begin

lemma exec_refines:
  "invar t \<Longrightarrow>
    map_option lookup (store_exec insert erase ops t) = map_exec cap key stored ops (lookup t)"
proof (induction ops arbitrary: t)
  case (Cons op ops)
  show ?case
  proof (cases op)
    case (Insert r)
    then show ?thesis
      using insert_room [OF Cons.prems, of r] insert_full [OF Cons.prems, of r] Cons.IH
      by (cases "card (dom (lookup t)) < cap \<or> key r \<in> dom (lookup t)")
         (auto simp: Cons.prems simp del: fun_upd_apply)
  next
    case (Erase k)
    consider (room) "card (dom (lookup t)) < cap" | (absent) "lookup t k = None"
      | (stuck) "\<not> card (dom (lookup t)) < cap" "lookup t k \<noteq> None" by blast
    then show ?thesis
    proof cases
      case room
      then show ?thesis using Erase erase_room [OF Cons.prems room, of k] Cons.IH
        by (auto simp del: fun_upd_apply)
    next
      case absent
      then have "(lookup t)(k := None) = lookup t" by (rule fun_upd_idem)
      with absent show ?thesis
        using Erase erase_absent [OF absent] Cons.IH [OF Cons.prems] by auto
    next
      case stuck
      then show ?thesis using Erase erase_full [OF Cons.prems stuck] by auto
    qed
  qed
qed simp

end

interpretation otab: keyed_store "tbl_map m" "InsertOrder m" "EraseOrder m" r_order_no
  "\<lambda>r. r\<lparr>r_occupied := True\<rparr>" "m + 1" "tbl_inv m" for m
proof (unfold_locales, goal_cases)
  case (1 t r)
  then show ?case using InsertOrder_cases [OF 1(1), of r] tbl_card(3) [OF 1(1)] by auto
next
  case (2 t r)
  then show ?case
    using InsertOrder_cases [OF 2(1), of r] tbl_card(2,3) [OF 2(1)] by (auto simp: domIff)
next
  case (3 t k)
  then show ?case using EraseOrder_room [OF 3(1), of k] tbl_card(3) [OF 3(1)] by auto
next
  case (4 t k)
  then show ?case by (rule EraseOrder_absent)
next
  case (5 t k)
  then show ?case using EraseOrder_full [OF 5(1)] tbl_card(2,3) [OF 5(1)] by auto
next
  case (6 t)
  then show ?case by (rule tbl_card(1))
qed

lemma empty_tbl_inv: "pow2_mask m \<Longrightarrow> tbl_inv m (\<lambda>_. OrderRecord_default)"
  by (simp add: tbl_inv_def occ_def OrderRecord_default_def)

lemma tbl_map_unocc: "\<forall>i \<le> m. \<not> occ t i \<Longrightarrow> pow2_mask m \<Longrightarrow> tbl_map m t = Map.empty"
  using Hash_bound [of m] by (auto simp: tbl_map_def FindOrder_def occ_def fun_eq_iff less_Suc_eq_le)

subsection \<open>Rounding the capacity up\<close>

lemma unat_exp: "k < LENGTH('a) \<Longrightarrow> unat (2 ^ k :: 'a::len word) = 2 ^ k"
  by (metis unat_of_nat of_nat_numeral of_nat_power mod_less power_strict_increasing one_less_numeral_iff
      semiring_norm(76))

lemma RoundUpPow2_loop_result:
  "k \<le> 63 \<Longrightarrow> unat v \<le> 2 ^ 63 \<Longrightarrow>
    \<exists>j. k \<le> j \<and> j \<le> 63 \<and> RoundUpPow2_loop v (2 ^ k) = Some (2 ^ j) \<and>
      unat v \<le> 2 ^ j \<and> (k < j \<longrightarrow> 2 ^ (j - 1) < unat v)"
proof (induction "63 - k" arbitrary: k)
  case 0
  then have "k = 63" by simp
  with 0 show ?case
    by (intro exI [of _ 63]) (simp add: RoundUpPow2_loop.simps [of v] word_less_nat_alt unat_exp)
next
  case (Suc n)
  show ?case
  proof (cases "2 ^ k < unat v")
    case False
    with Suc.prems show ?thesis
      by (intro exI [of _ k]) (simp add: RoundUpPow2_loop.simps [of v] word_less_nat_alt unat_exp)
  next
    case True
    from Suc.hyps(2) have k: "Suc k \<le> 63" "n = 63 - Suc k" by simp_all
    from Suc.hyps(1) [OF k(2) k(1) Suc.prems(2)] obtain j where j: "Suc k \<le> j" "j \<le> 63"
      "RoundUpPow2_loop v (2 ^ Suc k) = Some (2 ^ j)" "unat v \<le> 2 ^ j"
      "Suc k < j \<longrightarrow> 2 ^ (j - 1) < unat v" by blast
    have "push_bit 1 (2 ^ k :: u64) = 2 ^ Suc k" by (simp add: push_bit_eq_mult)
    then have "RoundUpPow2_loop v (2 ^ k) = Some (2 ^ j)"
      using True j(3) Suc.prems(1)
      by (simp add: RoundUpPow2_loop.simps [of v "2 ^ k"] word_less_nat_alt unat_exp mult.commute)
    moreover have "2 ^ (j - 1) < unat v" using True j(1,5) by (cases "Suc k = j") auto
    ultimately show ?thesis using j by (intro exI [of _ j]) simp
  qed
qed

text \<open>What the loop returns, whenever it returns, is a power of two.\<close>

lemma RoundUpPow2_loop_pow2:
  assumes "RoundUpPow2_loop v q = Some p"
  shows "(\<exists>j \<le> 63. q = 2 ^ j) \<or> q = 0 \<and> v \<noteq> 0 \<Longrightarrow> \<exists>j \<le> 63. p = 2 ^ j"
  using assms
proof (induction rule: RoundUpPow2_loop.raw_induct [rotated, consumes 1, case_names step])
  case (step loop v q p)
  show ?case
  proof (cases "q < v")
    case True
    have "(\<exists>j \<le> 63. push_bit 1 q = 2 ^ j) \<or> push_bit 1 q = 0 \<and> v \<noteq> 0"
    proof -
      consider "q = 0" | j where "j \<le> 63" "q = 2 ^ j" using step.prems by blast
      then show ?thesis
      proof cases
        case (2 j)
        then consider "j = 63" | "Suc j \<le> 63" by linarith
        then show ?thesis
        proof cases
          case 1
          then show ?thesis using 2 True by (auto simp: push_bit_eq_mult)
        next
          case s: 2
          have "push_bit 1 q = 2 ^ Suc j" using 2 by (simp add: push_bit_eq_mult)
          then show ?thesis using s by blast
        qed
      qed (use True in auto)
    qed
    then show ?thesis using step.IH [of v "push_bit 1 q" p] step.hyps True by simp
  next
    case False
    then show ?thesis using step by (auto simp: word_gt_0)
  qed
qed

lemma RoundUpPow2_mask:
  assumes "RoundUpPow2 v = Some p"
  shows "pow2_mask (unat (p - 1))"
proof -
  have "(\<exists>j \<le> 63. (1 :: u64) = 2 ^ j) \<or> (1 :: u64) = 0 \<and> v \<noteq> 0" by (intro disjI1 exI [of _ 0]) simp
  then obtain j where j: "j \<le> 63" "p = 2 ^ j"
    using RoundUpPow2_loop_pow2 [of v 1 p] assms by (auto simp: RoundUpPow2_def)
  have "unat (p - 1) = 2 ^ j - 1"
    using j by (subst unat_minus_one) (simp_all add: unat_exp)
  then show ?thesis unfolding pow2_mask_def by (intro exI [of _ j]) simp
qed

subsection \<open>Properties\<close>

text \<open>C9: the order table is a finite map with a capacity. For every table size that is a power
  of two and every sequence of insertions and deletions on an empty table, the records found
  afterwards are exactly those of a map under the same operations: insertions overwrite the
  record of the same order number, a new order number is refused exactly when all slots are
  taken, and the backward-shift deletion removes one key and keeps every other key findable.
  The sequence fails to return exactly when the reference says so, that is when a stored key
  is deleted while the table is full.\<close>

theorem order_table_refines_map:
  assumes "pow2_mask m"
  shows "map_option (tbl_map m)
      (store_exec (InsertOrder m) (EraseOrder m) ops (\<lambda>_. OrderRecord_default)) =
    map_exec (m + 1) r_order_no (\<lambda>r. r\<lparr>r_occupied := True\<rparr>) ops Map.empty"
proof -
  have "tbl_map m (\<lambda>_. OrderRecord_default) = Map.empty"
    using assms by (intro tbl_map_unocc) (simp_all add: occ_def OrderRecord_default_def)
  then show ?thesis using otab.exec_refines [OF empty_tbl_inv [OF assms], of ops] by simp
qed

theorem order_table_refines_map_witness:
  "pow2_mask 3 \<and>
   map_option (tbl_map 3) (store_exec (InsertOrder 3) (EraseOrder 3)
     [Insert (OrderRecord_default\<lparr>r_order_no := 11, r_qty := 5\<rparr>),
      Insert (OrderRecord_default\<lparr>r_order_no := 12, r_qty := 6\<rparr>), Erase 11]
     (\<lambda>_. OrderRecord_default)) =
   Some [12 \<mapsto> OrderRecord_default\<lparr>r_order_no := 12, r_qty := 6, r_occupied := True\<rparr>]"
proof -
  have p: "pow2_mask 3" unfolding pow2_mask_def by (rule exI [of _ 2]) simp
  show ?thesis
    by (subst order_table_refines_map [OF p])
       (simp add: p OrderRecord_default_def fun_upd_twist dom_if)
qed

text \<open>C10: deleting a tracked order from a table whose slots are all taken never returns: the
  shift loop of \<open>EraseOrder\<close> runs while the next slot is occupied, and the slot being vacated
  keeps its occupied flag until the loop ends.\<close>

theorem erase_order_full_diverges:
  assumes "tbl_inv m t" and "full m t" and "FindOrder m t k \<noteq> None"
  shows "EraseOrder m t k = None"
  using assms by (simp add: FindOrder_None_map EraseOrder_full)

theorem erase_order_full_diverges_witness:
  "let t = (\<lambda>_. OrderRecord_default\<lparr>r_order_no := 7, r_occupied := True\<rparr>)
   in tbl_inv 0 t \<and> full 0 t \<and> FindOrder 0 t 7 = Some 0 \<and> EraseOrder 0 t 7 = None"
proof -
  let ?t = "\<lambda>_. OrderRecord_default\<lparr>r_order_no := 7, r_occupied := True\<rparr>"
  have p: "pow2_mask 0" unfolding pow2_mask_def by (rule exI [of _ 0]) simp
  have inv: "tbl_inv 0 ?t"
    using p by (auto simp: tbl_inv_def chained_def nth_slot_def occ_def keyat_def)
  have f: "full 0 ?t" by (simp add: full_def occ_def)
  have find: "FindOrder 0 ?t 7 = Some 0" by (simp add: FindOrder_iff [OF inv] occ_def keyat_def)
  show ?thesis using inv f find erase_order_full_diverges [OF inv f, of 7] by (simp add: Let_def)
qed

text \<open>The capacity the constructor derives: for every requested capacity up to \<open>2 ^ 63\<close> the
  rounding loop returns, and returns the least power of two that is not smaller than the
  request.\<close>

theorem RoundUpPow2_least:
  assumes "unat v \<le> 2 ^ 63"
  shows "\<exists>j \<le> 63. RoundUpPow2 v = Some (2 ^ j) \<and> unat v \<le> 2 ^ j \<and>
    (\<forall>i. unat v \<le> 2 ^ i \<longrightarrow> j \<le> i)"
proof -
  obtain j where j: "j \<le> 63" "RoundUpPow2 v = Some (2 ^ j)" "unat v \<le> 2 ^ j"
    "0 < j \<longrightarrow> 2 ^ (j - 1) < unat v"
    using RoundUpPow2_loop_result [of 0 v] assms by (auto simp: RoundUpPow2_def)
  have "j \<le> i" if "unat v \<le> 2 ^ i" for i
  proof (rule ccontr)
    assume "\<not> j \<le> i"
    then have "i \<le> j - 1" "0 < j" by simp_all
    then have "2 ^ i \<le> (2::nat) ^ (j - 1)" by (intro power_increasing) simp_all
    with that j(4) \<open>0 < j\<close> show False by linarith
  qed
  with j show ?thesis by blast
qed

theorem RoundUpPow2_least_witness:
  "unat (100 :: u64) \<le> 2 ^ 63 \<and> (\<exists>j \<le> 63. RoundUpPow2 100 = Some (2 ^ j) \<and> (100::nat) \<le> 2 ^ j)"
proof -
  have "unat (100 :: u64) \<le> 2 ^ 63" by simp
  from this RoundUpPow2_least [OF this] show ?thesis by auto
qed

end
