(* ===== verification/Order_Book.thy ===== *)
theory Order_Book
  imports Price_Levels Order_Table
begin

text \<open>
  The per-instrument limit order book of \<^verbatim>\<open>src/order_book/order_book.hpp\<close>: the
  constructor, \<open>clear\<close>, the event handlers and the queries, over the order table and the two
  level arrays.

  A handler returns its \<open>BookResult\<close> and the new book. Handlers that delete an order return an
  option, since \<open>EraseOrder\<close> may fail to return. The pointer \<open>FindOrder\<close> returns is the
  index of the slot; an assignment through it updates the slot.

  The abstract specification is \<open>ref_levels\<close>: the levels a side must show for a given set of
  tracked orders and the seed of the last snapshot. \<open>book_ok\<close> relates a book to it, and the
  refinement theorem shows that \<open>apply_event\<close> follows the abstract step \<open>track\<close> on the tracked
  orders while keeping both sides equal to \<open>ref_levels\<close>.
\<close>

subsection \<open>State and handlers\<close>

datatype BookResult = kOk | kSeeded | kGap | kStaleDropped | kTickViolation | kUnknownOrder | kFull

record OrderBook =
  ob_token :: Token
  ob_tick_size :: Price
  ob_order_mask :: nat
  ob_orders :: slots
  ob_bids :: levels
  ob_asks :: levels
  ob_bid_count :: nat
  ob_ask_count :: nat
  ob_expected_seq :: u64
  ob_stale :: bool
  ob_gap_count :: u64

text \<open>The constructor; \<open>None\<close>: rounding the capacity up does not return.\<close>

definition OrderBook_init :: "Token \<Rightarrow> Price \<Rightarrow> u64 \<Rightarrow> OrderBook option" where
  "OrderBook_init token tick_size order_capacity =
     (case RoundUpPow2 order_capacity of None \<Rightarrow> None
      | Some p \<Rightarrow> Some \<lparr>ob_token = token, ob_tick_size = tick_size, ob_order_mask = unat (p - 1),
          ob_orders = (\<lambda>_. OrderRecord_default), ob_bids = (\<lambda>_. PriceLevel_default),
          ob_asks = (\<lambda>_. PriceLevel_default), ob_bid_count = 0, ob_ask_count = 0,
          ob_expected_seq = 0, ob_stale = False, ob_gap_count = 0\<rparr>)"

definition set_token :: "Token \<Rightarrow> OrderBook \<Rightarrow> OrderBook" where
  "set_token t b = b\<lparr>ob_token := t\<rparr>"

definition set_tick_size :: "Price \<Rightarrow> OrderBook \<Rightarrow> OrderBook" where
  "set_tick_size t b = b\<lparr>ob_tick_size := t\<rparr>"

definition TickOk :: "OrderBook \<Rightarrow> Price \<Rightarrow> bool" where
  "TickOk b price \<longleftrightarrow> ob_tick_size b = 0 \<or> price smod ob_tick_size b = 0"

definition clear :: "OrderBook \<Rightarrow> OrderBook" where
  "clear b = b\<lparr>ob_bid_count := 0, ob_ask_count := 0,
     ob_orders := (\<lambda>i. if i \<le> ob_order_mask b then (ob_orders b i)\<lparr>r_occupied := False\<rparr> else ob_orders b i),
     ob_stale := False\<rparr>"

text \<open>The side the template parameter \<open>IsBid\<close> selects.\<close>

definition side_of :: "bool \<Rightarrow> OrderBook \<Rightarrow> levels \<times> nat" where
  "side_of IsBid b = (if IsBid then (ob_bids b, ob_bid_count b) else (ob_asks b, ob_ask_count b))"

definition set_side :: "bool \<Rightarrow> levels \<times> nat \<Rightarrow> OrderBook \<Rightarrow> OrderBook" where
  "set_side IsBid s b = (if IsBid then b\<lparr>ob_bids := fst s, ob_bid_count := snd s\<rparr>
     else b\<lparr>ob_asks := fst s, ob_ask_count := snd s\<rparr>)"

definition add_level_qty :: "bool \<Rightarrow> Price \<Rightarrow> Quantity \<Rightarrow> OrderBook \<Rightarrow> OrderBook" where
  "add_level_qty IsBid price qty b =
     set_side IsBid (AddQtyToLevel (sorts_before IsBid) price qty (side_of IsBid b)) b"

definition remove_level_qty :: "bool \<Rightarrow> Price \<Rightarrow> Quantity \<Rightarrow> bool \<Rightarrow> OrderBook \<Rightarrow> OrderBook" where
  "remove_level_qty IsBid price qty drop_order b =
     set_side IsBid (RemoveQtyFromLevel (sorts_before IsBid) price qty drop_order (side_of IsBid b)) b"

definition Seed :: "MarketEvent \<Rightarrow> OrderBook \<Rightarrow> BookResult \<times> OrderBook" where
  "Seed ev b0 =
     (let b1 = clear b0;
          b2 = b1\<lparr>ob_expected_seq := (if me_seq_no ev \<noteq> 0 then me_seq_no ev + 1 else ob_expected_seq b1),
                  ob_stale := False\<rparr>;
          b3 = (if me_bid_qty ev > 0 \<and> TickOk b2 (me_bid_price ev)
                then b2\<lparr>ob_bids := (ob_bids b2)(0 := \<lparr>pl_price = me_bid_price ev,
                       pl_total_quantity = me_bid_qty ev, pl_order_count = 1\<rparr>), ob_bid_count := 1\<rparr>
                else b2);
          b4 = (if me_ask_qty ev > 0 \<and> TickOk b3 (me_ask_price ev)
                then b3\<lparr>ob_asks := (ob_asks b3)(0 := \<lparr>pl_price = me_ask_price ev,
                       pl_total_quantity = me_ask_qty ev, pl_order_count = 1\<rparr>), ob_ask_count := 1\<rparr>
                else b3)
      in (kSeeded, b4))"

definition ApplyAdd :: "MarketEvent \<Rightarrow> OrderBook \<Rightarrow> BookResult \<times> OrderBook" where
  "ApplyAdd ev b =
     (if \<not> TickOk b (me_price ev) then (kTickViolation, b)
      else let rec = \<lparr>r_order_no = me_order_no ev, r_price = me_price ev, r_qty = me_qty ev,
                      r_side = me_side ev, r_occupied = True\<rparr>
           in case InsertOrder (ob_order_mask b) (ob_orders b) rec of
                None \<Rightarrow> (kFull, b)
              | Some orders \<Rightarrow>
                  (kOk, add_level_qty (me_side ev) (me_price ev) (me_qty ev) (b\<lparr>ob_orders := orders\<rparr>)))"

definition ApplyModify :: "MarketEvent \<Rightarrow> OrderBook \<Rightarrow> BookResult \<times> OrderBook" where
  "ApplyModify ev b =
     (if \<not> TickOk b (me_price ev) then (kTickViolation, b)
      else case FindOrder (ob_order_mask b) (ob_orders b) (me_order_no ev) of
             None \<Rightarrow> (kUnknownOrder, b)
           | Some i \<Rightarrow>
               let rec = ob_orders b i;
                   b1 = remove_level_qty (r_side rec) (r_price rec) (r_qty rec) True b;
                   b2 = b1\<lparr>ob_orders := (ob_orders b1)(i := rec\<lparr>r_price := me_price ev, r_qty := me_qty ev\<rparr>)\<rparr>
               in (kOk, add_level_qty (r_side rec) (me_price ev) (me_qty ev) b2))"

definition ApplyCancel :: "MarketEvent \<Rightarrow> OrderBook \<Rightarrow> (BookResult \<times> OrderBook) option" where
  "ApplyCancel ev b =
     (case FindOrder (ob_order_mask b) (ob_orders b) (me_order_no ev) of
        None \<Rightarrow> Some (kUnknownOrder, b)
      | Some i \<Rightarrow>
          let rec = ob_orders b i;
              b1 = remove_level_qty (r_side rec) (r_price rec) (r_qty rec) True b
          in case EraseOrder (ob_order_mask b1) (ob_orders b1) (me_order_no ev) of
               None \<Rightarrow> None
             | Some orders \<Rightarrow> Some (kOk, b1\<lparr>ob_orders := orders\<rparr>))"

definition ReduceResting :: "int \<Rightarrow> Quantity \<Rightarrow> OrderBook \<Rightarrow> (bool \<times> OrderBook) option" where
  "ReduceResting order_no traded b =
     (if order_no = 0 then Some (False, b)
      else case FindOrder (ob_order_mask b) (ob_orders b) order_no of
             None \<Rightarrow> Some (False, b)
           | Some i \<Rightarrow>
               let rec = ob_orders b i;
                   fully = traded \<ge> r_qty rec;
                   reduce = (if fully then r_qty rec else traded);
                   b1 = remove_level_qty (r_side rec) (r_price rec) reduce fully b
               in if fully
                  then (case EraseOrder (ob_order_mask b1) (ob_orders b1) order_no of
                          None \<Rightarrow> None
                        | Some orders \<Rightarrow> Some (True, b1\<lparr>ob_orders := orders\<rparr>))
                  else Some (True, b1\<lparr>ob_orders := (ob_orders b1)(i := rec\<lparr>r_qty := r_qty rec - reduce\<rparr>)\<rparr>))"

definition ApplyTrade :: "MarketEvent \<Rightarrow> OrderBook \<Rightarrow> (BookResult \<times> OrderBook) option" where
  "ApplyTrade ev b =
     (case ReduceResting (me_order_no ev) (me_qty ev) b of None \<Rightarrow> None
      | Some (a, b1) \<Rightarrow>
          (case ReduceResting (me_order_no2 ev) (me_qty ev) b1 of None \<Rightarrow> None
           | Some (a', b2) \<Rightarrow> Some (if a \<or> a' then kOk else kUnknownOrder, b2)))"

text \<open>\<open>apply_event\<close>: the sequence check, then the dispatch on the message type.\<close>

definition check_seq :: "MarketEvent \<Rightarrow> OrderBook \<Rightarrow> bool \<times> OrderBook" where
  "check_seq ev b =
     (if me_seq_no ev \<noteq> 0
      then if ob_expected_seq b \<noteq> 0 \<and> me_seq_no ev \<noteq> ob_expected_seq b
           then (me_type ev \<noteq> kSnapQuote,
                 b\<lparr>ob_gap_count := ob_gap_count b + 1, ob_stale := True, ob_expected_seq := me_seq_no ev + 1\<rparr>)
           else (False, b\<lparr>ob_expected_seq := me_seq_no ev + 1\<rparr>)
      else (False, b))"

definition dispatch :: "MarketEvent \<Rightarrow> OrderBook \<Rightarrow> (BookResult \<times> OrderBook) option" where
  "dispatch ev b =
     (if me_type ev = kSnapQuote then Some (Seed ev b)
      else if me_type ev = kOrderAdd then Some (if ob_stale b then (kStaleDropped, b) else ApplyAdd ev b)
      else if me_type ev = kOrderModify then Some (if ob_stale b then (kStaleDropped, b) else ApplyModify ev b)
      else if me_type ev = kOrderCancel then (if ob_stale b then Some (kStaleDropped, b) else ApplyCancel ev b)
      else if me_type ev = kTrade then (if ob_stale b then Some (kStaleDropped, b) else ApplyTrade ev b)
      else Some (kOk, b))"

definition apply_event :: "MarketEvent \<Rightarrow> OrderBook \<Rightarrow> (BookResult \<times> OrderBook) option" where
  "apply_event ev b =
     (case check_seq ev b of (gap, b1) \<Rightarrow> if gap then Some (kGap, b1) else dispatch ev b1)"

fun apply_events :: "MarketEvent list \<Rightarrow> OrderBook \<Rightarrow> OrderBook option" where
  "apply_events [] b = Some b"
| "apply_events (ev # evs) b =
     (case apply_event ev b of None \<Rightarrow> None | Some (_, b') \<Rightarrow> apply_events evs b')"

subsection \<open>Queries\<close>

definition best_bid :: "OrderBook \<Rightarrow> PriceLevel option" where
  "best_bid b = (if ob_bid_count b > 0 then Some (ob_bids b 0) else None)"

definition best_ask :: "OrderBook \<Rightarrow> PriceLevel option" where
  "best_ask b = (if ob_ask_count b > 0 then Some (ob_asks b 0) else None)"

definition displayed_qty_at :: "Side \<Rightarrow> Price \<Rightarrow> OrderBook \<Rightarrow> Quantity" where
  "displayed_qty_at side price b =
     (if side = kBuy then displayed_scan (ob_bids b) (ob_bid_count b) price 0
      else displayed_scan (ob_asks b) (ob_ask_count b) price 0)"

subsection \<open>Well-formed books\<close>

abbreviation side_levels :: "bool \<Rightarrow> OrderBook \<Rightarrow> Price \<Rightarrow> PriceLevel option" where
  "side_levels IsBid b \<equiv> side_map (sorts_before IsBid) (side_of IsBid b)"

definition tracked :: "OrderBook \<Rightarrow> int \<rightharpoonup> OrderRecord" where
  "tracked b = tbl_map (ob_order_mask b) (ob_orders b)"

definition table_room :: "OrderBook \<Rightarrow> bool" where
  "table_room b \<longleftrightarrow> \<not> full (ob_order_mask b) (ob_orders b)"

definition book_wf :: "OrderBook \<Rightarrow> bool" where
  "book_wf b \<longleftrightarrow> tbl_inv (ob_order_mask b) (ob_orders b) \<and>
     side_inv (sorts_before True) (side_of True b) \<and> side_inv (sorts_before False) (side_of False b)"

lemma book_wfD:
  assumes "book_wf b"
  shows "tbl_inv (ob_order_mask b) (ob_orders b)" and "side_inv (sorts_before d) (side_of d b)"
  using assms by (cases d; simp add: book_wf_def)+

text \<open>The two sides and the table are independent parts of the state.\<close>

lemma side_of_set_side [simp]:
  "side_of d (set_side d s b) = s" "d \<noteq> d' \<Longrightarrow> side_of d (set_side d' s b) = side_of d b"
  "ob_order_mask (set_side d s b) = ob_order_mask b" "ob_orders (set_side d s b) = ob_orders b"
  "ob_expected_seq (set_side d s b) = ob_expected_seq b" "ob_stale (set_side d s b) = ob_stale b"
  "ob_tick_size (set_side d s b) = ob_tick_size b"
  by (cases d; cases d'; simp add: side_of_def set_side_def)+

lemma side_of_upd [simp]:
  "side_of d (b\<lparr>ob_orders := t\<rparr>) = side_of d b" "side_of d (b\<lparr>ob_stale := x\<rparr>) = side_of d b"
  "side_of d (b\<lparr>ob_expected_seq := y\<rparr>) = side_of d b" "side_of d (b\<lparr>ob_gap_count := y\<rparr>) = side_of d b"
  by (simp_all add: side_of_def)

lemma level_qty_frame [simp]:
  "ob_order_mask (add_level_qty d p q b) = ob_order_mask b" "ob_orders (add_level_qty d p q b) = ob_orders b"
  "ob_expected_seq (add_level_qty d p q b) = ob_expected_seq b" "ob_stale (add_level_qty d p q b) = ob_stale b"
  "ob_tick_size (add_level_qty d p q b) = ob_tick_size b"
  "ob_order_mask (remove_level_qty d p q x b) = ob_order_mask b" "ob_orders (remove_level_qty d p q x b) = ob_orders b"
  "ob_expected_seq (remove_level_qty d p q x b) = ob_expected_seq b" "ob_stale (remove_level_qty d p q x b) = ob_stale b"
  "ob_tick_size (remove_level_qty d p q x b) = ob_tick_size b"
  by (simp_all add: add_level_qty_def remove_level_qty_def)

lemma side_of_level_qty:
  "side_of d' (add_level_qty d p q b) =
    (if d' = d then AddQtyToLevel (sorts_before d) p q (side_of d b) else side_of d' b)"
  "side_of d' (remove_level_qty d p q x b) =
    (if d' = d then RemoveQtyFromLevel (sorts_before d) p q x (side_of d b) else side_of d' b)"
  by (auto simp: add_level_qty_def remove_level_qty_def)

lemma level_qty_wf:
  assumes "book_wf b"
  shows "book_wf (add_level_qty d p q b)" and "book_wf (remove_level_qty d p q x b)"
  using book_wfD [OF assms] lv.AddQty_inv lv.RemoveQty(1)
  by (auto simp: book_wf_def side_of_level_qty)

lemma orders_wf: "book_wf b \<Longrightarrow> tbl_inv (ob_order_mask b) t \<Longrightarrow> book_wf (b\<lparr>ob_orders := t\<rparr>)"
  by (simp add: book_wf_def)

lemma set_side_frames [simp]:
  "tracked (add_level_qty d p q b) = tracked b" "tracked (remove_level_qty d p q x b) = tracked b"
  "table_room (add_level_qty d p q b) = table_room b" "table_room (remove_level_qty d p q x b) = table_room b"
  by (simp_all add: tracked_def table_room_def)

text \<open>Table deletion and in-place update, lifted to the book.\<close>

lemma erase_book:
  assumes "book_wf b" "EraseOrder (ob_order_mask b) (ob_orders b) k = Some t"
  shows "book_wf (b\<lparr>ob_orders := t\<rparr>)" and "tracked (b\<lparr>ob_orders := t\<rparr>) = (tracked b)(k := None)"
  using EraseOrder_Some [OF book_wfD(1) [OF assms(1)] assms(2)] orders_wf [OF assms(1)]
  by (simp_all add: tracked_def)

lemma erase_returns:
  assumes "book_wf b" "table_room b"
  obtains t where "EraseOrder (ob_order_mask b) (ob_orders b) k = Some t" "table_room (b\<lparr>ob_orders := t\<rparr>)"
proof -
  note inv = book_wfD(1) [OF assms(1)]
  obtain t where t: "EraseOrder (ob_order_mask b) (ob_orders b) k = Some t" "tbl_inv (ob_order_mask b) t"
      "tbl_map (ob_order_mask b) t = (tbl_map (ob_order_mask b) (ob_orders b))(k := None)"
    using EraseOrder_room [OF inv, of k] assms(2) unfolding table_room_def by blast
  have "card (dom (tbl_map (ob_order_mask b) t)) \<le> card (dom (tbl_map (ob_order_mask b) (ob_orders b)))"
    using tbl_card(1) [OF inv] by (simp add: t(3) card_Diff1_le)
  then have "\<not> full (ob_order_mask b) t"
    using tbl_card(2,3) [OF inv] tbl_card(3) [OF t(2)] assms(2) by (auto simp: table_room_def)
  then show thesis using that t(1) by (simp add: table_room_def)
qed

lemma update_book:
  assumes "book_wf b" "FindOrder (ob_order_mask b) (ob_orders b) k = Some i" "r_order_no r = k" "r_occupied r"
  shows "book_wf (b\<lparr>ob_orders := (ob_orders b)(i := r)\<rparr>)"
    and "tracked (b\<lparr>ob_orders := (ob_orders b)(i := r)\<rparr>) = (tracked b)(k \<mapsto> r)"
    and "table_room (b\<lparr>ob_orders := (ob_orders b)(i := r)\<rparr>) = table_room b"
  using slot_update [OF book_wfD(1) [OF assms(1)] assms(2-4)] orders_wf [OF assms(1)]
  by (simp_all add: tracked_def table_room_def)

lemma find_book:
  assumes "book_wf b"
  shows "FindOrder (ob_order_mask b) (ob_orders b) k = Some i \<Longrightarrow>
      tracked b k = Some (ob_orders b i) \<and> r_order_no (ob_orders b i) = k \<and> r_occupied (ob_orders b i)"
    and "FindOrder (ob_order_mask b) (ob_orders b) k = None \<longleftrightarrow> tracked b k = None"
  using FindOrder_iff [OF book_wfD(1) [OF assms], of k i] by (auto simp: tracked_def tbl_map_def keyat_def occ_def)

subsection \<open>Every handler keeps the book well-formed\<close>

lemma clear_wf:
  assumes "book_wf b"
  shows "book_wf (clear b)" and "tracked (clear b) = Map.empty" and "side_levels d (clear b) = Map.empty"
proof -
  have pw: "pow2_mask (ob_order_mask b)" using book_wfD(1) [OF assms] by (rule tbl_invD)
  have free: "\<forall>i \<le> ob_order_mask b. \<not> occ (ob_orders (clear b)) i" by (simp add: clear_def occ_def)
  have mask: "ob_order_mask (clear b) = ob_order_mask b" by (simp add: clear_def)
  show "tracked (clear b) = Map.empty" using tbl_map_unocc [OF free pw] by (simp add: tracked_def mask)
  show "book_wf (clear b)"
    using pw free by (simp add: book_wf_def tbl_inv_def mask) (simp add: side_inv_def side_sorted_def side_of_def clear_def)
  show "side_levels d (clear b) = Map.empty" by (cases d; simp add: side_of_def clear_def lv.no_level)
qed

lemma Seed_frame:
  "ob_order_mask (snd (Seed ev b)) = ob_order_mask b" "ob_orders (snd (Seed ev b)) = ob_orders (clear b)"
  "ob_tick_size (snd (Seed ev b)) = ob_tick_size b" "ob_stale (snd (Seed ev b)) = False"
  "ob_expected_seq (snd (Seed ev b)) = (if me_seq_no ev \<noteq> 0 then me_seq_no ev + 1 else ob_expected_seq b)"
  by (simp_all add: Seed_def clear_def Let_def)

lemma one_side_inv: "0 < pl_order_count (lv 0) \<Longrightarrow> side_inv f (lv, Suc 0)"
  by (simp add: side_inv_def side_sorted_def kMaxLevelsPerSide_def)

lemma Seed_sides:
  "side_of True (snd (Seed ev b)) =
    (if me_bid_qty ev > 0 \<and> TickOk b (me_bid_price ev)
     then ((ob_bids b)(0 := \<lparr>pl_price = me_bid_price ev, pl_total_quantity = me_bid_qty ev, pl_order_count = 1\<rparr>), Suc 0)
     else (ob_bids b, 0))"
  "side_of False (snd (Seed ev b)) =
    (if me_ask_qty ev > 0 \<and> TickOk b (me_ask_price ev)
     then ((ob_asks b)(0 := \<lparr>pl_price = me_ask_price ev, pl_total_quantity = me_ask_qty ev, pl_order_count = 1\<rparr>), Suc 0)
     else (ob_asks b, 0))"
  by (simp_all add: Seed_def clear_def side_of_def TickOk_def Let_def)

lemma Seed_wf:
  assumes "book_wf b"
  shows "book_wf (snd (Seed ev b))" and "tracked (snd (Seed ev b)) = Map.empty"
proof -
  have mask: "ob_order_mask (clear b) = ob_order_mask b" by (simp add: clear_def)
  note cl = clear_wf [OF assms]
  have "tbl_inv (ob_order_mask b) (ob_orders (clear b))" using book_wfD(1) [OF cl(1)] by (simp add: mask)
  moreover have "side_inv f (lv, 0)" for f lv by (simp add: side_inv_def side_sorted_def)
  ultimately show "book_wf (snd (Seed ev b))"
    by (simp add: book_wf_def Seed_frame Seed_sides one_side_inv)
  show "tracked (snd (Seed ev b)) = Map.empty" using cl(2) by (simp add: tracked_def Seed_frame mask)
qed

lemma ApplyAdd_wf:
  assumes "book_wf b"
  shows "book_wf (snd (ApplyAdd ev b))"
  using InsertOrder_cases [OF book_wfD(1) [OF assms], of "\<lparr>r_order_no = me_order_no ev,
      r_price = me_price ev, r_qty = me_qty ev, r_side = me_side ev, r_occupied = True\<rparr>"]
    assms level_qty_wf(1) [OF orders_wf [OF assms]]
  by (auto simp: ApplyAdd_def Let_def split: option.splits)

lemma ApplyModify_wf:
  assumes "book_wf b"
  shows "book_wf (snd (ApplyModify ev b))"
proof (cases "TickOk b (me_price ev) \<and> FindOrder (ob_order_mask b) (ob_orders b) (me_order_no ev) \<noteq> None")
  case True
  then obtain i where i: "FindOrder (ob_order_mask b) (ob_orders b) (me_order_no ev) = Some i" by blast
  let ?r = "ob_orders b i"
  let ?b = "remove_level_qty (r_side ?r) (r_price ?r) (r_qty ?r) True b"
  have "book_wf ?b" using assms by (rule level_qty_wf)
  from update_book(1) [OF this, of "me_order_no ev" i "?r\<lparr>r_price := me_price ev, r_qty := me_qty ev\<rparr>"]
  have "book_wf (?b\<lparr>ob_orders := (ob_orders ?b)(i := ?r\<lparr>r_price := me_price ev, r_qty := me_qty ev\<rparr>)\<rparr>)"
    using find_book(1) [OF assms i] i by simp
  from level_qty_wf(1) [OF this] show ?thesis using True i by (simp add: ApplyModify_def Let_def)
qed (use assms in \<open>auto simp: ApplyModify_def\<close>)

lemma ApplyCancel_wf:
  assumes "book_wf b"
  shows "ApplyCancel ev b = Some (res, b') \<Longrightarrow> book_wf b'"
    and "table_room b \<Longrightarrow> \<exists>res b'. ApplyCancel ev b = Some (res, b') \<and> table_room b'"
proof -
  show "book_wf b'" if "ApplyCancel ev b = Some (res, b')"
    using that assms erase_book(1) [OF level_qty_wf(2) [OF assms]]
    by (auto simp: ApplyCancel_def Let_def split: option.splits)
  show "\<exists>res b'. ApplyCancel ev b = Some (res, b') \<and> table_room b'" if room: "table_room b"
  proof (cases "FindOrder (ob_order_mask b) (ob_orders b) (me_order_no ev)")
    case (Some i)
    let ?r = "ob_orders b i"
    let ?b = "remove_level_qty (r_side ?r) (r_price ?r) (r_qty ?r) True b"
    have "table_room ?b" using room by simp
    from erase_returns [OF level_qty_wf(2) [OF assms] this, of "me_order_no ev"] obtain t
      where "EraseOrder (ob_order_mask ?b) (ob_orders ?b) (me_order_no ev) = Some t" "table_room (?b\<lparr>ob_orders := t\<rparr>)" .
    then show ?thesis using Some by (simp add: ApplyCancel_def Let_def)
  qed (use room in \<open>simp add: ApplyCancel_def\<close>)
qed

lemma reduce_part:
  assumes "book_wf b" "FindOrder (ob_order_mask b) (ob_orders b) k = Some i"
    "b1 = remove_level_qty d p n f b" "b2 = b1\<lparr>ob_orders := (ob_orders b1)(i := (ob_orders b i)\<lparr>r_qty := x\<rparr>)\<rparr>"
  shows "book_wf b2" and "tracked b2 = (tracked b)(k \<mapsto> (ob_orders b i)\<lparr>r_qty := x\<rparr>)" and "table_room b2 = table_room b"
proof -
  have "book_wf b1" using level_qty_wf(2) [OF assms(1)] assms(3) by simp
  from update_book [OF this, of k i "(ob_orders b i)\<lparr>r_qty := x\<rparr>"]
  show "book_wf b2" and "tracked b2 = (tracked b)(k \<mapsto> (ob_orders b i)\<lparr>r_qty := x\<rparr>)" and "table_room b2 = table_room b"
    using find_book(1) [OF assms(1,2)] assms(2-4) by simp_all
qed

lemma ReduceResting_wf:
  assumes "book_wf b"
  shows "ReduceResting k q b = Some (res, b') \<Longrightarrow> book_wf b'"
    and "table_room b \<Longrightarrow> \<exists>res b'. ReduceResting k q b = Some (res, b') \<and> table_room b'"
proof -
  note part = reduce_part [OF assms _ refl refl]
  show "book_wf b'" if "ReduceResting k q b = Some (res, b')"
    using that assms part(1) erase_book(1) [OF level_qty_wf(2) [OF assms]]
    by (auto simp: ReduceResting_def Let_def split: option.splits if_splits)
  show "\<exists>res b'. ReduceResting k q b = Some (res, b') \<and> table_room b'" if room: "table_room b"
  proof (cases "FindOrder (ob_order_mask b) (ob_orders b) k")
    case (Some i)
    let ?r = "ob_orders b i"
    let ?b = "remove_level_qty (r_side ?r) (r_price ?r) (r_qty ?r) True b"
    have "table_room ?b" using room by simp
    from erase_returns [OF level_qty_wf(2) [OF assms] this, of k] obtain t
      where "EraseOrder (ob_order_mask ?b) (ob_orders ?b) k = Some t" "table_room (?b\<lparr>ob_orders := t\<rparr>)" .
    then show ?thesis
      using Some room part(3) [OF Some] by (auto simp: ReduceResting_def Let_def)
  qed (use room in \<open>auto simp: ReduceResting_def\<close>)
qed

lemma ApplyTrade_wf:
  assumes "book_wf b"
  shows "ApplyTrade ev b = Some (res, b') \<Longrightarrow> book_wf b'"
    and "table_room b \<Longrightarrow> \<exists>res b'. ApplyTrade ev b = Some (res, b')"
proof -
  show "book_wf b'" if "ApplyTrade ev b = Some (res, b')"
    using that ReduceResting_wf(1) [OF ReduceResting_wf(1) [OF assms]]
    by (auto simp: ApplyTrade_def split: option.splits)
  show "\<exists>res b'. ApplyTrade ev b = Some (res, b')" if "table_room b"
    using ReduceResting_wf(2) [OF assms that, of "me_order_no ev" "me_qty ev"]
      ReduceResting_wf(2) [OF ReduceResting_wf(1) [OF assms], of "me_order_no ev" "me_qty ev" _ _ "me_order_no2 ev" "me_qty ev"]
    by (fastforce simp: ApplyTrade_def)
qed

lemma check_seq_frame:
  "ob_orders (snd (check_seq ev b)) = ob_orders b" "ob_order_mask (snd (check_seq ev b)) = ob_order_mask b"
  "side_of d (snd (check_seq ev b)) = side_of d b" "ob_tick_size (snd (check_seq ev b)) = ob_tick_size b"
  by (simp_all add: check_seq_def side_of_def)

lemma check_seq_wf:
  "book_wf (snd (check_seq ev b)) = book_wf b" "table_room (snd (check_seq ev b)) = table_room b"
  "tracked (snd (check_seq ev b)) = tracked b"
  by (simp_all add: book_wf_def table_room_def tracked_def check_seq_frame)

lemma dispatch_wf:
  assumes "book_wf b" "dispatch ev b = Some (res, b')"
  shows "book_wf b'"
  using assms(2) Seed_wf(1) [OF assms(1), of ev] ApplyAdd_wf [OF assms(1), of ev] ApplyModify_wf [OF assms(1), of ev]
    ApplyCancel_wf(1) [OF assms(1)] ApplyTrade_wf(1) [OF assms(1)] assms(1)
  by (auto simp: dispatch_def split: if_splits)

lemma apply_event_wf:
  assumes "book_wf b" "apply_event ev b = Some (res, b')"
  shows "book_wf b'"
  using assms dispatch_wf check_seq_wf(1) [of ev b]
  by (cases "check_seq ev b") (auto simp: apply_event_def split: if_splits)

lemma apply_event_returns:
  assumes "book_wf b" "table_room b"
  shows "\<exists>res b'. apply_event ev b = Some (res, b')"
proof (cases "check_seq ev b")
  case (Pair gap b1)
  have b1: "book_wf b1" "table_room b1" using check_seq_wf [of ev b] assms Pair by simp_all
  have "\<exists>res b'. dispatch ev b1 = Some (res, b')"
    using ApplyCancel_wf(2) [OF b1, of ev] ApplyTrade_wf(2) [OF b1, of ev]
    by (auto simp: dispatch_def)
  then show ?thesis using Pair by (auto simp: apply_event_def)
qed

subsection \<open>The reference book\<close>

text \<open>
  The tracked orders and the seeded top of book of the last snapshot determine the levels of a
  side: at a price, the total quantity and the number of its orders, the seed counting as one.
\<close>

type_synonym seeds = "Side \<Rightarrow> (Price \<times> Quantity) option"

definition orders_at :: "(int \<rightharpoonup> OrderRecord) \<Rightarrow> Side \<Rightarrow> Price \<Rightarrow> int set" where
  "orders_at M side p = {k. \<exists>r. M k = Some r \<and> r_side r = side \<and> r_price r = p}"

definition orders_qty :: "(int \<rightharpoonup> OrderRecord) \<Rightarrow> Side \<Rightarrow> Price \<Rightarrow> Quantity" where
  "orders_qty M side p = (\<Sum>k \<in> orders_at M side p. r_qty (the (M k)))"

definition seed_qty :: "seeds \<Rightarrow> Side \<Rightarrow> Price \<Rightarrow> Quantity" where
  "seed_qty seed side p = (case seed side of None \<Rightarrow> 0 | Some (p', q) \<Rightarrow> if p' = p then q else 0)"

definition seed_count :: "seeds \<Rightarrow> Side \<Rightarrow> Price \<Rightarrow> nat" where
  "seed_count seed side p = (case seed side of None \<Rightarrow> 0 | Some (p', q) \<Rightarrow> if p' = p then 1 else 0)"

definition ref_levels :: "(int \<rightharpoonup> OrderRecord) \<Rightarrow> seeds \<Rightarrow> Side \<Rightarrow> Price \<Rightarrow> PriceLevel option" where
  "ref_levels M seed side p =
     (let n = seed_count seed side p + card (orders_at M side p)
      in if n = 0 then None
         else Some \<lparr>pl_price = p, pl_total_quantity = seed_qty seed side p + orders_qty M side p,
                    pl_order_count = int n\<rparr>)"

lemma orders_at_finite: "finite (dom M) \<Longrightarrow> finite (orders_at M side p)"
  by (rule finite_subset [of _ "dom M"]) (auto simp: orders_at_def)

lemma ref_levels_qty:
  "ref_levels M seed side p = Some l \<Longrightarrow> pl_total_quantity l = seed_qty seed side p + orders_qty M side p"
  by (auto simp: ref_levels_def Let_def split: if_splits)

text \<open>Adding an order that is not tracked, and splitting a tracked one off.\<close>

lemma orders_at_new:
  assumes "M k = None"
  shows "orders_at (M(k \<mapsto> r)) side p =
    (if r_side r = side \<and> r_price r = p then insert k (orders_at M side p) else orders_at M side p)"
  using assms by (auto simp: orders_at_def)

lemma orders_new:
  assumes "M k = None" "finite (dom M)"
  shows "card (orders_at (M(k \<mapsto> r)) side p) =
      card (orders_at M side p) + (if r_side r = side \<and> r_price r = p then 1 else 0)"
    and "orders_qty (M(k \<mapsto> r)) side p =
      orders_qty M side p + (if r_side r = side \<and> r_price r = p then r_qty r else 0)"
proof -
  have k: "k \<notin> orders_at M side p" using assms(1) by (simp add: orders_at_def)
  note fin = orders_at_finite [OF assms(2), of side p]
  show "card (orders_at (M(k \<mapsto> r)) side p) =
      card (orders_at M side p) + (if r_side r = side \<and> r_price r = p then 1 else 0)"
    using k fin by (simp add: orders_at_new [of M k, OF assms(1)])
  have "(\<Sum>j \<in> orders_at M side p. r_qty (the ((M(k \<mapsto> r)) j))) = (\<Sum>j \<in> orders_at M side p. r_qty (the (M j)))"
    using k by (intro sum.cong) auto
  then show "orders_qty (M(k \<mapsto> r)) side p =
      orders_qty M side p + (if r_side r = side \<and> r_price r = p then r_qty r else 0)"
    using k fin by (simp add: orders_qty_def orders_at_new [of M k, OF assms(1)])
qed

lemma orders_split:
  assumes "M k = Some r" "finite (dom M)"
  shows "card (orders_at M side p) =
      card (orders_at (M(k := None)) side p) + (if r_side r = side \<and> r_price r = p then 1 else 0)"
    and "orders_qty M side p =
      orders_qty (M(k := None)) side p + (if r_side r = side \<and> r_price r = p then r_qty r else 0)"
proof -
  have M: "M = (M(k := None))(k \<mapsto> r)" using assms(1) by (simp add: fun_eq_iff)
  have fin: "finite (dom (M(k := None)))" using assms(2) by simp
  show "card (orders_at M side p) =
      card (orders_at (M(k := None)) side p) + (if r_side r = side \<and> r_price r = p then 1 else 0)"
    by (subst M, rule orders_new(1)) (use fin in simp_all)
  show "orders_qty M side p =
      orders_qty (M(k := None)) side p + (if r_side r = side \<and> r_price r = p then r_qty r else 0)"
    by (subst M, rule orders_new(2)) (use fin in simp_all)
qed

lemma orders_qty_nonneg:
  assumes "\<forall>r \<in> ran M. 0 \<le> r_qty r"
  shows "0 \<le> orders_qty M side p"
  unfolding orders_qty_def
proof (rule sum_nonneg)
  fix k assume "k \<in> orders_at M side p"
  then obtain r where "M k = Some r" by (auto simp: orders_at_def)
  then show "0 \<le> r_qty (the (M k))" using assms ranI [of M k r] by auto
qed

lemma orders_qty_empty: "finite (dom M) \<Longrightarrow> card (orders_at M side p) = 0 \<Longrightarrow> orders_qty M side p = 0"
  using orders_at_finite [of M side p] by (simp add: orders_qty_def)

lemma seed_qty_empty: "seed_count seed side p = 0 \<Longrightarrow> seed_qty seed side p = 0"
  by (auto simp: seed_count_def seed_qty_def split: option.splits if_splits)

text \<open>How the reference levels of a side change with the tracked orders.\<close>

lemma ref_levels_add:
  assumes "M k = None" "finite (dom M)"
  shows "ref_levels (M(k \<mapsto> r)) seed side =
    (if r_side r = side
     then (ref_levels M seed side)(r_price r \<mapsto>
       (case ref_levels M seed side (r_price r) of
          None \<Rightarrow> \<lparr>pl_price = r_price r, pl_total_quantity = r_qty r, pl_order_count = 1\<rparr>
        | Some l \<Rightarrow> add_order (r_qty r) l))
     else ref_levels M seed side)"
proof (rule ext)
  fix p
  show "ref_levels (M(k \<mapsto> r)) seed side p = (if r_side r = side
     then (ref_levels M seed side)(r_price r \<mapsto>
       (case ref_levels M seed side (r_price r) of
          None \<Rightarrow> \<lparr>pl_price = r_price r, pl_total_quantity = r_qty r, pl_order_count = 1\<rparr>
        | Some l \<Rightarrow> add_order (r_qty r) l))
     else ref_levels M seed side) p"
    using orders_qty_empty [OF assms(2), of side p] seed_qty_empty [of seed side p]
    by (cases "p = r_price r"; cases "r_side r = side")
       (simp_all add: ref_levels_def orders_new [of M k, OF assms] add_order_def Let_def)
qed

lemma rest_nonneg:
  assumes "\<forall>r \<in> ran M. 0 \<le> r_qty r" "\<forall>p q. seed side = Some (p, q) \<longrightarrow> 0 \<le> q"
  shows "0 \<le> seed_qty seed side p + orders_qty (M(k := None)) side p"
proof (rule add_nonneg_nonneg)
  show "0 \<le> seed_qty seed side p" using assms(2) by (auto simp: seed_qty_def split: option.splits)
  show "0 \<le> orders_qty (M(k := None)) side p"
    using assms(1) by (intro orders_qty_nonneg) (auto simp: ran_def split: if_splits)
qed

lemma ref_levels_remove:
  assumes r: "M k = Some r" and fin: "finite (dom M)" and nonneg: "\<forall>r \<in> ran M. 0 \<le> r_qty r"
    and seed: "\<forall>p q. seed (r_side r) = Some (p, q) \<longrightarrow> 0 \<le> q"
  obtains l where "ref_levels M seed (r_side r) (r_price r) = Some l"
    and "ref_levels (M(k := None)) seed = (ref_levels M seed)(r_side r :=
      (ref_levels M seed (r_side r))(r_price r :=
        (if PriceLevel_empty (remove_order (r_qty r) True l) then None
         else Some (remove_order (r_qty r) True l))))"
proof -
  note split = orders_split [OF r fin]
  let ?n = "seed_count seed (r_side r) (r_price r) + card (orders_at (M(k := None)) (r_side r) (r_price r))"
  let ?q = "seed_qty seed (r_side r) (r_price r) + orders_qty (M(k := None)) (r_side r) (r_price r)"
  define l where "l = \<lparr>pl_price = r_price r, pl_total_quantity = ?q + r_qty r, pl_order_count = int ?n + 1\<rparr>"
  have l: "ref_levels M seed (r_side r) (r_price r) = Some l"
    by (simp add: ref_levels_def split l_def)
  have "0 \<le> ?q" using nonneg seed by (rule rest_nonneg)
  then have l': "remove_order (r_qty r) True l = \<lparr>pl_price = r_price r, pl_total_quantity = ?q, pl_order_count = int ?n\<rparr>"
    by (simp add: remove_order_def l_def)
  have "ref_levels (M(k := None)) seed side p = ((ref_levels M seed)(r_side r :=
      (ref_levels M seed (r_side r))(r_price r :=
        (if PriceLevel_empty (remove_order (r_qty r) True l) then None
         else Some (remove_order (r_qty r) True l))))) side p" for side p
    by (cases "side = r_side r \<and> p = r_price r") (auto simp: l' ref_levels_def split PriceLevel_empty_def Let_def)
  then show thesis using that l by (simp add: fun_eq_iff)
qed

lemma ref_levels_reduce:
  assumes r: "M k = Some r" and fin: "finite (dom M)" and nonneg: "\<forall>r \<in> ran M. 0 \<le> r_qty r"
    and seed: "\<forall>p q. seed (r_side r) = Some (p, q) \<longrightarrow> 0 \<le> q" and n: "n \<le> r_qty r"
  obtains l where "ref_levels M seed (r_side r) (r_price r) = Some l"
    and "ref_levels (M(k \<mapsto> r\<lparr>r_qty := r_qty r - n\<rparr>)) seed = (ref_levels M seed)(r_side r :=
      (ref_levels M seed (r_side r))(r_price r \<mapsto> remove_order n False l))"
    and "\<not> PriceLevel_empty (remove_order n False l)"
proof -
  let ?M = "M(k := None)"
  note split = orders_split [OF r fin]
  have new: "card (orders_at (M(k \<mapsto> r')) side p) =
        card (orders_at ?M side p) + (if r_side r' = side \<and> r_price r' = p then 1 else 0)"
      "orders_qty (M(k \<mapsto> r')) side p =
        orders_qty ?M side p + (if r_side r' = side \<and> r_price r' = p then r_qty r' else 0)" for r' side p
    using orders_new [of ?M k r' side p] fin by simp_all
  let ?n = "seed_count seed (r_side r) (r_price r) + card (orders_at ?M (r_side r) (r_price r))"
  let ?q = "seed_qty seed (r_side r) (r_price r) + orders_qty ?M (r_side r) (r_price r)"
  define l where "l = \<lparr>pl_price = r_price r, pl_total_quantity = ?q + r_qty r, pl_order_count = int ?n + 1\<rparr>"
  have l: "ref_levels M seed (r_side r) (r_price r) = Some l"
    by (simp add: ref_levels_def split l_def)
  have "0 \<le> ?q" using nonneg seed by (rule rest_nonneg)
  then have l': "remove_order n False l =
      \<lparr>pl_price = r_price r, pl_total_quantity = ?q + (r_qty r - n), pl_order_count = int ?n + 1\<rparr>"
    using n by (simp add: remove_order_def l_def)
  have "ref_levels (M(k \<mapsto> r\<lparr>r_qty := r_qty r - n\<rparr>)) seed side p = ((ref_levels M seed)(r_side r :=
      (ref_levels M seed (r_side r))(r_price r \<mapsto> remove_order n False l))) side p" for side p
    by (cases "side = r_side r \<and> p = r_price r") (auto simp: l' ref_levels_def split new Let_def)
  moreover have "\<not> PriceLevel_empty (remove_order n False l)" by (simp add: l' PriceLevel_empty_def)
  ultimately show thesis using that l by (simp add: fun_eq_iff)
qed

text \<open>How many levels the reference has.\<close>

lemma ref_levels_dom:
  assumes "finite (dom M)"
  shows "finite (dom (ref_levels M seed side))" and "card (dom (ref_levels M seed side)) \<le> card (dom M) + 1"
proof -
  let ?P = "(\<lambda>k. r_price (the (M k))) ` dom M" and ?S = "{p. seed_count seed side p \<noteq> 0}"
  have sub: "dom (ref_levels M seed side) \<subseteq> ?P \<union> ?S"
  proof
    fix p assume "p \<in> dom (ref_levels M seed side)"
    then have "seed_count seed side p \<noteq> 0 \<or> orders_at M side p \<noteq> {}"
      by (auto simp: ref_levels_def Let_def split: if_splits)
    then show "p \<in> ?P \<union> ?S" by (force simp: orders_at_def)
  qed
  have "?S \<subseteq> {fst (the (seed side))}"
    by (cases "seed side") (auto simp: seed_count_def split: if_splits)
  then have S: "finite ?S" "card ?S \<le> 1"
    using card_mono [of "{fst (the (seed side))}" ?S] finite_subset [of ?S "{fst (the (seed side))}"] by simp_all
  show "finite (dom (ref_levels M seed side))" using sub S(1) assms finite_subset by blast
  have "card (dom (ref_levels M seed side)) \<le> card ?P + card ?S"
    using card_mono [OF _ sub] card_Un_le [of ?P ?S] S(1) assms by (simp add: le_trans)
  then show "card (dom (ref_levels M seed side)) \<le> card (dom M) + 1"
    using card_image_le [OF assms, of "\<lambda>k. r_price (the (M k))"] S(2) by linarith
qed

lemma few_levels: "finite (dom M) \<Longrightarrow> card (dom M) < 255 \<Longrightarrow> card (dom (ref_levels M seed side)) < 256"
  using ref_levels_dom(2) [of M seed side] by simp

lemma ref_levels_shrink:
  assumes "finite (dom M)"
  shows "card (dom (ref_levels (M(k := None)) seed side)) \<le> card (dom (ref_levels M seed side))"
proof (rule card_mono [OF ref_levels_dom(1) [OF assms]])
  have "p \<in> dom (ref_levels M seed side)" if "p \<in> dom (ref_levels (M(k := None)) seed side)" for p
  proof -
    have "card (orders_at (M(k := None)) side p) \<le> card (orders_at M side p)"
      by (rule card_mono [OF orders_at_finite [OF assms]]) (auto simp: orders_at_def split: if_splits)
    then show ?thesis using that by (auto simp: ref_levels_def Let_def split: if_splits)
  qed
  then show "dom (ref_levels (M(k := None)) seed side) \<subseteq> dom (ref_levels M seed side)" by blast
qed

text \<open>The levels of a book follow the reference levels.\<close>

definition levels_ok :: "(int \<rightharpoonup> OrderRecord) \<Rightarrow> seeds \<Rightarrow> OrderBook \<Rightarrow> bool" where
  "levels_ok M seed b \<longleftrightarrow> side_levels True b = ref_levels M seed True \<and>
     side_levels False b = ref_levels M seed False"

lemma levels_okD: "levels_ok M seed b \<Longrightarrow> side_levels d b = ref_levels M seed d"
  by (cases d) (simp_all add: levels_ok_def)

lemma levels_okI: "(\<And>d. side_levels d b = ref_levels M seed d) \<Longrightarrow> levels_ok M seed b"
  by (simp add: levels_ok_def)

lemma levels_ok_orders [simp]: "levels_ok M seed (b\<lparr>ob_orders := t\<rparr>) = levels_ok M seed b"
  by (simp add: levels_ok_def)

definition quantities_ok :: "(int \<rightharpoonup> OrderRecord) \<Rightarrow> seeds \<Rightarrow> bool" where
  "quantities_ok M seed \<longleftrightarrow> (\<forall>r \<in> ran M. 0 \<le> r_qty r) \<and> (\<forall>d p q. seed d = Some (p, q) \<longrightarrow> 0 \<le> q)"

lemma levels_add:
  assumes wf: "book_wf b" and ok: "levels_ok M seed b" and new: "M k = None" "finite (dom M)"
    and room: "ref_levels M seed (r_side r) (r_price r) \<noteq> None \<or>
      card (dom (ref_levels M seed (r_side r))) < kMaxLevelsPerSide"
  shows "levels_ok (M(k \<mapsto> r)) seed (add_level_qty (r_side r) (r_price r) (r_qty r) b)"
proof (rule levels_okI)
  fix d
  note inv = book_wfD(2) [OF wf, of "r_side r"]
  obtain lv count where s: "side_of (r_side r) b = (lv, count)" by (cases "side_of (r_side r) b")
  have "snd (side_of (r_side r) b) = card (dom (side_levels (r_side r) b))"
    using lv.card_levels [of "r_side r" lv count] lv.side_inv_sorted [OF inv] by (simp add: s)
  then have "side_levels (r_side r) b (r_price r) \<noteq> None \<or> snd (side_of (r_side r) b) < kMaxLevelsPerSide"
    using room by (simp add: levels_okD [OF ok])
  from lv.AddQty_room [OF inv this]
  show "side_levels d (add_level_qty (r_side r) (r_price r) (r_qty r) b) = ref_levels (M(k \<mapsto> r)) seed d"
    by (auto simp: side_of_level_qty levels_okD [OF ok] ref_levels_add [of M k, OF new])
qed

lemma levels_remove:
  assumes wf: "book_wf b" and ok: "levels_ok M seed b" and r: "M k = Some r" "finite (dom M)"
    and q: "quantities_ok M seed"
  shows "levels_ok (M(k := None)) seed (remove_level_qty (r_side r) (r_price r) (r_qty r) True b)"
proof (rule levels_okI)
  fix d
  obtain l where l: "ref_levels M seed (r_side r) (r_price r) = Some l"
    and ref: "ref_levels (M(k := None)) seed = (ref_levels M seed)(r_side r :=
      (ref_levels M seed (r_side r))(r_price r :=
        (if PriceLevel_empty (remove_order (r_qty r) True l) then None
         else Some (remove_order (r_qty r) True l))))"
    using ref_levels_remove [OF r, of seed] q unfolding quantities_ok_def by metis
  from lv.RemoveQty(2) [OF book_wfD(2) [OF wf]]
  show "side_levels d (remove_level_qty (r_side r) (r_price r) (r_qty r) True b) = ref_levels (M(k := None)) seed d"
    unfolding ref by (auto simp: side_of_level_qty levels_okD [OF ok] l)
qed

lemma levels_reduce:
  assumes wf: "book_wf b" and ok: "levels_ok M seed b" and r: "M k = Some r" "finite (dom M)"
    and q: "quantities_ok M seed" and n: "n \<le> r_qty r"
  shows "levels_ok (M(k \<mapsto> r\<lparr>r_qty := r_qty r - n\<rparr>)) seed (remove_level_qty (r_side r) (r_price r) n False b)"
proof (rule levels_okI)
  fix d
  obtain l where l: "ref_levels M seed (r_side r) (r_price r) = Some l"
    and ref: "ref_levels (M(k \<mapsto> r\<lparr>r_qty := r_qty r - n\<rparr>)) seed = (ref_levels M seed)(r_side r :=
      (ref_levels M seed (r_side r))(r_price r \<mapsto> remove_order n False l))"
    and ne: "\<not> PriceLevel_empty (remove_order n False l)"
    using ref_levels_reduce [OF r _ _ n, of seed] q unfolding quantities_ok_def by metis
  from lv.RemoveQty(2) [OF book_wfD(2) [OF wf]]
  show "side_levels d (remove_level_qty (r_side r) (r_price r) n False b) =
      ref_levels (M(k \<mapsto> r\<lparr>r_qty := r_qty r - n\<rparr>)) seed d"
    unfolding ref by (auto simp: side_of_level_qty levels_okD [OF ok] l ne)
qed

subsection \<open>Refinement\<close>

text \<open>The reference state: the tracked orders, the seeds of the last snapshot, and the sequence
  state. \<open>ref_event\<close> is its transition.\<close>

record ref_book =
  rf_orders :: "int \<rightharpoonup> OrderRecord"
  rf_seed :: seeds
  rf_expected :: u64
  rf_stale :: bool

definition tick_ok :: "Price \<Rightarrow> Price \<Rightarrow> bool" where
  "tick_ok tick p \<longleftrightarrow> tick = 0 \<or> p smod tick = 0"

definition snapshot_seed :: "Price \<Rightarrow> MarketEvent \<Rightarrow> seeds" where
  "snapshot_seed tick ev side =
     (if side then if me_bid_qty ev > 0 \<and> tick_ok tick (me_bid_price ev)
                   then Some (me_bid_price ev, me_bid_qty ev) else None
      else if me_ask_qty ev > 0 \<and> tick_ok tick (me_ask_price ev)
           then Some (me_ask_price ev, me_ask_qty ev) else None)"

definition added :: "MarketEvent \<Rightarrow> OrderRecord" where
  "added ev = \<lparr>r_order_no = me_order_no ev, r_price = me_price ev, r_qty = me_qty ev,
     r_side = me_side ev, r_occupied = True\<rparr>"

definition ref_reduce :: "int \<Rightarrow> Quantity \<Rightarrow> (int \<rightharpoonup> OrderRecord) \<Rightarrow> (int \<rightharpoonup> OrderRecord)" where
  "ref_reduce k q M =
     (if k = 0 then M
      else case M k of None \<Rightarrow> M
           | Some r \<Rightarrow> if r_qty r \<le> q then M(k := None) else M(k \<mapsto> r\<lparr>r_qty := r_qty r - q\<rparr>))"

definition ref_orders :: "Price \<Rightarrow> MarketEvent \<Rightarrow> (int \<rightharpoonup> OrderRecord) \<Rightarrow> (int \<rightharpoonup> OrderRecord)" where
  "ref_orders tick ev M =
     (if me_type ev = kOrderAdd
      then if tick_ok tick (me_price ev) then M(me_order_no ev \<mapsto> added ev) else M
      else if me_type ev = kOrderModify
      then if tick_ok tick (me_price ev)
           then (case M (me_order_no ev) of None \<Rightarrow> M
                 | Some r \<Rightarrow> M(me_order_no ev \<mapsto> r\<lparr>r_price := me_price ev, r_qty := me_qty ev\<rparr>))
           else M
      else if me_type ev = kOrderCancel then M(me_order_no ev := None)
      else if me_type ev = kTrade
      then ref_reduce (me_order_no2 ev) (me_qty ev) (ref_reduce (me_order_no ev) (me_qty ev) M)
      else M)"

definition ref_gap :: "MarketEvent \<Rightarrow> ref_book \<Rightarrow> bool" where
  "ref_gap ev s \<longleftrightarrow> me_seq_no ev \<noteq> 0 \<and> rf_expected s \<noteq> 0 \<and> me_seq_no ev \<noteq> rf_expected s"

definition ref_event :: "Price \<Rightarrow> MarketEvent \<Rightarrow> ref_book \<Rightarrow> ref_book" where
  "ref_event tick ev s =
     (let s' = s\<lparr>rf_expected := (if me_seq_no ev \<noteq> 0 then me_seq_no ev + 1 else rf_expected s)\<rparr>
      in if me_type ev = kSnapQuote
         then s'\<lparr>rf_orders := Map.empty, rf_seed := snapshot_seed tick ev, rf_stale := False\<rparr>
         else if ref_gap ev s \<or> rf_stale s then s'\<lparr>rf_stale := True\<rparr>
         else s'\<lparr>rf_orders := ref_orders tick ev (rf_orders s)\<rparr>)"

text \<open>A feed the book can follow: an order is added once, quantities are not negative, and the
  table and the level arrays have room.\<close>

definition followable :: "nat \<Rightarrow> MarketEvent \<Rightarrow> ref_book \<Rightarrow> bool" where
  "followable cap ev s \<longleftrightarrow> me_type ev = kSnapQuote \<or> ref_gap ev s \<or> rf_stale s \<or>
     (card (dom (rf_orders s)) < cap \<and> 0 \<le> me_qty ev \<and>
      (me_type ev = kOrderAdd \<longrightarrow> me_order_no ev \<notin> dom (rf_orders s)) \<and>
      (\<forall>side. card (dom (ref_levels (rf_orders s) (rf_seed s) side)) < kMaxLevelsPerSide))"

definition book_ok :: "ref_book \<Rightarrow> OrderBook \<Rightarrow> bool" where
  "book_ok s b \<longleftrightarrow> book_wf b \<and> tracked b = rf_orders s \<and> levels_ok (rf_orders s) (rf_seed s) b \<and>
     quantities_ok (rf_orders s) (rf_seed s) \<and> ob_expected_seq b = rf_expected s \<and> ob_stale b = rf_stale s"

lemma tracked_finite: "book_wf b \<Longrightarrow> finite (dom (tracked b))"
  using tbl_card(1) [OF book_wfD(1)] by (simp add: tracked_def)

lemma room_card: "book_wf b \<Longrightarrow> table_room b \<longleftrightarrow> card (dom (tracked b)) < ob_order_mask b + 1"
  using tbl_card(2,3) [OF book_wfD(1) [of b]] by (simp add: table_room_def tracked_def order_less_le)

lemma quantities_upd:
  "quantities_ok M seed \<Longrightarrow> 0 \<le> r_qty r \<Longrightarrow> quantities_ok (M(k \<mapsto> r)) seed"
  "quantities_ok M seed \<Longrightarrow> quantities_ok (M(k := None)) seed"
  by (auto simp: quantities_ok_def ran_def split: if_splits)

text \<open>The handlers, one by one: what a handler leaves in the table, and that the levels follow.\<close>

lemma Add_refines:
  assumes wf: "book_wf b" and lv: "levels_ok (tracked b) seed b" and room: "table_room b"
    and new: "me_order_no ev \<notin> dom (tracked b)" and tick: "TickOk b (me_price ev)"
    and lroom: "card (dom (ref_levels (tracked b) seed (me_side ev))) < kMaxLevelsPerSide"
  shows "tracked (snd (ApplyAdd ev b)) = (tracked b)(me_order_no ev \<mapsto> added ev)"
    and "levels_ok ((tracked b)(me_order_no ev \<mapsto> added ev)) seed (snd (ApplyAdd ev b))"
proof -
  note inv = book_wfD(1) [OF wf]
  obtain t where t: "InsertOrder (ob_order_mask b) (ob_orders b) (added ev) = Some t" "tbl_inv (ob_order_mask b) t"
      "tbl_map (ob_order_mask b) t = (tracked b)(me_order_no ev \<mapsto> added ev)"
    using InsertOrder_cases [OF inv, of "added ev"] room by (auto simp: table_room_def tracked_def added_def)
  have run: "snd (ApplyAdd ev b) = add_level_qty (me_side ev) (me_price ev) (me_qty ev) (b\<lparr>ob_orders := t\<rparr>)"
    using t(1) tick by (simp add: ApplyAdd_def added_def Let_def)
  show "tracked (snd (ApplyAdd ev b)) = (tracked b)(me_order_no ev \<mapsto> added ev)"
    using t(3) by (simp add: run) (simp add: tracked_def)
  show "levels_ok ((tracked b)(me_order_no ev \<mapsto> added ev)) seed (snd (ApplyAdd ev b))"
    using levels_add [OF orders_wf [OF wf t(2)], of "tracked b" seed "me_order_no ev" "added ev"] lv new lroom
      tracked_finite [OF wf] by (simp add: run added_def domIff)
qed

lemma Modify_refines:
  assumes wf: "book_wf b" and lv: "levels_ok (tracked b) seed b" and q: "quantities_ok (tracked b) seed"
    and r: "tracked b (me_order_no ev) = Some r" and tick: "TickOk b (me_price ev)"
    and lroom: "card (dom (ref_levels (tracked b) seed (r_side r))) < kMaxLevelsPerSide"
  shows "tracked (snd (ApplyModify ev b)) =
      (tracked b)(me_order_no ev \<mapsto> r\<lparr>r_price := me_price ev, r_qty := me_qty ev\<rparr>)"
    and "levels_ok ((tracked b)(me_order_no ev \<mapsto> r\<lparr>r_price := me_price ev, r_qty := me_qty ev\<rparr>)) seed
      (snd (ApplyModify ev b))"
proof -
  let ?k = "me_order_no ev" and ?r = "r\<lparr>r_price := me_price ev, r_qty := me_qty ev\<rparr>"
  note fin = tracked_finite [OF wf]
  obtain i where i: "FindOrder (ob_order_mask b) (ob_orders b) ?k = Some i" using find_book(2) [OF wf, of ?k] r by auto
  have r_i: "ob_orders b i = r" "r_order_no r = ?k" "r_occupied r" using find_book(1) [OF wf i] r by auto
  define b1 where "b1 = remove_level_qty (r_side r) (r_price r) (r_qty r) True b"
  have b1: "book_wf b1" "levels_ok ((tracked b)(?k := None)) seed b1"
    using level_qty_wf(2) [OF wf] levels_remove [OF wf lv r fin q] by (simp_all add: b1_def)
  define b2 where "b2 = b1\<lparr>ob_orders := (ob_orders b1)(i := ?r)\<rparr>"
  have b2: "book_wf b2" "tracked b2 = (tracked b)(?k \<mapsto> ?r)" "levels_ok ((tracked b)(?k := None)) seed b2"
    using update_book [OF b1(1), of ?k i ?r] i r_i b1(2) by (simp_all add: b1_def b2_def)
  have run: "snd (ApplyModify ev b) = add_level_qty (r_side r) (me_price ev) (me_qty ev) b2"
    using i tick by (simp add: ApplyModify_def r_i b1_def b2_def Let_def)
  show "tracked (snd (ApplyModify ev b)) = (tracked b)(?k \<mapsto> ?r)" by (simp add: run b2(2))
  have "card (dom (ref_levels ((tracked b)(?k := None)) seed (r_side r))) < kMaxLevelsPerSide"
    using ref_levels_shrink [OF fin, of ?k seed "r_side r"] lroom by linarith
  then show "levels_ok ((tracked b)(?k \<mapsto> ?r)) seed (snd (ApplyModify ev b))"
    using levels_add [OF b2(1,3), of ?k ?r] fin by (auto simp: run)
qed

lemma Cancel_refines:
  assumes wf: "book_wf b" and lv: "levels_ok (tracked b) seed b" and q: "quantities_ok (tracked b) seed"
    and room: "table_room b"
  obtains res b' where "ApplyCancel ev b = Some (res, b')"
    and "tracked b' = (tracked b)(me_order_no ev := None)" "levels_ok (tracked b') seed b'"
proof (cases "FindOrder (ob_order_mask b) (ob_orders b) (me_order_no ev)")
  case None
  then have "(tracked b)(me_order_no ev := None) = tracked b"
    using find_book(2) [OF wf] by (intro fun_upd_idem) simp
  then show thesis using None lv that [of kUnknownOrder b] by (simp add: ApplyCancel_def)
next
  case (Some i)
  let ?k = "me_order_no ev" and ?r = "ob_orders b i"
  have r: "tracked b ?k = Some ?r" using find_book(1) [OF wf Some] by simp
  define b1 where "b1 = remove_level_qty (r_side ?r) (r_price ?r) (r_qty ?r) True b"
  have b1: "book_wf b1" "table_room b1" "tracked b1 = tracked b" "levels_ok ((tracked b)(?k := None)) seed b1"
    using level_qty_wf(2) [OF wf] room levels_remove [OF wf lv r tracked_finite [OF wf] q] by (simp_all add: b1_def)
  obtain t where t: "EraseOrder (ob_order_mask b1) (ob_orders b1) ?k = Some t" using erase_returns [OF b1(1,2)] .
  show thesis
  proof (rule that)
    show "ApplyCancel ev b = Some (kOk, b1\<lparr>ob_orders := t\<rparr>)"
      using t by (simp add: ApplyCancel_def Some b1_def Let_def)
  qed (use erase_book(2) [OF b1(1) t] b1 in simp_all)
qed

lemma Reduce_refines:
  assumes wf: "book_wf b" and lv: "levels_ok (tracked b) seed b" and q: "quantities_ok (tracked b) seed"
    and room: "table_room b"
  obtains res b' where "ReduceResting k n b = Some (res, b')" and "tracked b' = ref_reduce k n (tracked b)"
    and "levels_ok (tracked b') seed b'" and "book_wf b'" and "table_room b'"
proof (cases "k = 0 \<or> FindOrder (ob_order_mask b) (ob_orders b) k = None")
  case True
  then have "ReduceResting k n b = Some (False, b)" "ref_reduce k n (tracked b) = tracked b"
    using find_book(2) [OF wf, of k] by (auto simp: ReduceResting_def ref_reduce_def)
  then show thesis using that [of False b] wf lv room by simp
next
  case False
  then obtain i where k: "k \<noteq> 0" and i: "FindOrder (ob_order_mask b) (ob_orders b) k = Some i" by auto
  let ?r = "ob_orders b i"
  have r: "tracked b k = Some ?r" using find_book(1) [OF wf i] by simp
  note fin = tracked_finite [OF wf]
  show thesis
  proof (cases "r_qty ?r \<le> n")
    case True
    define b1 where "b1 = remove_level_qty (r_side ?r) (r_price ?r) (r_qty ?r) True b"
    have b1: "book_wf b1" "table_room b1" "tracked b1 = tracked b" "levels_ok ((tracked b)(k := None)) seed b1"
      using level_qty_wf(2) [OF wf] room levels_remove [OF wf lv r fin q] by (simp_all add: b1_def)
    obtain t where t: "EraseOrder (ob_order_mask b1) (ob_orders b1) k = Some t" "table_room (b1\<lparr>ob_orders := t\<rparr>)"
      using erase_returns [OF b1(1,2)] .
    show thesis
    proof (rule that)
      show "ReduceResting k n b = Some (True, b1\<lparr>ob_orders := t\<rparr>)"
        using t True k by (simp add: ReduceResting_def i b1_def Let_def)
    qed (use erase_book [OF b1(1) t(1)] b1 r k True t in \<open>simp_all add: ref_reduce_def\<close>)
  next
    case False
    define b1 where "b1 = remove_level_qty (r_side ?r) (r_price ?r) n False b"
    define b2 where "b2 = b1\<lparr>ob_orders := (ob_orders b1)(i := ?r\<lparr>r_qty := r_qty ?r - n\<rparr>)\<rparr>"
    note part = reduce_part [OF wf i b1_def b2_def]
    show thesis
    proof (rule that)
      show "ReduceResting k n b = Some (True, b2)"
        using False k by (simp add: ReduceResting_def i b1_def b2_def Let_def)
    qed (use part levels_reduce [OF wf lv r fin q, of n] False r k room in \<open>simp_all add: ref_reduce_def b1_def b2_def\<close>)
  qed
qed

lemma quantities_reduce:
  assumes "quantities_ok M seed"
  shows "quantities_ok (ref_reduce k n M) seed"
  using assms quantities_upd [OF assms] by (auto simp: ref_reduce_def split: option.splits)

lemma Trade_refines:
  assumes wf: "book_wf b" and lv: "levels_ok (tracked b) seed b" and q: "quantities_ok (tracked b) seed"
    and room: "table_room b"
  obtains res b' where "ApplyTrade ev b = Some (res, b')"
    and "tracked b' = ref_reduce (me_order_no2 ev) (me_qty ev) (ref_reduce (me_order_no ev) (me_qty ev) (tracked b))"
    and "levels_ok (tracked b') seed b'"
proof -
  obtain a b1 where 1: "ReduceResting (me_order_no ev) (me_qty ev) b = Some (a, b1)"
      "tracked b1 = ref_reduce (me_order_no ev) (me_qty ev) (tracked b)" "levels_ok (tracked b1) seed b1"
      "book_wf b1" "table_room b1"
    using Reduce_refines [OF assms] .
  have "quantities_ok (tracked b1) seed" using quantities_reduce [OF q] 1(2) by simp
  from Reduce_refines [OF 1(4,3) this 1(5), of "me_order_no2 ev" "me_qty ev"] obtain a' b2
    where "ReduceResting (me_order_no2 ev) (me_qty ev) b1 = Some (a', b2)"
      "tracked b2 = ref_reduce (me_order_no2 ev) (me_qty ev) (tracked b1)" "levels_ok (tracked b2) seed b2" .
  with 1(1,2) show thesis using that by (simp add: ApplyTrade_def)
qed

lemma Seed_refines:
  assumes "book_wf b"
  shows "levels_ok Map.empty (snapshot_seed (ob_tick_size b) ev) (snd (Seed ev b))"
proof (rule levels_okI)
  fix d
  have "ref_levels Map.empty sd d = (case sd d of None \<Rightarrow> Map.empty
      | Some (p, q) \<Rightarrow> [p \<mapsto> \<lparr>pl_price = p, pl_total_quantity = q, pl_order_count = 1\<rparr>])" for sd
    by (auto simp: ref_levels_def seed_count_def seed_qty_def orders_at_def orders_qty_def fun_eq_iff
        split: option.splits)
  then show "side_levels d (snd (Seed ev b)) = ref_levels Map.empty (snapshot_seed (ob_tick_size b) ev) d"
    by (cases d; simp add: Seed_sides snapshot_seed_def TickOk_def tick_ok_def lv.no_level lv.one_level)
qed

text \<open>The parts of the state no handler but \<open>Seed\<close> touches.\<close>

definition fixed_part :: "OrderBook \<Rightarrow> nat \<times> Price \<times> u64 \<times> bool" where
  "fixed_part b = (ob_order_mask b, ob_tick_size b, ob_expected_seq b, ob_stale b)"

lemma fixed_part_upd [simp]:
  "fixed_part (b\<lparr>ob_orders := t\<rparr>) = fixed_part b" "fixed_part (add_level_qty d p q b) = fixed_part b"
  "fixed_part (remove_level_qty d p q x b) = fixed_part b"
  by (simp_all add: fixed_part_def)

lemma ReduceResting_frame: "ReduceResting k n b = Some (a, b') \<Longrightarrow> fixed_part b' = fixed_part b"
  by (auto simp: ReduceResting_def Let_def split: option.splits if_splits)

lemma handler_frames:
  "fixed_part (snd (ApplyAdd ev b)) = fixed_part b" "fixed_part (snd (ApplyModify ev b)) = fixed_part b"
  "ApplyCancel ev b = Some (res, b') \<Longrightarrow> fixed_part b' = fixed_part b"
  "ApplyTrade ev b = Some (res, b') \<Longrightarrow> fixed_part b' = fixed_part b"
  by (auto simp: ApplyAdd_def ApplyModify_def ApplyCancel_def ApplyTrade_def Let_def
      dest!: ReduceResting_frame split: option.splits if_splits)

lemmas dispatch_types = dispatch_def ref_orders_def mtbt_codes

lemma dispatch_same:
  assumes "book_wf b" "\<not> ob_stale b" "me_type ev \<noteq> kSnapQuote"
    and "(me_type ev \<in> {kOrderAdd, kOrderModify} \<and> \<not> TickOk b (me_price ev)) \<or>
      (me_type ev = kOrderModify \<and> tracked b (me_order_no ev) = None) \<or>
      me_type ev \<notin> {kOrderAdd, kOrderModify, kOrderCancel, kTrade}"
  shows "(\<exists>res. dispatch ev b = Some (res, b)) \<and> ref_orders (ob_tick_size b) ev (tracked b) = tracked b"
proof -
  have tick: "tick_ok (ob_tick_size b) (me_price ev) = TickOk b (me_price ev)" by (simp add: TickOk_def tick_ok_def)
  from assms(4) consider "me_type ev = kOrderAdd" "\<not> TickOk b (me_price ev)"
    | "me_type ev = kOrderModify" "\<not> TickOk b (me_price ev)"
    | "me_type ev = kOrderModify" "tracked b (me_order_no ev) = None"
    | "me_type ev \<notin> {kOrderAdd, kOrderModify, kOrderCancel, kTrade}" by auto
  then show ?thesis
    using assms(2,3) find_book(2) [OF assms(1), of "me_order_no ev"] tick
    by cases (simp_all add: dispatch_types ApplyAdd_def ApplyModify_def)
qed

lemma dispatch_live:
  assumes wf: "book_wf b" and lv: "levels_ok (tracked b) seed b" and q: "quantities_ok (tracked b) seed"
    and live: "\<not> ob_stale b" and room: "table_room b" and qty: "0 \<le> me_qty ev"
    and new: "me_type ev = kOrderAdd \<longrightarrow> me_order_no ev \<notin> dom (tracked b)"
    and lroom: "\<forall>side. card (dom (ref_levels (tracked b) seed side)) < kMaxLevelsPerSide"
    and ty: "me_type ev \<noteq> kSnapQuote"
  shows "\<exists>res b'. dispatch ev b = Some (res, b') \<and> fixed_part b' = fixed_part b \<and>
    tracked b' = ref_orders (ob_tick_size b) ev (tracked b) \<and> levels_ok (tracked b') seed b' \<and>
    quantities_ok (tracked b') seed"
proof -
  have tick: "tick_ok (ob_tick_size b) (me_price ev) = TickOk b (me_price ev)" by (simp add: TickOk_def tick_ok_def)
  consider (add) "me_type ev = kOrderAdd" "TickOk b (me_price ev)"
    | (modify) r where "me_type ev = kOrderModify" "TickOk b (me_price ev)" "tracked b (me_order_no ev) = Some r"
    | (cancel) "me_type ev = kOrderCancel" | (trade) "me_type ev = kTrade"
    | (same) "(me_type ev \<in> {kOrderAdd, kOrderModify} \<and> \<not> TickOk b (me_price ev)) \<or>
      (me_type ev = kOrderModify \<and> tracked b (me_order_no ev) = None) \<or>
      me_type ev \<notin> {kOrderAdd, kOrderModify, kOrderCancel, kTrade}"
    by (cases "tracked b (me_order_no ev)") blast+
  then show ?thesis
  proof cases
    case add
    have run: "dispatch ev b = Some (ApplyAdd ev b)" using add live by (simp add: dispatch_types)
    have ref: "ref_orders (ob_tick_size b) ev (tracked b) = (tracked b)(me_order_no ev \<mapsto> added ev)"
      using add tick by (simp add: dispatch_types)
    note step = Add_refines [OF wf lv room new [rule_format, OF add(1)] add(2) lroom [rule_format]]
    have "quantities_ok ((tracked b)(me_order_no ev \<mapsto> added ev)) seed"
      using quantities_upd(1) [OF q] qty by (simp add: added_def)
    then show ?thesis
      using step handler_frames(1) [of ev b] unfolding run ref by (cases "ApplyAdd ev b") simp
  next
    case (modify r)
    let ?r = "r\<lparr>r_price := me_price ev, r_qty := me_qty ev\<rparr>"
    have run: "dispatch ev b = Some (ApplyModify ev b)" using modify live by (simp add: dispatch_types)
    have ref: "ref_orders (ob_tick_size b) ev (tracked b) = (tracked b)(me_order_no ev \<mapsto> ?r)"
      using modify tick by (simp add: dispatch_types)
    note step = Modify_refines [OF wf lv q modify(3,2) lroom [rule_format]]
    have "quantities_ok ((tracked b)(me_order_no ev \<mapsto> ?r)) seed" using quantities_upd(1) [OF q] qty by simp
    then show ?thesis
      using step handler_frames(2) [of ev b] unfolding run ref by (cases "ApplyModify ev b") simp
  next
    case cancel
    have run: "dispatch ev b = ApplyCancel ev b" using cancel live by (simp add: dispatch_types)
    have ref: "ref_orders (ob_tick_size b) ev (tracked b) = (tracked b)(me_order_no ev := None)"
      using cancel by (simp add: dispatch_types)
    show ?thesis
      using Cancel_refines [OF wf lv q room, of ev] handler_frames(3) [of ev b] quantities_upd(2) [OF q]
      unfolding run ref by metis
  next
    case trade
    have run: "dispatch ev b = ApplyTrade ev b" using trade live by (simp add: dispatch_types)
    have ref: "ref_orders (ob_tick_size b) ev (tracked b) =
        ref_reduce (me_order_no2 ev) (me_qty ev) (ref_reduce (me_order_no ev) (me_qty ev) (tracked b))"
      using trade by (simp add: dispatch_types)
    show ?thesis
      using Trade_refines [OF wf lv q room, of ev] handler_frames(4) [of ev b]
        quantities_reduce [OF quantities_reduce [OF q]] unfolding run ref by metis
  next
    case same
    then show ?thesis using dispatch_same [OF wf live ty] lv q by auto
  qed
qed

lemma apply_event_refines:
  assumes ok: "book_ok s b" and feed: "followable (ob_order_mask b + 1) ev s"
  shows "\<exists>res b'. apply_event ev b = Some (res, b') \<and> book_ok (ref_event (ob_tick_size b) ev s) b' \<and>
    ob_order_mask b' = ob_order_mask b \<and> ob_tick_size b' = ob_tick_size b"
proof -
  have wf: "book_wf b" and tr: "tracked b = rf_orders s" and lv: "levels_ok (tracked b) (rf_seed s) b"
    and q: "quantities_ok (tracked b) (rf_seed s)" and st: "ob_stale b = rf_stale s" "ob_expected_seq b = rf_expected s"
    using ok by (simp_all add: book_ok_def)
  obtain gap b1 where c: "check_seq ev b = (gap, b1)" by (cases "check_seq ev b")
  have b1: "book_wf b1" "tracked b1 = tracked b" "levels_ok M sd b1 = levels_ok M sd b" "ob_tick_size b1 = ob_tick_size b"
      "ob_order_mask b1 = ob_order_mask b" "table_room b1 = table_room b" for M sd
    using check_seq_wf [of ev b] check_seq_frame [where ev = ev and b = b] wf c by (simp_all add: levels_ok_def)
  have seq: "ob_expected_seq b1 = (if me_seq_no ev \<noteq> 0 then me_seq_no ev + 1 else rf_expected s)"
      "ob_stale b1 = (rf_stale s \<or> ref_gap ev s)" "gap = (ref_gap ev s \<and> me_type ev \<noteq> kSnapQuote)"
    using c st by (auto simp: check_seq_def ref_gap_def split: if_splits)
  have seed_ok: "quantities_ok Map.empty (snapshot_seed tick ev)" for tick
    by (auto simp: quantities_ok_def snapshot_seed_def split: if_splits)
  consider (snap) "me_type ev = kSnapQuote" | (dropped) "me_type ev \<noteq> kSnapQuote" "ref_gap ev s \<or> rf_stale s"
    | (live) "me_type ev \<noteq> kSnapQuote" "\<not> ref_gap ev s" "\<not> rf_stale s" by blast
  then show ?thesis
  proof cases
    case snap
    have "apply_event ev b = Some (kSeeded, snd (Seed ev b1))"
      using snap seq(3) by (simp add: apply_event_def c dispatch_def) (simp add: Seed_def Let_def)
    moreover have "book_ok (ref_event (ob_tick_size b) ev s) (snd (Seed ev b1))"
      using Seed_wf [OF b1(1), of ev] Seed_refines [OF b1(1), of ev] snap seed_ok
      by (simp add: book_ok_def ref_event_def Seed_frame b1(4) seq(1))
    ultimately show ?thesis using b1(4,5) by (simp add: Seed_frame)
  next
    case dropped
    have "book_ok (ref_event (ob_tick_size b) ev s) b1"
      using dropped b1 lv q tr seq by (auto simp: book_ok_def ref_event_def Let_def)
    moreover have "\<exists>res. apply_event ev b = Some (res, b1)"
      using dropped seq by (auto simp: apply_event_def c dispatch_def)
    ultimately show ?thesis using b1(4,5) by auto
  next
    case live
    have f: "card (dom (rf_orders s)) < ob_order_mask b + 1" "0 \<le> me_qty ev"
        "me_type ev = kOrderAdd \<longrightarrow> me_order_no ev \<notin> dom (tracked b1)"
        "\<forall>side. card (dom (ref_levels (tracked b1) (rf_seed s) side)) < kMaxLevelsPerSide"
      using feed live b1(2) tr by (auto simp: followable_def)
    have "\<not> ob_stale b1" "table_room b1" "levels_ok (tracked b1) (rf_seed s) b1" "quantities_ok (tracked b1) (rf_seed s)"
      using seq live room_card [OF wf] f(1) tr b1 lv q by simp_all
    from dispatch_live [OF b1(1) this(3,4,1,2) f(2-4) live(1)] obtain res b'
      where d: "dispatch ev b1 = Some (res, b')" "fixed_part b' = fixed_part b1"
        "tracked b' = ref_orders (ob_tick_size b1) ev (tracked b1)" "levels_ok (tracked b') (rf_seed s) b'"
        "quantities_ok (tracked b') (rf_seed s)" by blast
    have "apply_event ev b = Some (res, b')" using d(1) seq(3) live by (simp add: apply_event_def c)
    moreover have "book_ok (ref_event (ob_tick_size b) ev s) b'"
      using dispatch_wf [OF b1(1) d(1)] d seq live b1(2,4) tr
      by (simp add: book_ok_def ref_event_def fixed_part_def Let_def)
    ultimately show ?thesis using d(2) b1(4,5) by (simp add: fixed_part_def)
  qed
qed

subsection \<open>Runs\<close>

definition ref_init :: ref_book where
  "ref_init = \<lparr>rf_orders = Map.empty, rf_seed = (\<lambda>_. None), rf_expected = 0, rf_stale = False\<rparr>"

fun feed_ok :: "nat \<Rightarrow> Price \<Rightarrow> MarketEvent list \<Rightarrow> ref_book \<Rightarrow> bool" where
  "feed_ok cap tick [] s = True"
| "feed_ok cap tick (ev # evs) s \<longleftrightarrow> followable cap ev s \<and> feed_ok cap tick evs (ref_event tick ev s)"

definition ref_events :: "Price \<Rightarrow> MarketEvent list \<Rightarrow> ref_book \<Rightarrow> ref_book" where
  "ref_events tick evs s = fold (ref_event tick) evs s"

lemma apply_events_refine:
  "book_ok s b \<Longrightarrow> feed_ok (ob_order_mask b + 1) (ob_tick_size b) evs s \<Longrightarrow>
    \<exists>b'. apply_events evs b = Some b' \<and> book_ok (ref_events (ob_tick_size b) evs s) b'"
proof (induction evs arbitrary: s b)
  case Nil
  then show ?case by (simp add: ref_events_def)
next
  case (Cons ev evs)
  obtain res b1 where b1: "apply_event ev b = Some (res, b1)" "book_ok (ref_event (ob_tick_size b) ev s) b1"
      "ob_order_mask b1 = ob_order_mask b" "ob_tick_size b1 = ob_tick_size b"
    using apply_event_refines [OF Cons.prems(1), of ev] Cons.prems(2) by auto
  show ?case using Cons.IH [OF b1(2)] Cons.prems(2) b1 by (simp add: ref_events_def)
qed

lemma init_frame:
  assumes "OrderBook_init token tick cap = Some b"
  shows "ob_tick_size b = tick" and "ob_token b = token"
  using assms by (auto simp: OrderBook_init_def split: option.splits)

lemma init_wf:
  assumes "OrderBook_init token tick cap = Some b"
  shows "book_wf b" and "book_ok ref_init b"
proof -
  obtain p where p: "RoundUpPow2 cap = Some p" using assms by (auto simp: OrderBook_init_def split: option.splits)
  have b: "b = \<lparr>ob_token = token, ob_tick_size = tick, ob_order_mask = unat (p - 1),
          ob_orders = (\<lambda>_. OrderRecord_default), ob_bids = (\<lambda>_. PriceLevel_default),
          ob_asks = (\<lambda>_. PriceLevel_default), ob_bid_count = 0, ob_ask_count = 0,
          ob_expected_seq = 0, ob_stale = False, ob_gap_count = 0\<rparr>"
    using assms p by (simp add: OrderBook_init_def)
  note pw = RoundUpPow2_mask [OF p]
  show wf: "book_wf b"
    using empty_tbl_inv [OF pw] by (simp add: b book_wf_def side_of_def side_inv_def side_sorted_def)
  have "tracked b = Map.empty"
    unfolding tracked_def b using pw by (simp add: tbl_map_unocc occ_def OrderRecord_default_def)
  moreover have "levels_ok Map.empty (\<lambda>_. None) b"
    by (simp add: levels_ok_def b side_of_def lv.no_level ref_levels_def seed_count_def orders_at_def fun_eq_iff)
  ultimately show "book_ok ref_init b"
    using wf by (simp add: book_ok_def ref_init_def quantities_ok_def) (simp add: b)
qed

text \<open>Every way the public interface changes a book.\<close>

inductive book_step :: "OrderBook \<Rightarrow> OrderBook \<Rightarrow> bool" where
  step_event: "apply_event ev b = Some (res, b') \<Longrightarrow> book_step b b'"
| step_token: "book_step b (set_token t b)"
| step_tick: "book_step b (set_tick_size t b)"
| step_clear: "book_step b (clear b)"

definition book_started :: "OrderBook \<Rightarrow> bool" where
  "book_started b \<longleftrightarrow> (\<exists>token tick cap. OrderBook_init token tick cap = Some b)"

interpretation bk: invariant_system book_started book_step book_wf
proof
  show "book_wf b" if "book_started b" for b using that init_wf(1) by (auto simp: book_started_def)
  show "book_wf b'" if "book_wf b" "book_step b b'" for b b'
    using that(2,1)
  proof cases
    case step_event
    then show ?thesis using apply_event_wf that(1) by blast
  qed (simp_all add: clear_wf, simp_all add: book_wf_def set_token_def set_tick_size_def side_of_def)
qed

subsection \<open>Queries on a well-formed book\<close>

lemma displayed_levels:
  assumes "book_wf b"
  shows "displayed_qty_at side p b = (case side_levels side b p of None \<Rightarrow> 0 | Some l \<Rightarrow> pl_total_quantity l)"
  using lv.displayed_scan_map [of side "fst (side_of side b)" "snd (side_of side b)" p]
    lv.side_inv_sorted [OF book_wfD(2) [OF assms, of side]]
  by (cases side; simp add: displayed_qty_at_def side_of_def)

definition best :: "Side \<Rightarrow> OrderBook \<Rightarrow> PriceLevel option" where
  "best side b = (if side then best_bid b else best_ask b)"

lemma best_levels:
  assumes "book_wf b"
  shows "best side b = None \<longleftrightarrow> side_levels side b = Map.empty"
    and "best side b = Some l \<Longrightarrow> side_levels side b (pl_price l) = Some l \<and>
      (\<forall>p l'. side_levels side b p = Some l' \<longrightarrow> p = pl_price l \<or> sorts_before side (pl_price l) p)"
proof -
  obtain lv count where s: "side_of side b = (lv, count)" by (cases "side_of side b")
  have best: "best side b = (if 0 < count then Some (lv 0) else None)"
    using s by (auto simp: best_def best_bid_def best_ask_def side_of_def split: if_splits)
  have inv: "side_inv (sorts_before side) (lv, count)" using book_wfD(2) [OF assms, of side] s by simp
  note top = lv.best_level [OF inv]
  show "best side b = None \<longleftrightarrow> side_levels side b = Map.empty"
    using top(1) by (cases count) (auto simp: best s lv.no_level)
  show "side_levels side b (pl_price l) = Some l \<and>
      (\<forall>p l'. side_levels side b p = Some l' \<longrightarrow> p = pl_price l \<or> sorts_before side (pl_price l) p)"
    if "best side b = Some l"
    using that top by (auto simp: best s split: if_splits)
qed

text \<open>An event that is not a snapshot leaves a stale book alone, but for the sequence state.\<close>

lemma stale_event:
  assumes "ob_stale b" "me_type ev \<noteq> kSnapQuote"
  shows "\<exists>res b'. apply_event ev b = Some (res, b') \<and> ob_stale b' \<and> ob_orders b' = ob_orders b \<and>
    side_of True b' = side_of True b \<and> side_of False b' = side_of False b \<and> ob_tick_size b' = ob_tick_size b \<and>
    (me_type ev \<in> {kOrderAdd, kOrderModify, kOrderCancel, kTrade} \<longrightarrow> res \<in> {kGap, kStaleDropped})"
  using assms by (auto simp: apply_event_def check_seq_def dispatch_def side_of_def)

lemma stale_events:
  "ob_stale b \<Longrightarrow> \<forall>ev \<in> set evs. me_type ev \<noteq> kSnapQuote \<Longrightarrow> book_wf b \<Longrightarrow>
    \<exists>b'. apply_events evs b = Some b' \<and> ob_stale b' \<and> ob_orders b' = ob_orders b \<and>
      side_of True b' = side_of True b \<and> side_of False b' = side_of False b \<and> book_wf b' \<and>
      ob_tick_size b' = ob_tick_size b"
proof (induction evs arbitrary: b)
  case (Cons ev evs)
  obtain res b1 where b1: "apply_event ev b = Some (res, b1)" "ob_stale b1" "ob_orders b1 = ob_orders b"
      "side_of True b1 = side_of True b" "side_of False b1 = side_of False b" "ob_tick_size b1 = ob_tick_size b"
    using stale_event [of b ev] Cons.prems by auto
  from Cons.IH [OF b1(2) _ apply_event_wf [OF Cons.prems(3) b1(1)]] show ?case
    using b1 Cons.prems(2) by auto
qed simp

lemma feed_book_ok:
  assumes "OrderBook_init token tick cap = Some b0" "feed_ok (ob_order_mask b0 + 1) tick evs ref_init"
    and "apply_events evs b0 = Some b" "s = ref_events tick evs ref_init"
  shows "book_ok s b"
  using apply_events_refine [OF init_wf(2) [OF assms(1)], of evs] assms(2-4) init_frame(1) [OF assms(1)] by simp

text \<open>Single additions and cancellations outside the sequence numbering.\<close>

definition add_event :: "int \<Rightarrow> Price \<Rightarrow> Quantity \<Rightarrow> Side \<Rightarrow> MarketEvent" where
  "add_event k p q d = zero_event\<lparr>me_type := kOrderAdd, me_order_no := k, me_price := p, me_qty := q, me_side := d\<rparr>"

definition cancel_event :: "int \<Rightarrow> MarketEvent" where
  "cancel_event k = zero_event\<lparr>me_type := kOrderCancel, me_order_no := k\<rparr>"

lemma add_event_run:
  assumes wf: "book_wf b" and live: "\<not> ob_stale b" and tick: "ob_tick_size b = 0 \<or> p smod ob_tick_size b = 0"
    and room: "tracked b k \<noteq> None \<or> table_room b"
    and lroom: "side_levels d b p \<noteq> None \<or> snd (side_of d b) < kMaxLevelsPerSide"
  obtains b' where "apply_event (add_event k p q d) b = Some (kOk, b')" "book_wf b'" "fixed_part b' = fixed_part b"
    "tracked b' = (tracked b)(k \<mapsto> added (add_event k p q d))"
    "side_levels d b' = (side_levels d b)(p \<mapsto> (case side_levels d b p of
       None \<Rightarrow> \<lparr>pl_price = p, pl_total_quantity = q, pl_order_count = 1\<rparr> | Some l \<Rightarrow> add_order q l))"
proof -
  let ?ev = "add_event k p q d"
  have k: "r_order_no (added ?ev) = k" "(added ?ev)\<lparr>r_occupied := True\<rparr> = added ?ev"
    by (simp_all add: added_def add_event_def)
  obtain t where t: "InsertOrder (ob_order_mask b) (ob_orders b) (added ?ev) = Some t" "tbl_inv (ob_order_mask b) t"
      "tbl_map (ob_order_mask b) t = (tracked b)(k \<mapsto> added ?ev)"
    using InsertOrder_cases [OF book_wfD(1) [OF wf], of "added ?ev"] room
    unfolding table_room_def tracked_def k by blast
  define b' where "b' = add_level_qty d p q (b\<lparr>ob_orders := t\<rparr>)"
  have "apply_event ?ev b = Some (ApplyAdd ?ev b)"
    using live by (simp add: apply_event_def check_seq_def dispatch_def add_event_def zero_event_def mtbt_codes)
  moreover have "ApplyAdd ?ev b = (kOk, b')"
    using t(1) tick by (simp add: ApplyAdd_def TickOk_def added_def add_event_def zero_event_def b'_def)
  ultimately show thesis
    using lv.AddQty_room [OF book_wfD(2) [OF wf] lroom] level_qty_wf(1) [OF orders_wf [OF wf t(2)]] t(3)
    by (intro that [of b']) (simp_all add: b'_def side_of_level_qty, simp_all add: tracked_def)
qed

lemma cancel_event_run:
  assumes wf: "book_wf b" and live: "\<not> ob_stale b" and r: "tracked b k = Some r" and room: "table_room b"
    and l: "side_levels (r_side r) b (r_price r) = Some l"
  obtains b' where "apply_event (cancel_event k) b = Some (kOk, b')" "book_wf b'"
    "tracked b' = (tracked b)(k := None)"
    "side_levels (r_side r) b' = (side_levels (r_side r) b)(r_price r :=
       (if PriceLevel_empty (remove_order (r_qty r) True l) then None else Some (remove_order (r_qty r) True l)))"
proof -
  obtain i where i: "FindOrder (ob_order_mask b) (ob_orders b) k = Some i" using find_book(2) [OF wf, of k] r by auto
  have r_i: "ob_orders b i = r" using find_book(1) [OF wf i] r by simp
  define b1 where "b1 = remove_level_qty (r_side r) (r_price r) (r_qty r) True b"
  have b1: "book_wf b1" "table_room b1" "tracked b1 = tracked b"
    using level_qty_wf(2) [OF wf] room by (simp_all add: b1_def)
  obtain t where t: "EraseOrder (ob_order_mask b1) (ob_orders b1) k = Some t" using erase_returns [OF b1(1,2)] .
  have "apply_event (cancel_event k) b = ApplyCancel (cancel_event k) b"
    using live by (simp add: apply_event_def check_seq_def dispatch_def cancel_event_def zero_event_def mtbt_codes)
  also have "\<dots> = Some (kOk, b1\<lparr>ob_orders := t\<rparr>)"
    using t i r_i by (simp add: ApplyCancel_def cancel_event_def zero_event_def b1_def Let_def)
  finally have run: "apply_event (cancel_event k) b = Some (kOk, b1\<lparr>ob_orders := t\<rparr>)" .
  have "side_of (r_side r) (b1\<lparr>ob_orders := t\<rparr>) =
      RemoveQtyFromLevel (sorts_before (r_side r)) (r_price r) (r_qty r) True (side_of (r_side r) b)"
    by (simp add: b1_def side_of_level_qty)
  then have "side_levels (r_side r) (b1\<lparr>ob_orders := t\<rparr>) = (side_levels (r_side r) b)(r_price r :=
       (if PriceLevel_empty (remove_order (r_qty r) True l) then None else Some (remove_order (r_qty r) True l)))"
    using lv.RemoveQty(2) [OF book_wfD(2) [OF wf], of "r_side r" "r_price r" "r_qty r" True] l by simp
  then show thesis using that run erase_book [OF b1(1) t] b1(3) by simp
qed

subsection \<open>Properties\<close>

text \<open>C1: the book implements its specification. Started empty and driven by any sequence of
  events that the book can follow (no order added twice while it is tracked, no negative
  quantity, a free slot in the order table and in the level arrays), the book returns from
  every event, tracks exactly the orders of the reference, and shows on both sides, at every
  price, exactly the level that the tracked orders and the last snapshot give: total quantity
  and number of orders, with no level where there is none. Gaps, stale periods, tick
  violations and unknown orders are steps of the reference.\<close>

theorem book_follows_feed:
  assumes "OrderBook_init token tick cap = Some b0"
    and "feed_ok (ob_order_mask b0 + 1) tick evs ref_init"
    and "s = ref_events tick evs ref_init"
  shows "\<exists>b. apply_events evs b0 = Some b \<and> tracked b = rf_orders s \<and> ob_stale b = rf_stale s \<and>
    side_levels kBuy b = ref_levels (rf_orders s) (rf_seed s) kBuy \<and>
    side_levels kSell b = ref_levels (rf_orders s) (rf_seed s) kSell"
  using apply_events_refine [OF init_wf(2) [OF assms(1)]] assms init_frame(1) [OF assms(1)]
  by (auto simp: book_ok_def levels_ok_def)

lemma example_init:
  "OrderBook_init 7 5 4 = Some \<lparr>ob_token = 7, ob_tick_size = 5, ob_order_mask = 3,
     ob_orders = (\<lambda>_. OrderRecord_default), ob_bids = (\<lambda>_. PriceLevel_default),
     ob_asks = (\<lambda>_. PriceLevel_default), ob_bid_count = 0, ob_ask_count = 0,
     ob_expected_seq = 0, ob_stale = False, ob_gap_count = 0\<rparr>"
  by (simp add: OrderBook_init_def RoundUpPow2_def RoundUpPow2_loop.simps)

lemma example_feed:
  "feed_ok 4 5 [add_event 1 100 10 kBuy, add_event 2 105 20 kBuy] ref_init"
  by (auto simp: followable_def ref_event_def ref_init_def ref_gap_def add_event_def zero_event_def ref_orders_def
      tick_ok_def mtbt_codes kMaxLevelsPerSide_def intro!: few_levels)

theorem book_follows_feed_witness:
  "\<exists>b0 b. OrderBook_init 7 5 4 = Some b0 \<and>
    feed_ok 4 5 [add_event 1 100 10 kBuy, add_event 2 105 20 kBuy] ref_init \<and>
    apply_events [add_event 1 100 10 kBuy, add_event 2 105 20 kBuy] b0 = Some b \<and>
    tracked b = [1 \<mapsto> added (add_event 1 100 10 kBuy), 2 \<mapsto> added (add_event 2 105 20 kBuy)]"
proof -
  have s: "rf_orders (ref_events 5 [add_event 1 100 10 kBuy, add_event 2 105 20 kBuy] ref_init) =
      [1 \<mapsto> added (add_event 1 100 10 kBuy), 2 \<mapsto> added (add_event 2 105 20 kBuy)]"
    by (simp add: ref_events_def ref_event_def ref_init_def ref_gap_def add_event_def zero_event_def
        ref_orders_def tick_ok_def mtbt_codes fun_upd_twist)
  show ?thesis
    using book_follows_feed [OF example_init _ refl, of "[add_event 1 100 10 kBuy, add_event 2 105 20 kBuy]"]
      example_init example_feed s by auto
qed

text \<open>C2: on every book that the public interface can produce, from any constructor arguments
  and after any events whatsoever, the bids are strictly descending and the asks strictly
  ascending, no side uses more than 256 levels, and every level in use has orders.\<close>

theorem book_levels_sorted:
  assumes "reach book_started book_step b"
  shows "(\<forall>j < ob_bid_count b. \<forall>i < j. pl_price (ob_bids b i) > pl_price (ob_bids b j)) \<and>
    (\<forall>j < ob_ask_count b. \<forall>i < j. pl_price (ob_asks b i) < pl_price (ob_asks b j)) \<and>
    ob_bid_count b \<le> 256 \<and> ob_ask_count b \<le> 256 \<and>
    (\<forall>i < ob_bid_count b. 0 < pl_order_count (ob_bids b i)) \<and>
    (\<forall>i < ob_ask_count b. 0 < pl_order_count (ob_asks b i))"
  using book_wfD(2) [OF bk.reach_inv [OF assms], of True] book_wfD(2) [OF bk.reach_inv [OF assms], of False]
  by (simp add: side_inv_def side_sorted_def side_of_def sorts_before_def kMaxLevelsPerSide_def)

theorem book_levels_sorted_witness:
  "\<exists>b. reach book_started book_step b \<and> ob_bid_count b = 1 \<and> 0 < pl_order_count (ob_bids b 0)"
proof -
  obtain b0 where b0: "OrderBook_init 7 5 4 = Some b0" using example_init by blast
  then have r: "reach book_started book_step b0"
    using reach_init [of book_started b0 book_step] unfolding book_started_def by blast
  let ?ev = "zero_event\<lparr>me_type := kSnapQuote, me_bid_price := 100, me_bid_qty := 3\<rparr>"
  have "apply_event ?ev b0 = Some (Seed ?ev b0)"
    by (simp add: apply_event_def check_seq_def dispatch_def zero_event_def)
  then have "reach book_started book_step (snd (Seed ?ev b0))"
    using reach_step [OF r step_event [of ?ev b0 "fst (Seed ?ev b0)" "snd (Seed ?ev b0)"]] by simp
  moreover have "ob_bid_count (snd (Seed ?ev b0)) = 1"
    using init_frame(1) [OF b0] by (simp add: Seed_def TickOk_def clear_def zero_event_def Let_def)
  ultimately show ?thesis using book_levels_sorted by force
qed

text \<open>C3: \<open>best_bid\<close> and \<open>best_ask\<close> are the top of the book the feed describes. They report
  nothing exactly when the side has neither orders nor a seeded level; otherwise the level
  reported carries the quantity of all orders at its price, and no order of that side is
  priced better.\<close>

theorem top_of_book:
  assumes "OrderBook_init token tick cap = Some b0"
    and "feed_ok (ob_order_mask b0 + 1) tick evs ref_init"
    and "apply_events evs b0 = Some b" and "s = ref_events tick evs ref_init"
  shows "(best side b = None \<longleftrightarrow> ref_levels (rf_orders s) (rf_seed s) side = Map.empty) \<and>
    (\<forall>l. best side b = Some l \<longrightarrow>
      pl_total_quantity l = seed_qty (rf_seed s) side (pl_price l) + orders_qty (rf_orders s) side (pl_price l) \<and>
      (\<forall>k r. rf_orders s k = Some r \<and> r_side r = side \<longrightarrow>
        (if side = kBuy then r_price r \<le> pl_price l else r_price r \<ge> pl_price l)))"
proof -
  have ok: "book_ok s b"
    using feed_book_ok [OF assms] .
  then have wf: "book_wf b" and lv: "side_levels side b = ref_levels (rf_orders s) (rf_seed s) side"
    by (auto simp: book_ok_def dest: levels_okD)
  have fin: "finite (dom (rf_orders s))" using tracked_finite [OF wf] ok by (simp add: book_ok_def)
  note top = best_levels [OF wf, of side, unfolded lv]
  have shown: "ref_levels (rf_orders s) (rf_seed s) side (r_price r) \<noteq> None"
    if "rf_orders s k = Some r" "r_side r = side" for k r
    using orders_split(1) [OF that(1) fin, of side "r_price r"] that by (simp add: ref_levels_def)
  have "if side = kBuy then r_price r \<le> pl_price l else r_price r \<ge> pl_price l"
    if "best side b = Some l" "rf_orders s k = Some r" "r_side r = side" for l k r
  proof -
    have "r_price r = pl_price l \<or> sorts_before side (pl_price l) (r_price r)"
      using top(2) [OF that(1)] shown [OF that(2,3)] by blast
    then show ?thesis by (auto simp: sorts_before_def split: if_splits)
  qed
  moreover have "pl_total_quantity l = seed_qty (rf_seed s) side (pl_price l) + orders_qty (rf_orders s) side (pl_price l)"
    if "best side b = Some l" for l
    using top(2) [OF that] ref_levels_qty by blast
  ultimately show ?thesis using top(1) by blast
qed

theorem top_of_book_witness:
  "let ev = zero_event\<lparr>me_type := kSnapQuote, me_bid_price := 100, me_bid_qty := 3\<rparr>
   in \<exists>b0 b l. OrderBook_init 7 5 4 = Some b0 \<and> feed_ok (ob_order_mask b0 + 1) 5 [ev] ref_init \<and>
     apply_events [ev] b0 = Some b \<and> best kBuy b = Some l \<and> pl_total_quantity l = 3"
proof -
  let ?ev = "zero_event\<lparr>me_type := kSnapQuote, me_bid_price := 100, me_bid_qty := 3\<rparr>"
  obtain b0 where b0: "OrderBook_init 7 5 4 = Some b0" using example_init by blast
  have feed: "feed_ok (ob_order_mask b0 + 1) 5 [?ev] ref_init" by (simp add: followable_def)
  have run: "apply_events [?ev] b0 = Some (snd (Seed ?ev b0))"
    by (simp add: apply_event_def check_seq_def dispatch_def zero_event_def split: prod.splits)
  have "best kBuy (snd (Seed ?ev b0)) = Some \<lparr>pl_price = 100, pl_total_quantity = 3, pl_order_count = 1\<rparr>"
    using init_frame(1) [OF b0] by (simp add: Seed_def TickOk_def clear_def zero_event_def Let_def best_def best_bid_def)
  then show ?thesis
    using top_of_book [OF b0 feed run refl, of kBuy] b0 feed run
    by (auto simp: Let_def ref_events_def ref_event_def snapshot_seed_def zero_event_def tick_ok_def seed_qty_def)
qed

text \<open>The quantity that \<open>displayed_qty_at\<close> reports at a price, which the backtest takes as
  the queue ahead of a new order, is the quantity of all tracked orders of that side and price
  plus the seeded quantity there.\<close>

theorem displayed_qty_exact:
  assumes "OrderBook_init token tick cap = Some b0"
    and "feed_ok (ob_order_mask b0 + 1) tick evs ref_init"
    and "apply_events evs b0 = Some b" and "s = ref_events tick evs ref_init"
  shows "displayed_qty_at side p b = seed_qty (rf_seed s) side p + orders_qty (rf_orders s) side p"
proof -
  have ok: "book_ok s b"
    using feed_book_ok [OF assms] .
  then have wf: "book_wf b" and lv: "side_levels side b = ref_levels (rf_orders s) (rf_seed s) side"
    by (auto simp: book_ok_def dest: levels_okD)
  have "finite (dom (rf_orders s))" using tracked_finite [OF wf] ok by (simp add: book_ok_def)
  then show ?thesis
    using displayed_levels [OF wf, of side p] orders_qty_empty [of "rf_orders s" side p] seed_qty_empty [of "rf_seed s" side p]
    by (simp add: lv ref_levels_def Let_def)
qed

theorem displayed_qty_exact_witness:
  "let ev = zero_event\<lparr>me_type := kSnapQuote, me_ask_price := 200, me_ask_qty := 8\<rparr>
   in \<exists>b0 b. OrderBook_init 7 5 4 = Some b0 \<and> feed_ok (ob_order_mask b0 + 1) 5 [ev] ref_init \<and>
     apply_events [ev] b0 = Some b \<and> displayed_qty_at kSell 200 b = 8 \<and> displayed_qty_at kSell 205 b = 0"
proof -
  let ?ev = "zero_event\<lparr>me_type := kSnapQuote, me_ask_price := 200, me_ask_qty := 8\<rparr>"
  obtain b0 where b0: "OrderBook_init 7 5 4 = Some b0" using example_init by blast
  have feed: "feed_ok (ob_order_mask b0 + 1) 5 [?ev] ref_init" by (simp add: followable_def)
  have run: "apply_events [?ev] b0 = Some (snd (Seed ?ev b0))"
    by (simp add: apply_event_def check_seq_def dispatch_def zero_event_def split: prod.splits)
  show ?thesis
    using displayed_qty_exact [OF b0 feed run refl, of kSell 200] displayed_qty_exact [OF b0 feed run refl, of kSell 205]
      b0 feed run
    by (auto simp: Let_def ref_events_def ref_event_def snapshot_seed_def zero_event_def tick_ok_def seed_qty_def
        orders_qty_def orders_at_def)
qed

text \<open>C3: on every reachable book whose order table has a free slot, \<open>apply_event\<close> returns,
  whatever the event.\<close>

theorem apply_event_terminates:
  assumes "reach book_started book_step b" and "\<exists>i \<le> ob_order_mask b. \<not> r_occupied (ob_orders b i)"
  shows "\<exists>res b'. apply_event ev b = Some (res, b')"
  using apply_event_returns [OF bk.reach_inv [OF assms(1)]] assms(2)
  by (auto simp: table_room_def full_def occ_def)

theorem apply_event_terminates_witness:
  "\<exists>b. reach book_started book_step b \<and> (\<exists>i \<le> ob_order_mask b. \<not> r_occupied (ob_orders b i)) \<and>
    (\<exists>res b'. apply_event (add_event 9 100 5 kSell) b = Some (res, b'))"
proof -
  obtain b0 where b0: "OrderBook_init 7 5 4 = Some b0" "\<not> r_occupied (ob_orders b0 0)"
    using example_init by (simp add: OrderRecord_default_def)
  then have r: "reach book_started book_step b0"
    using reach_init [of book_started b0 book_step] unfolding book_started_def by blast
  have free: "\<exists>i \<le> ob_order_mask b0. \<not> r_occupied (ob_orders b0 i)" using b0(2) by blast
  show ?thesis using r free apply_event_terminates [OF r free, of "add_event 9 100 5 kSell"] by blast
qed

text \<open>C4: a book that missed a message shows no update until it is re-seeded. While it is
  stale, every sequence of events without a snapshot leaves the tracked orders and both sides
  exactly as they were and the book stale; the next snapshot makes it live again with exactly
  the levels of the snapshot and no tracked order.\<close>

theorem stale_until_snapshot:
  assumes "reach book_started book_step b" and "ob_stale b"
    and "\<forall>ev \<in> set evs. me_type ev \<noteq> kSnapQuote" and "me_type q = kSnapQuote"
  shows "\<exists>b' b''. apply_events evs b = Some b' \<and> ob_stale b' \<and> ob_orders b' = ob_orders b \<and>
    side_of kBuy b' = side_of kBuy b \<and> side_of kSell b' = side_of kSell b \<and>
    apply_event q b' = Some (kSeeded, b'') \<and> \<not> ob_stale b'' \<and> tracked b'' = Map.empty \<and>
    side_levels kBuy b'' = ref_levels Map.empty (snapshot_seed (ob_tick_size b) q) kBuy \<and>
    side_levels kSell b'' = ref_levels Map.empty (snapshot_seed (ob_tick_size b) q) kSell"
proof -
  have "book_wf b" using bk.reach_inv [OF assms(1)] .
  then obtain b' where b': "apply_events evs b = Some b'" "ob_stale b'" "ob_orders b' = ob_orders b"
      "side_of True b' = side_of True b" "side_of False b' = side_of False b" "book_wf b'" "ob_tick_size b' = ob_tick_size b"
    using stale_events [OF assms(2,3)] by blast
  obtain g b1 where c: "check_seq q b' = (g, b1)" by (cases "check_seq q b'")
  have b1: "book_wf b1" "ob_tick_size b1 = ob_tick_size b" "\<not> g"
    using check_seq_wf(1) [of q b'] check_seq_frame(4) [of q b'] c b' assms(4)
    by (auto simp: check_seq_def split: if_splits)
  have "apply_event q b' = Some (kSeeded, snd (Seed q b1))"
    using assms(4) b1(3) by (simp add: apply_event_def c dispatch_def) (simp add: Seed_def Let_def)
  then show ?thesis
    using b' Seed_wf(2) [OF b1(1), of q] Seed_refines [OF b1(1), of q] b1(2) Seed_frame(4) [of q b1]
    by (auto simp: levels_ok_def)
qed

theorem stale_until_snapshot_witness:
  "\<exists>b b' b''. reach book_started book_step b \<and> ob_stale b \<and>
    apply_events [add_event 3 100 5 kBuy] b = Some b' \<and> ob_orders b' = ob_orders b \<and>
    apply_event (zero_event\<lparr>me_type := kSnapQuote\<rparr>) b' = Some (kSeeded, b'') \<and> \<not> ob_stale b''"
proof -
  obtain b0 where b0: "OrderBook_init 7 5 4 = Some b0" "ob_expected_seq b0 = 0" using example_init by simp
  then have r: "reach book_started book_step b0"
    using reach_init [of book_started b0 book_step] unfolding book_started_def by blast
  let ?h = "\<lambda>n. zero_event\<lparr>me_type := kHeartbeat, me_seq_no := n\<rparr>"
  define b1 where "b1 = b0\<lparr>ob_expected_seq := 2\<rparr>"
  define b2 where "b2 = b1\<lparr>ob_gap_count := ob_gap_count b1 + 1, ob_stale := True, ob_expected_seq := 6\<rparr>"
  have "apply_event (?h 1) b0 = Some (kOk, b1)"
    using b0(2) by (simp add: apply_event_def check_seq_def dispatch_def zero_event_def mtbt_codes b1_def)
  moreover have "apply_event (?h 5) b1 = Some (kGap, b2)"
    by (simp add: apply_event_def check_seq_def dispatch_def zero_event_def mtbt_codes b1_def b2_def)
  ultimately have b2: "reach book_started book_step b2" "ob_stale b2"
    using r by (auto intro: reach_step step_event simp: b2_def)
  have "\<forall>ev \<in> set [add_event 3 100 5 kBuy]. me_type ev \<noteq> kSnapQuote" by (simp add: add_event_def mtbt_codes)
  from stale_until_snapshot [OF b2 this, of "zero_event\<lparr>me_type := kSnapQuote\<rparr>"] b2
  show ?thesis by auto
qed

text \<open>An order number that is added twice is counted twice. The second addition overwrites
  the tracked record but adds its quantity to the level again, so that after the order is
  cancelled the book tracks nothing and still displays the quantity.\<close>

theorem duplicate_add_phantom:
  assumes "OrderBook_init token tick cap = Some b0" and "1 \<le> ob_order_mask b0" and "tick = 0 \<or> p smod tick = 0"
    and "0 \<le> q"
  shows "\<exists>b. apply_events [add_event k p q side, add_event k p q side, cancel_event k] b0 = Some b \<and>
      tracked b = Map.empty \<and> displayed_qty_at side p b = q"
proof -
  let ?r = "added (add_event k p q side)"
  have r: "r_side ?r = side" "r_price ?r = p" "r_qty ?r = q" by (simp_all add: added_def add_event_def)
  have ok0: "book_ok ref_init b0" using init_wf(2) [OF assms(1)] .
  have tr0: "tracked b0 = Map.empty" and wf0: "book_wf b0" and live0: "\<not> ob_stale b0"
    using ok0 by (simp_all add: book_ok_def ref_init_def)
  have tick0: "ob_tick_size b0 = 0 \<or> p smod ob_tick_size b0 = 0" using assms(3) init_frame(1) [OF assms(1)] by simp
  have lv0: "side_levels side b0 = Map.empty" "snd (side_of side b0) = 0"
    using assms(1) by (auto simp: OrderBook_init_def side_of_def lv.no_level split: option.splits)
  have "table_room b0" using room_card [OF wf0] tr0 by simp
  then obtain b1 where b1: "apply_event (add_event k p q side) b0 = Some (kOk, b1)" "book_wf b1" "fixed_part b1 = fixed_part b0"
      "tracked b1 = [k \<mapsto> ?r]" "side_levels side b1 = [p \<mapsto> \<lparr>pl_price = p, pl_total_quantity = q, pl_order_count = 1\<rparr>]"
    using add_event_run [OF wf0 live0 tick0, of k side q] tr0 lv0 by (auto simp: kMaxLevelsPerSide_def)
  obtain b2 where b2: "apply_event (add_event k p q side) b1 = Some (kOk, b2)" "book_wf b2" "fixed_part b2 = fixed_part b1"
      "tracked b2 = [k \<mapsto> ?r]" "side_levels side b2 = [p \<mapsto> \<lparr>pl_price = p, pl_total_quantity = q + q, pl_order_count = 2\<rparr>]"
    using add_event_run [OF b1(2), of p k side q] b1(3-5) live0 tick0 by (auto simp: fixed_part_def add_order_def)
  have "table_room b2" using room_card [OF b2(2)] b1(3) b2(3,4) assms(2) by (simp add: fixed_part_def)
  moreover have "\<not> ob_stale b2" using b1(3) b2(3) live0 by (simp add: fixed_part_def)
  moreover have "tracked b2 k = Some ?r" by (simp add: b2(4))
  ultimately obtain b3 where b3: "apply_event (cancel_event k) b2 = Some (kOk, b3)" "book_wf b3"
      "tracked b3 = (tracked b2)(k := None)"
      "side_levels side b3 = (side_levels side b2)(p := (let l = \<lparr>pl_price = p, pl_total_quantity = q + q, pl_order_count = 2\<rparr>
        in if PriceLevel_empty (remove_order q True l) then None else Some (remove_order q True l)))"
    using cancel_event_run [OF b2(2), of k ?r "\<lparr>pl_price = p, pl_total_quantity = q + q, pl_order_count = 2\<rparr>"]
    unfolding r Let_def b2(5) fun_upd_same by blast
  have "tracked b3 = Map.empty" by (simp add: b3(3) b2(4))
  moreover have "side_levels side b3 = [p \<mapsto> \<lparr>pl_price = p, pl_total_quantity = q, pl_order_count = 1\<rparr>]"
    using assms(4) by (simp add: b3(4) b2(5) remove_order_def PriceLevel_empty_def)
  ultimately
  show ?thesis using b1(1) b2(1) b3(1) displayed_levels [OF b3(2), of side p] by simp
qed

theorem duplicate_add_phantom_witness:
  "\<exists>b0 b. OrderBook_init 7 5 4 = Some b0 \<and>
    apply_events [add_event 1 100 10 kBuy, add_event 1 100 10 kBuy, cancel_event 1] b0 = Some b \<and>
    tracked b = Map.empty \<and> displayed_qty_at kBuy 100 b = 10"
  using duplicate_add_phantom [OF example_init, of 100 10 1 kBuy] example_init by auto

end
