(* ===== verification/Book_Manager.thy ===== *)
theory Book_Manager
  imports Order_Book
begin

text \<open>
  The book manager of \<^verbatim>\<open>src/order_book/book_manager.hpp\<close>: one order book per watched token in
  a flat array indexed by the token, and the routing of market events to it.

  The array of \<open>kMaxTokens\<close> owning pointers is a function to optional books. Operations that run
  code of a book that may fail to return yield an option.
\<close>

definition kMaxTokens :: nat where
  "kMaxTokens = 65536"

record BookManager =
  bm_slots :: "nat \<Rightarrow> OrderBook option"
  bm_watched :: nat

definition BookManager_init :: BookManager where
  "BookManager_init = \<lparr>bm_slots = (\<lambda>_. None), bm_watched = 0\<rparr>"

text \<open>The returned pointer is null or that of the token's book: a flag.\<close>

definition add_token :: "Token \<Rightarrow> Price \<Rightarrow> u64 \<Rightarrow> BookManager \<Rightarrow> (bool \<times> BookManager) option" where
  "add_token token tick_size order_capacity m =
     (if unat token \<ge> kMaxTokens then Some (False, m)
      else case bm_slots m (unat token) of
             None \<Rightarrow> (case OrderBook_init token tick_size order_capacity of
                        None \<Rightarrow> None
                      | Some b \<Rightarrow> Some (True, m\<lparr>bm_slots := (bm_slots m)(unat token \<mapsto> b),
                                                bm_watched := bm_watched m + 1\<rparr>))
           | Some b \<Rightarrow> Some (True, m\<lparr>bm_slots := (bm_slots m)(unat token \<mapsto> set_tick_size tick_size b)\<rparr>))"

definition get_book :: "Token \<Rightarrow> BookManager \<Rightarrow> OrderBook option" where
  "get_book token m = (if unat token \<ge> kMaxTokens then None else bm_slots m (unat token))"

definition route :: "MarketEvent \<Rightarrow> BookManager \<Rightarrow> (BookResult \<times> BookManager) option" where
  "route ev m =
     (case get_book (me_token ev) m of
        None \<Rightarrow> Some (kOk, m)
      | Some b \<Rightarrow> (case apply_event ev b of None \<Rightarrow> None
                  | Some (res, b') \<Rightarrow> Some (res, m\<lparr>bm_slots := (bm_slots m)(unat (me_token ev) \<mapsto> b')\<rparr>)))"

fun route_all :: "MarketEvent list \<Rightarrow> BookManager \<Rightarrow> BookManager option" where
  "route_all [] m = Some m"
| "route_all (ev # evs) m = (case route ev m of None \<Rightarrow> None | Some (_, m') \<Rightarrow> route_all evs m')"

subsection \<open>Lookups after the operations\<close>

lemma get_book_upd:
  assumes "unat t < kMaxTokens"
  shows "get_book u (m\<lparr>bm_slots := (bm_slots m)(unat t \<mapsto> b)\<rparr>) = (if u = t then Some b else get_book u m)"
  using assms by (auto simp: get_book_def word_unat_eq_iff)

lemma route_get_book:
  assumes "route ev m = Some (res, m')"
  shows "get_book t m' = (if t = me_token ev
    then (case get_book t m of None \<Rightarrow> None | Some b \<Rightarrow> map_option snd (apply_event ev b))
    else get_book t m)"
proof (cases "get_book (me_token ev) m")
  case None
  then show ?thesis using assms by (auto simp: route_def)
next
  case (Some b)
  then have lt: "unat (me_token ev) < kMaxTokens" by (auto simp: get_book_def split: if_splits)
  obtain b' where b': "apply_event ev b = Some (res, b')"
      "m' = m\<lparr>bm_slots := (bm_slots m)(unat (me_token ev) \<mapsto> b')\<rparr>"
    using assms Some by (auto simp: route_def split: option.splits)
  show ?thesis using get_book_upd [OF lt, of t m b'] Some b' by auto
qed

lemma route_all_get_book:
  "route_all evs m = Some m' \<Longrightarrow> get_book t m' =
    (case get_book t m of None \<Rightarrow> None | Some b \<Rightarrow> apply_events (filter (\<lambda>ev. me_token ev = t) evs) b)"
proof (induction evs arbitrary: m)
  case Nil
  then show ?case by (simp split: option.splits)
next
  case (Cons ev evs)
  then obtain res m1 where m1: "route ev m = Some (res, m1)" "route_all evs m1 = Some m'"
    by (auto split: option.splits)
  show ?case
    using Cons.IH [OF m1(2)] route_get_book [OF m1(1), of t] m1(1)
    by (auto simp: route_def split: option.splits)
qed

lemma route_all_returns:
  assumes "\<And>t b. get_book t m = Some b \<Longrightarrow> apply_events (filter (\<lambda>ev. me_token ev = t) evs) b \<noteq> None"
  shows "\<exists>m'. route_all evs m = Some m'"
  using assms
proof (induction evs arbitrary: m)
  case (Cons ev evs)
  have "\<exists>res m1. route ev m = Some (res, m1)"
    using Cons.prems [of "me_token ev"] by (auto simp: route_def split: option.splits)
  then obtain res m1 where m1: "route ev m = Some (res, m1)" by blast
  have "apply_events (filter (\<lambda>ev. me_token ev = t) evs) b \<noteq> None" if hit: "get_book t m1 = Some b" for t b
  proof (cases "t = me_token ev")
    case True
    then obtain b0 where b0: "get_book t m = Some b0" "Some b = map_option snd (apply_event ev b0)"
      using hit route_get_book [OF m1, of t] by (cases "get_book t m") (simp_all del: map_option_eq_Some)
    then show ?thesis using Cons.prems [of t b0] True by (auto split: option.splits)
  next
    case False
    then show ?thesis using hit Cons.prems [of t b] route_get_book [OF m1, of t] by simp
  qed
  from Cons.IH [OF this] show ?case using m1 by auto
qed simp

lemma route_all_watched: "route_all evs m = Some m' \<Longrightarrow> get_book t m \<noteq> None \<Longrightarrow> get_book t m' \<noteq> None"
proof (induction evs arbitrary: m)
  case (Cons ev evs)
  then obtain res m1 where m1: "route ev m = Some (res, m1)" "route_all evs m1 = Some m'"
    by (auto split: option.splits)
  have "get_book t m1 \<noteq> None"
    using route_get_book [OF m1(1), of t] m1(1) Cons.prems(2) by (auto simp: route_def split: option.splits)
  then show ?case using Cons.IH [OF m1(2)] by simp
qed simp

text \<open>The expected sequence number after an event that is not a snapshot.\<close>

lemma apply_event_expected:
  assumes "apply_event ev b = Some (res, b')" "me_type ev \<noteq> kSnapQuote" "me_seq_no ev \<noteq> 0"
  shows "ob_expected_seq b' = me_seq_no ev + 1"
proof -
  obtain g b1 where c: "check_seq ev b = (g, b1)" by (cases "check_seq ev b")
  have "ob_expected_seq b1 = me_seq_no ev + 1" using c assms(3) by (auto simp: check_seq_def split: if_splits)
  moreover have "fixed_part b' = fixed_part b1"
    using assms(1,2) handler_frames [of ev b1] c
    by (auto simp: apply_event_def dispatch_def split: if_splits)
  ultimately show ?thesis by (simp add: fixed_part_def)
qed

subsection \<open>Properties\<close>

text \<open>C5: routing splits the feed by token. After any sequence of events the book of every
  watched token is the one it would be had it seen its own events alone, in order; tokens that
  are not watched stay unwatched and their events are ignored; and the whole sequence is
  processed whenever every book returns from its own events.\<close>

theorem route_by_token:
  assumes "\<forall>t b. get_book t m = Some b \<longrightarrow> apply_events (filter (\<lambda>ev. me_token ev = t) evs) b \<noteq> None"
  shows "\<exists>m'. route_all evs m = Some m' \<and>
    (\<forall>t. get_book t m' = (case get_book t m of None \<Rightarrow> None
       | Some b \<Rightarrow> apply_events (filter (\<lambda>ev. me_token ev = t) evs) b))"
  using route_all_returns [of m evs] route_all_get_book assms by blast

text \<open>Two watched tokens whose orders arrive interleaved with those of a third one.\<close>

definition for_token :: "Token \<Rightarrow> MarketEvent \<Rightarrow> MarketEvent" where
  "for_token t ev = ev\<lparr>me_token := t\<rparr>"

definition example_stream :: "MarketEvent list" where
  "example_stream = [for_token 7 (add_event 1 100 10 kBuy), for_token 8 (add_event 2 110 30 kSell),
     for_token 9 (add_event 3 100 10 kBuy), for_token 7 (add_event 4 105 20 kBuy)]"

lemma example_split:
  "filter (\<lambda>ev. me_token ev = 7) example_stream = [for_token 7 (add_event 1 100 10 kBuy), for_token 7 (add_event 4 105 20 kBuy)]"
  "filter (\<lambda>ev. me_token ev = 8) example_stream = [for_token 8 (add_event 2 110 30 kSell)]"
  by (simp_all add: example_stream_def for_token_def)

lemma for_token_feed:
  "feed_ok 4 5 [for_token t (add_event 1 100 10 kBuy), for_token t (add_event 4 105 20 kBuy)] ref_init"
  "feed_ok 4 5 [for_token t (add_event 2 110 30 kSell)] ref_init"
  by (auto simp: for_token_def followable_def ref_event_def ref_init_def ref_gap_def add_event_def zero_event_def ref_orders_def
      tick_ok_def mtbt_codes kMaxLevelsPerSide_def intro!: few_levels)

lemma for_token_orders:
  "rf_orders (ref_events 5 [for_token t (add_event 1 100 10 kBuy), for_token t (add_event 4 105 20 kBuy)] ref_init) =
      [1 \<mapsto> added (add_event 1 100 10 kBuy), 4 \<mapsto> added (add_event 4 105 20 kBuy)]"
  "rf_orders (ref_events 5 [for_token t (add_event 2 110 30 kSell)] ref_init) = [2 \<mapsto> added (add_event 2 110 30 kSell)]"
  by (simp_all add: for_token_def ref_events_def ref_event_def ref_init_def ref_gap_def add_event_def zero_event_def
      ref_orders_def tick_ok_def mtbt_codes fun_upd_twist added_def)

lemma example_init_at: "\<exists>b. OrderBook_init t 5 4 = Some b \<and> ob_order_mask b = 3"
  by (simp add: OrderBook_init_def RoundUpPow2_def RoundUpPow2_loop.simps)

lemma example_tracks:
  assumes "OrderBook_init t 5 4 = Some b" "ob_order_mask b = 3"
  shows "\<exists>b'. apply_events [for_token u (add_event 1 100 10 kBuy), for_token u (add_event 4 105 20 kBuy)] b = Some b'
      \<and> tracked b' = [1 \<mapsto> added (add_event 1 100 10 kBuy), 4 \<mapsto> added (add_event 4 105 20 kBuy)]"
    and "\<exists>b'. apply_events [for_token u (add_event 2 110 30 kSell)] b = Some b' \<and> tracked b' = [2 \<mapsto> added (add_event 2 110 30 kSell)]"
proof -
  have tick: "ob_tick_size b = 5" by (rule init_frame(1) [OF assms(1)])
  note r = apply_events_refine [OF init_wf(2) [OF assms(1)], unfolded assms(2) tick]
  show "\<exists>b'. apply_events [for_token u (add_event 1 100 10 kBuy), for_token u (add_event 4 105 20 kBuy)] b = Some b'
      \<and> tracked b' = [1 \<mapsto> added (add_event 1 100 10 kBuy), 4 \<mapsto> added (add_event 4 105 20 kBuy)]"
    using r [of "[for_token u (add_event 1 100 10 kBuy), for_token u (add_event 4 105 20 kBuy)]"] for_token_feed(1) [of u]
    by (auto simp: book_ok_def for_token_orders simp del: apply_events.simps)
  show "\<exists>b'. apply_events [for_token u (add_event 2 110 30 kSell)] b = Some b' \<and> tracked b' = [2 \<mapsto> added (add_event 2 110 30 kSell)]"
    using r [of "[for_token u (add_event 2 110 30 kSell)]"] for_token_feed(2) [of u]
    by (auto simp: book_ok_def for_token_orders simp del: apply_events.simps)
qed

theorem route_by_token_witness:
  "\<exists>m0 m m' b7 b8. add_token 7 5 4 BookManager_init = Some (True, m0) \<and> add_token 8 5 4 m0 = Some (True, m) \<and>
    route_all example_stream m = Some m' \<and> get_book 9 m' = None \<and>
    get_book 7 m' = Some b7 \<and> tracked b7 = [1 \<mapsto> added (add_event 1 100 10 kBuy), 4 \<mapsto> added (add_event 4 105 20 kBuy)] \<and>
    get_book 8 m' = Some b8 \<and> tracked b8 = [2 \<mapsto> added (add_event 2 110 30 kSell)]"
proof -
  obtain c7 c8 where c: "OrderBook_init 7 5 4 = Some c7" "ob_order_mask c7 = 3" "OrderBook_init 8 5 4 = Some c8" "ob_order_mask c8 = 3"
    using example_init_at by blast
  define m0 where "m0 = BookManager_init\<lparr>bm_slots := [7 \<mapsto> c7], bm_watched := 1\<rparr>"
  define m where "m = m0\<lparr>bm_slots := [7 \<mapsto> c7, 8 \<mapsto> c8], bm_watched := 2\<rparr>"
  have add: "add_token 7 5 4 BookManager_init = Some (True, m0)" "add_token 8 5 4 m0 = Some (True, m)"
    using c by (simp_all add: add_token_def BookManager_init_def kMaxTokens_def m0_def m_def)
  have get: "get_book t m = (if t = 7 then Some c7 else if t = 8 then Some c8 else None)" for t
    by (auto simp: get_book_def m_def kMaxTokens_def word_unat_eq_iff)
  obtain b7 b8 where b: "apply_events (filter (\<lambda>ev. me_token ev = 7) example_stream) c7 = Some b7"
      "tracked b7 = [1 \<mapsto> added (add_event 1 100 10 kBuy), 4 \<mapsto> added (add_event 4 105 20 kBuy)]"
      "apply_events (filter (\<lambda>ev. me_token ev = 8) example_stream) c8 = Some b8" "tracked b8 = [2 \<mapsto> added (add_event 2 110 30 kSell)]"
    unfolding example_split using example_tracks(1) [OF c(1,2)] example_tracks(2) [OF c(3,4)] by blast
  have "\<forall>t b. get_book t m = Some b \<longrightarrow> apply_events (filter (\<lambda>ev. me_token ev = t) example_stream) b \<noteq> None"
    using b by (auto simp: get)
  from route_by_token [OF this] obtain m' where m': "route_all example_stream m = Some m'"
      "\<forall>t. get_book t m' = (case get_book t m of None \<Rightarrow> None
         | Some b \<Rightarrow> apply_events (filter (\<lambda>ev. me_token ev = t) example_stream) b)" by blast
  have "get_book 7 m' = Some b7" "get_book 8 m' = Some b8" "get_book 9 m' = None" using m'(2) b by (simp_all add: get)
  then show ?thesis using add m'(1) b(2,4) by blast
qed

text \<open>The book checks the stream's sequence numbers as if they were its own. When two
  tokens share a stream, a watched book that receives two consecutive numbers of the stream
  only for itself goes stale although the stream has no gap.\<close>

theorem interleaved_stream_stale:
  assumes "get_book a m = Some b" and "route_all [e1, e2, e3] m = Some m'"
    and "me_token e1 = a" "me_token e2 \<noteq> a" "me_token e3 = a"
    and "me_seq_no e2 = me_seq_no e1 + 1" "me_seq_no e3 = me_seq_no e2 + 1"
    and "me_seq_no e1 \<noteq> 0" "me_seq_no e2 \<noteq> 0" "me_seq_no e3 \<noteq> 0"
    and "me_type e1 \<noteq> kSnapQuote" "me_type e3 \<noteq> kSnapQuote"
  shows "\<exists>b'. get_book a m' = Some b' \<and> ob_stale b'"
proof -
  have "get_book a m' = apply_events [e1, e3] b"
    using route_all_get_book [OF assms(2), of a] assms(1,3-5) by simp
  moreover have "get_book a m' \<noteq> None"
    using route_all_watched [OF assms(2), of a] assms(1) by simp
  ultimately obtain res1 b1 res3 b3 where b: "apply_event e1 b = Some (res1, b1)" "apply_event e3 b1 = Some (res3, b3)"
      "get_book a m' = Some b3" by (auto split: option.splits)
  have "ob_expected_seq b1 = me_seq_no e2" using apply_event_expected [OF b(1)] assms(6,8,11) by simp
  then have "ob_stale b3" using b(2) assms(7,9,10,12) by (auto simp: apply_event_def check_seq_def)
  then show ?thesis using b(3) by blast
qed

theorem interleaved_stream_stale_witness:
  "let h = (\<lambda>t n. zero_event\<lparr>me_type := kHeartbeat, me_token := t, me_seq_no := n\<rparr>)
   in \<exists>m m' b'. add_token 7 5 4 BookManager_init = Some (True, m) \<and>
     route_all [h 7 1, h 8 2, h 7 3] m = Some m' \<and> get_book 7 m' = Some b' \<and> ob_stale b'"
proof -
  let ?h = "\<lambda>t n. zero_event\<lparr>me_type := kHeartbeat, me_token := t, me_seq_no := n\<rparr>"
  obtain b where b: "OrderBook_init 7 5 4 = Some b" using example_init by blast
  define m where "m = BookManager_init\<lparr>bm_slots := [7 \<mapsto> b], bm_watched := 1\<rparr>"
  have add: "add_token 7 5 4 BookManager_init = Some (True, m)"
    using b by (simp add: add_token_def BookManager_init_def kMaxTokens_def m_def)
  have get: "get_book t m = (if t = 7 then Some b else None)" for t
    by (auto simp: get_book_def m_def kMaxTokens_def word_unat_eq_iff)
  have "apply_event (?h t n) c \<noteq> None" for t n c
    by (simp add: apply_event_def check_seq_def dispatch_def zero_event_def mtbt_codes)
  then have "apply_events [?h 7 1, ?h 7 3] c \<noteq> None" for c
    by (simp del: not_None_eq split: option.split prod.split)
  moreover have "filter (\<lambda>ev. me_token ev = 7) [?h 7 1, ?h 8 2, ?h 7 3] = [?h 7 1, ?h 7 3]" by simp
  ultimately have "apply_events (filter (\<lambda>ev. me_token ev = t) [?h 7 1, ?h 8 2, ?h 7 3]) c \<noteq> None"
    if "get_book t m = Some c" for t c using that get [of t] by (metis option.distinct(1))
  from route_all_returns [OF this] obtain m' where run: "route_all [?h 7 1, ?h 8 2, ?h 7 3] m = Some m'" by blast
  show ?thesis
    using interleaved_stream_stale [of 7 m b, OF _ run] get add run by (auto simp: zero_event_def mtbt_codes Let_def)
qed

end
