(* ===== verification/Byte_Codec.thy ===== *)
theory Byte_Codec
  imports Types
begin

text \<open>
  Little-endian loads and stores: \<open>load_le\<close>, \<open>load_le_i32\<close> and \<open>load_le_i64\<close> of
  \<^verbatim>\<open>src/feed_handler/mtbt_parser.hpp\<close>, \<open>PutLe\<close> of \<^verbatim>\<open>src/sim/mtbt_generator.hpp\<close> and
  \<open>store_le\<close> of \<^verbatim>\<open>src/order_manager/nnf_encoder.hpp\<close>.

  A buffer is a byte list. A load names the buffer and an offset and is \<open>None\<close> when it would
  read outside the buffer; a store overwrites bytes in place and is \<open>None\<close> when it would write
  outside. The locale \<open>field_codec\<close> is the interface between the encoders and the decoders: a
  field of fixed width that is read back as it was written. It is interpreted for every field
  type the wire formats use.
\<close>

subsection \<open>Loads\<close>

primrec load_bytes :: "nat \<Rightarrow> u8 list \<Rightarrow> nat \<Rightarrow> u64" where
  "load_bytes 0 p off = 0"
| "load_bytes (Suc i) p off = load_bytes i p off OR push_bit (8 * i) (ucast (p ! (off + i)))"

definition load_le :: "nat \<Rightarrow> u8 list \<Rightarrow> nat \<Rightarrow> u64 option" where
  "load_le n p off = (if off + n \<le> length p then Some (load_bytes n p off) else None)"

definition load_le_u8 :: "u8 list \<Rightarrow> nat \<Rightarrow> u8 option" where
  "load_le_u8 p off = map_option ucast (load_le 1 p off)"

definition load_le_u16 :: "u8 list \<Rightarrow> nat \<Rightarrow> u16 option" where
  "load_le_u16 p off = map_option ucast (load_le 2 p off)"

definition load_le_u32 :: "u8 list \<Rightarrow> nat \<Rightarrow> u32 option" where
  "load_le_u32 p off = map_option ucast (load_le 4 p off)"

definition load_le_u64 :: "u8 list \<Rightarrow> nat \<Rightarrow> u64 option" where
  "load_le_u64 p off = load_le 8 p off"

definition load_le_i32 :: "u8 list \<Rightarrow> nat \<Rightarrow> int option" where
  "load_le_i32 p off = map_option sint (load_le_u32 p off)"

text \<open>The signed 16-bit load is the receiver's side of the order messages.\<close>

definition load_le_i16 :: "u8 list \<Rightarrow> nat \<Rightarrow> int option" where
  "load_le_i16 p off = map_option sint (load_le_u16 p off)"

definition load_le_i64 :: "u8 list \<Rightarrow> nat \<Rightarrow> int option" where
  "load_le_i64 p off = map_option sint (load_le_u64 p off)"

subsection \<open>Stores\<close>

text \<open>\<open>le_bytes n u\<close>: the bytes that both \<open>PutLe\<close> and \<open>store_le\<close> produce for a value of \<open>n\<close>
  bytes converted to \<open>uint64_t\<close>.\<close>

definition le_bytes :: "nat \<Rightarrow> u64 \<Rightarrow> u8 list" where
  "le_bytes n u = map (\<lambda>i. ucast (drop_bit (8 * i) u AND 0xFF)) [0..<n]"

definition PutLe_u8 :: "u8 \<Rightarrow> u8 list" where "PutLe_u8 v = le_bytes 1 (ucast v)"
definition PutLe_u16 :: "u16 \<Rightarrow> u8 list" where "PutLe_u16 v = le_bytes 2 (ucast v)"
definition PutLe_u32 :: "u32 \<Rightarrow> u8 list" where "PutLe_u32 v = le_bytes 4 (ucast v)"
definition PutLe_u64 :: "u64 \<Rightarrow> u8 list" where "PutLe_u64 v = le_bytes 8 v"
definition PutLe_i16 :: "int \<Rightarrow> u8 list" where "PutLe_i16 v = le_bytes 2 (ucast (word_of_int v :: u16))"
definition PutLe_i32 :: "int \<Rightarrow> u8 list" where "PutLe_i32 v = le_bytes 4 (ucast (word_of_int v :: u32))"
definition PutLe_i64 :: "int \<Rightarrow> u8 list" where "PutLe_i64 v = le_bytes 8 (word_of_int v)"

definition write_at :: "nat \<Rightarrow> u8 list \<Rightarrow> u8 list \<Rightarrow> u8 list option" where
  "write_at off bs buf =
     (if off + length bs \<le> length buf then Some (take off buf @ bs @ drop (off + length bs) buf) else None)"

subsection \<open>Bits of a load\<close>

lemma length_le_bytes [simp]: "length (le_bytes n u) = n"
  by (simp add: le_bytes_def)

lemma length_PutLe [simp]:
  "length (PutLe_u8 a) = 1" "length (PutLe_u16 b) = 2" "length (PutLe_u32 c) = 4" "length (PutLe_u64 d) = 8"
  "length (PutLe_i16 e) = 2" "length (PutLe_i32 f) = 4" "length (PutLe_i64 g) = 8"
  by (simp_all add: PutLe_u8_def PutLe_u16_def PutLe_u32_def PutLe_u64_def PutLe_i16_def PutLe_i32_def PutLe_i64_def)

lemma bit_load_bytes:
  "n \<le> 8 \<Longrightarrow> bit (load_bytes n p off) j \<longleftrightarrow> j < 8 * n \<and> bit (p ! (off + j div 8)) (j mod 8)"
proof (induction n)
  case (Suc n)
  show ?case
  proof (cases "8 * n \<le> j \<and> j < 8 * Suc n")
    case True
    then have "j div 8 = n" "j mod 8 = j - 8 * n" by (auto simp: div_nat_eqI minus_div_mult_eq_mod [symmetric])
    moreover from True have "j - 8 * n < 64" by auto
    ultimately show ?thesis using True Suc by (simp add: bit_or_iff bit_push_bit_iff bit_ucast_iff)
  next
    case False
    then show ?thesis using Suc
      by (auto simp: bit_or_iff bit_push_bit_iff bit_ucast_iff dest: bit_imp_le_length)
  qed
qed simp

lemma load_le_bytes:
  assumes "n \<le> 8"
  shows "load_bytes n (pre @ le_bytes n u @ post) (length pre) = take_bit (8 * n) u"
proof (rule bit_word_eqI)
  fix j assume "j < LENGTH(64)"
  show "bit (load_bytes n (pre @ le_bytes n u @ post) (length pre)) j \<longleftrightarrow> bit (take_bit (8 * n) u) j"
  proof (cases "j < 8 * n")
    case True
    then have d: "j div 8 < n" by (simp add: less_mult_imp_div_less mult.commute)
    have "(pre @ le_bytes n u @ post) ! (length pre + j div 8) = ucast (drop_bit (8 * (j div 8)) u AND 0xFF)"
      using d by (simp add: nth_append le_bytes_def)
    moreover have "bit (0xFF :: u64) (j mod 8)"
      using bit_mask_iff [of 8 "j mod 8", where 'a = "64 word"] by (simp add: mask_eq_exp_minus_1)
    ultimately show ?thesis
      using True assms by (simp add: bit_load_bytes bit_take_bit_iff bit_ucast_iff bit_and_iff bit_drop_bit_eq)
  next
    case False
    then show ?thesis using assms by (simp add: bit_load_bytes bit_take_bit_iff)
  qed
qed

lemma load_bytes_cong:
  "(\<And>i. i < n \<Longrightarrow> p ! (off + i) = q ! (off' + i)) \<Longrightarrow> load_bytes n p off = load_bytes n q off'"
  by (induction n) simp_all

lemma load_le_local:
  assumes "take n (drop off p) = take n (drop off' q)" "off + n \<le> length p" "off' + n \<le> length q"
  shows "load_le n p off = load_le n q off'"
proof -
  have "p ! (off + i) = q ! (off' + i)" if "i < n" for i
    using arg_cong [OF assms(1), of "\<lambda>xs. xs ! i"] that assms(2,3) by simp
  then show ?thesis using assms(2,3) load_bytes_cong [of n p off q off'] by (simp add: load_le_def)
qed

lemma load_le_None: "load_le n p off = None \<longleftrightarrow> length p < off + n"
  by (auto simp: load_le_def)

lemma load_le_le_bytes: "n \<le> 8 \<Longrightarrow> load_le n (le_bytes n u) 0 = Some (take_bit (8 * n) u)"
  using load_le_bytes [of n "[]" u "[]"] by (simp add: load_le_def)

subsection \<open>Fields\<close>

locale field_codec =
  fixes width :: nat and put :: "'a \<Rightarrow> u8 list" and get :: "u8 list \<Rightarrow> nat \<Rightarrow> 'a option" and ok :: "'a \<Rightarrow> bool"
  assumes put_length: "length (put v) = width"
    and get_put: "ok v \<Longrightarrow> get (put v) 0 = Some v"
    and get_None: "get p off = None \<longleftrightarrow> length p < off + width"
    and get_local: "take width (drop off p) = take width (drop off' q) \<Longrightarrow> off + width \<le> length p \<Longrightarrow>
      off' + width \<le> length q \<Longrightarrow> get p off = get q off'"
begin

lemma get_skip: "length xs \<le> off \<Longrightarrow> get (xs @ ys) off = get ys (off - length xs)"
proof (cases "off + width \<le> length (xs @ ys)")
  case True
  assume "length xs \<le> off"
  with True show ?thesis by (intro get_local) auto
next
  case False
  assume "length xs \<le> off"
  with False have "get (xs @ ys) off = None" "get ys (off - length xs) = None" by (auto simp: get_None)
  then show ?thesis by simp
qed

lemma get_Cons: "0 < off \<Longrightarrow> get (x # ys) off = get ys (off - 1)"
  using get_skip [of "[x]" off ys] by simp

lemma get_take: "off + width \<le> m \<Longrightarrow> get (take m p) off = get p off"
proof (cases "off + width \<le> length p")
  case True
  assume "off + width \<le> m"
  with True show ?thesis by (intro get_local) (auto simp: drop_take min_def)
next
  case False
  then have "get (take m p) off = None" "get p off = None" by (auto simp: get_None)
  then show ?thesis by simp
qed

lemma get_here: "ok v \<Longrightarrow> get (put v @ ys) 0 = Some v"
  using get_local [of 0 "put v @ ys" 0 "put v"] get_put [of v] put_length [of v] by simp

lemma get_written: "write_at off (put v) buf = Some buf' \<Longrightarrow> ok v \<Longrightarrow> get buf' off = Some v"
  using get_skip [of "take off buf" off "put v @ drop (off + length (put v)) buf"] get_here [of v]
  by (auto simp: write_at_def split: if_splits)

lemma get_unwritten:
  assumes "write_at off' bs buf = Some buf'" "off + width \<le> off' \<or> off' + length bs \<le> off"
  shows "get buf' off = get buf off"
proof (cases "off + width \<le> length buf")
  case True
  have len: "length buf' = length buf" and buf': "buf' = take off' buf @ bs @ drop (off' + length bs) buf"
      "off' + length bs \<le> length buf"
    using assms(1) by (auto simp: write_at_def split: if_splits)
  have "take width (drop off buf') = take width (drop off buf)"
  proof (rule nth_equalityI)
    fix i assume "i < length (take width (drop off buf'))"
    then have i: "i < width" "off + i < length buf" using True len by auto
    have "buf' ! (off + i) = buf ! (off + i)"
    proof (cases "off + i < off'")
      case True
      then show ?thesis using buf' by (simp add: nth_append)
    next
      case False
      then have "off' + length bs \<le> off + i" using assms(2) i(1) by linarith
      then show ?thesis using buf' i(2) by (auto simp: nth_append)
    qed
    then show "take width (drop off buf') ! i = take width (drop off buf) ! i" using i len by simp
  qed (use True len in simp)
  then show ?thesis using True len by (intro get_local) simp_all
next
  case False
  have "length buf' = length buf" using assms(1) by (auto simp: write_at_def split: if_splits)
  with False have "get buf' off = None" "get buf off = None" by (simp_all add: get_None)
  then show ?thesis by simp
qed

end

lemma map_load_local:
  "take n (drop off p) = take n (drop off' q) \<Longrightarrow> off + n \<le> length p \<Longrightarrow> off' + n \<le> length q \<Longrightarrow>
    map_option f (load_le n p off) = map_option f (load_le n q off')"
  using load_le_local [of n off p off' q] by simp

lemma ucast_narrow:
  "LENGTH('a::len) \<le> 64 \<Longrightarrow> (ucast (take_bit LENGTH('a) (ucast (w :: 'a word) :: u64)) :: 'a word) = w"
  by (rule bit_word_eqI) (simp add: bit_simps)

lemmas ucast_back [simp] = ucast_narrow [where 'a = 8, simplified] ucast_narrow [where 'a = 16, simplified]
  ucast_narrow [where 'a = 32, simplified]

lemma take_bit_u64 [simp]: "take_bit 64 (w :: u64) = w"
  by (simp add: take_bit_word_eq_self)

lemma sint_word_of_int_i16: "in_i16 v \<Longrightarrow> sint (word_of_int v :: u16) = v"
  using to_i16_id [of v] by (simp add: sint_sbintrunc' to_i16_def)

lemma sint_word_of_int_i32: "in_i32 v \<Longrightarrow> sint (word_of_int v :: u32) = v"
  using to_i32_id [of v] by (simp add: sint_sbintrunc' to_i32_def)

lemma sint_word_of_int_i64: "in_i64 v \<Longrightarrow> sint (word_of_int v :: u64) = v"
  using to_i64_id [of v] by (simp add: sint_sbintrunc' to_i64_def)

interpretation f_u8: field_codec 1 PutLe_u8 load_le_u8 "\<lambda>_. True"
proof (unfold_locales, goal_cases)
  case (2 v)
  show ?case by (simp add: load_le_u8_def PutLe_u8_def load_le_le_bytes)
next
  case (4 off p off' q)
  then show ?case unfolding load_le_u8_def by (rule map_load_local)
qed (simp_all add: load_le_u8_def load_le_None)

interpretation f_u16: field_codec 2 PutLe_u16 load_le_u16 "\<lambda>_. True"
proof (unfold_locales, goal_cases)
  case (2 v)
  show ?case by (simp add: load_le_u16_def PutLe_u16_def load_le_le_bytes)
next
  case (4 off p off' q)
  then show ?case unfolding load_le_u16_def by (rule map_load_local)
qed (simp_all add: load_le_u16_def load_le_None)

interpretation f_u32: field_codec 4 PutLe_u32 load_le_u32 "\<lambda>_. True"
proof (unfold_locales, goal_cases)
  case (2 v)
  show ?case by (simp add: load_le_u32_def PutLe_u32_def load_le_le_bytes)
next
  case (4 off p off' q)
  then show ?case unfolding load_le_u32_def by (rule map_load_local)
qed (simp_all add: load_le_u32_def load_le_None)

interpretation f_u64: field_codec 8 PutLe_u64 load_le_u64 "\<lambda>_. True"
proof (unfold_locales, goal_cases)
  case (2 v)
  show ?case by (simp add: load_le_u64_def PutLe_u64_def load_le_le_bytes)
next
  case (4 off p off' q)
  then show ?case unfolding load_le_u64_def by (rule load_le_local)
qed (simp_all add: load_le_u64_def load_le_None)

interpretation f_i16: field_codec 2 PutLe_i16 load_le_i16 in_i16
proof (unfold_locales, goal_cases)
  case (2 v)
  then show ?case
    by (simp add: load_le_i16_def load_le_u16_def PutLe_i16_def load_le_le_bytes sint_word_of_int_i16)
next
  case (4 off p off' q)
  then show ?case using f_u16.get_local [OF 4] by (simp add: load_le_i16_def)
qed (simp_all add: load_le_i16_def f_u16.get_None)

interpretation f_i32: field_codec 4 PutLe_i32 load_le_i32 in_i32
proof (unfold_locales, goal_cases)
  case (2 v)
  then show ?case
    by (simp add: load_le_i32_def load_le_u32_def PutLe_i32_def load_le_le_bytes sint_word_of_int_i32)
next
  case (4 off p off' q)
  then show ?case using f_u32.get_local [OF 4] by (simp add: load_le_i32_def)
qed (simp_all add: load_le_i32_def f_u32.get_None)

interpretation f_i64: field_codec 8 PutLe_i64 load_le_i64 in_i64
proof (unfold_locales, goal_cases)
  case (2 v)
  then show ?case
    by (simp add: load_le_i64_def load_le_u64_def PutLe_i64_def load_le_le_bytes sint_word_of_int_i64)
next
  case (4 off p off' q)
  then show ?case using f_u64.get_local [OF 4] by (simp add: load_le_i64_def)
qed (simp_all add: load_le_i64_def f_u64.get_None)

lemmas field_skip = f_u8.get_skip f_u16.get_skip f_u32.get_skip f_u64.get_skip f_i16.get_skip f_i32.get_skip f_i64.get_skip
lemmas field_Cons = f_u8.get_Cons f_u16.get_Cons f_u32.get_Cons f_u64.get_Cons f_i16.get_Cons f_i32.get_Cons f_i64.get_Cons
lemmas field_take = f_u8.get_take f_u16.get_take f_u32.get_take f_u64.get_take f_i16.get_take f_i32.get_take f_i64.get_take
lemmas field_here = f_u8.get_here f_u16.get_here f_u32.get_here f_u64.get_here f_i16.get_here f_i32.get_here f_i64.get_here
lemmas field_put = f_u8.get_put f_u16.get_put f_u32.get_put f_u64.get_put f_i16.get_put f_i32.get_put f_i64.get_put
lemmas field_None = f_u8.get_None f_u16.get_None f_u32.get_None f_u64.get_None f_i16.get_None f_i32.get_None f_i64.get_None

subsection \<open>Writing consecutive fields\<close>

fun write_all :: "nat \<Rightarrow> u8 list list \<Rightarrow> u8 list \<Rightarrow> u8 list option" where
  "write_all off [] buf = Some buf"
| "write_all off (bs # bss) buf =
     Option.bind (write_at off bs buf) (write_all (off + length bs) bss)"

lemma write_all_fun [simp]:
  "write_all off [] = Some"
  "write_all off (bs # bss) = (\<lambda>buf. Option.bind (write_at off bs buf) (write_all (off + length bs) bss))"
  by (rule ext, simp)+

lemma write_all_append:
  "write_all off (xs @ ys) = (\<lambda>buf. Option.bind (write_all off xs buf) (write_all (off + length (concat xs)) ys))"
  by (induction xs arbitrary: off) (simp_all add: add.assoc)

lemma length_write_at: "write_at off bs buf = Some buf' \<Longrightarrow> length buf' = length buf"
  by (auto simp: write_at_def split: if_splits)

lemma write_all_concat:
  "off + length (concat bss) \<le> length buf \<Longrightarrow>
    write_all off bss buf = Some (take off buf @ concat bss @ drop (off + length (concat bss)) buf)"
proof (induction bss arbitrary: off buf)
  case (Cons bs bss)
  then show ?case by (simp add: write_at_def ac_simps)
qed simp

lemma write_all_short:
  "off \<le> length buf \<Longrightarrow> length buf < off + length (concat bss) \<Longrightarrow> write_all off bss buf = None"
proof (induction bss arbitrary: off buf)
  case (Cons bs bss)
  then show ?case by (cases "off + length bs \<le> length buf") (simp_all add: write_at_def add.assoc)
qed simp

end
