(* ===== verification/Mtbt_Parser.thy ===== *)
theory Mtbt_Parser
  imports Byte_Codec "HOL-Library.Monad_Syntax"
begin

text \<open>
  The MTBT packet parser of \<^verbatim>\<open>src/feed_handler/mtbt_parser.hpp\<close>.

  A packet is a byte list; \<open>data + off\<close> with the \<open>len - off\<close> bytes that follow is
  \<open>drop off data\<close>. Every load is checked against the buffer: the value \<open>None\<close> of an operation
  means that it read outside the packet, and the properties show that this never happens. The
  callback \<open>emit\<close> is the list of the events it is called with.
\<close>

subsection \<open>Layout\<close>

definition kMtbtHeaderSize :: nat where "kMtbtHeaderSize = 19"
definition kSizeOrderAdd :: nat where "kSizeOrderAdd = 26"
definition kSizeOrderModify :: nat where "kSizeOrderModify = 25"
definition kSizeOrderCancel :: nat where "kSizeOrderCancel = 13"
definition kSizeTrade :: nat where "kSizeTrade = 41"
definition kSizeSnapQuote :: nat where "kSizeSnapQuote = 29"
definition kSizeHeartbeat :: nat where "kSizeHeartbeat = 1"

lemmas mtbt_sizes = kMtbtHeaderSize_def kSizeOrderAdd_def kSizeOrderModify_def kSizeOrderCancel_def
  kSizeTrade_def kSizeSnapQuote_def kSizeHeartbeat_def

record MtbtHeader =
  mh_stream_id :: u16
  mh_seq_no :: u64
  mh_msg_count :: u8
  mh_timestamp :: u64

definition decode_side :: "u8 \<Rightarrow> Side" where
  "decode_side indicator = (if indicator = 1 then kBuy else kSell)"

subsection \<open>Parsing\<close>

text \<open>The inner option is the \<open>bool\<close> result with its out-parameter.\<close>

definition parse_header :: "u8 list \<Rightarrow> MtbtHeader option option" where
  "parse_header data =
     (if length data < kMtbtHeaderSize then Some None
      else do {
        stream_id \<leftarrow> load_le_u16 data 0;
        seq_no \<leftarrow> load_le_u64 data 2;
        msg_count \<leftarrow> load_le_u8 data 10;
        timestamp \<leftarrow> load_le_u64 data 11;
        Some (Some \<lparr>mh_stream_id = stream_id, mh_seq_no = seq_no, mh_msg_count = msg_count,
                    mh_timestamp = timestamp\<rparr>)
      })"

definition message_size :: "u8 \<Rightarrow> nat" where
  "message_size type =
     (if type = kOrderAdd then kSizeOrderAdd
      else if type = kOrderModify then kSizeOrderModify
      else if type = kOrderCancel then kSizeOrderCancel
      else if type = kTrade then kSizeTrade
      else if type = kSnapQuote then kSizeSnapQuote
      else if type = kHeartbeat then kSizeHeartbeat
      else 0)"

definition base_event :: "u8 \<Rightarrow> u16 \<Rightarrow> u64 \<Rightarrow> u64 \<Rightarrow> MarketEvent" where
  "base_event type stream_id seq_no ts = \<lparr>me_ts = ts, me_token = 0, me_price = 0, me_qty = 0, me_side = kBuy,
     me_type = type, me_order_no = 0, me_stream_id = ucast stream_id, me_seq_no = seq_no, me_order_no2 = 0,
     me_trade_no = 0, me_bid_price = 0, me_bid_qty = 0, me_ask_price = 0, me_ask_qty = 0\<rparr>"

definition parse_body :: "u8 list \<Rightarrow> MarketEvent \<Rightarrow> MarketEvent option" where
  "parse_body data out =
     (if me_type out = kOrderAdd then do {
        order_no \<leftarrow> load_le_i64 data 1;
        side \<leftarrow> load_le_u8 data 9;
        qty \<leftarrow> load_le_i32 data 10;
        token \<leftarrow> load_le_u32 data 14;
        price \<leftarrow> load_le_i64 data 18;
        Some (out\<lparr>me_order_no := order_no, me_side := decode_side side, me_qty := qty, me_token := token,
                  me_price := price\<rparr>)
      }
      else if me_type out = kOrderModify then do {
        order_no \<leftarrow> load_le_i64 data 1;
        qty \<leftarrow> load_le_i32 data 9;
        token \<leftarrow> load_le_u32 data 13;
        price \<leftarrow> load_le_i64 data 17;
        Some (out\<lparr>me_order_no := order_no, me_qty := qty, me_token := token, me_price := price\<rparr>)
      }
      else if me_type out = kOrderCancel then do {
        order_no \<leftarrow> load_le_i64 data 1;
        token \<leftarrow> load_le_u32 data 9;
        Some (out\<lparr>me_order_no := order_no, me_token := token\<rparr>)
      }
      else if me_type out = kTrade then do {
        order_no \<leftarrow> load_le_i64 data 1;
        order_no2 \<leftarrow> load_le_i64 data 9;
        token \<leftarrow> load_le_u32 data 17;
        price \<leftarrow> load_le_i64 data 21;
        qty \<leftarrow> load_le_i32 data 29;
        trade_no \<leftarrow> load_le_i64 data 33;
        Some (out\<lparr>me_order_no := order_no, me_order_no2 := order_no2, me_token := token, me_price := price,
                  me_qty := qty, me_trade_no := trade_no\<rparr>)
      }
      else if me_type out = kSnapQuote then do {
        token \<leftarrow> load_le_u32 data 1;
        bid_price \<leftarrow> load_le_i64 data 5;
        bid_qty \<leftarrow> load_le_i32 data 13;
        ask_price \<leftarrow> load_le_i64 data 17;
        ask_qty \<leftarrow> load_le_i32 data 25;
        Some (out\<lparr>me_token := token, me_bid_price := bid_price, me_bid_qty := bid_qty,
                  me_ask_price := ask_price, me_ask_qty := ask_qty\<rparr>)
      }
      else Some out)"

text \<open>The number of bytes consumed, 0 on an unknown or truncated message, and the event, which is
  the caller's variable \<open>out\<close> unchanged when nothing is consumed.\<close>

definition parse_message :: "u8 list \<Rightarrow> u16 \<Rightarrow> u64 \<Rightarrow> u64 \<Rightarrow> MarketEvent \<Rightarrow> (nat \<times> MarketEvent) option" where
  "parse_message data stream_id seq_no ts out =
     (if length data < 1 then Some (0, out)
      else do {
        type \<leftarrow> load_le_u8 data 0;
        let need = message_size type;
        if need = 0 \<or> length data < need then Some (0, out)
        else do {
          ev \<leftarrow> parse_body data (base_event type stream_id seq_no ts);
          Some (need, ev)
        }
      })"

record MtbtParser =
  mp_parsed :: u64
  mp_malformed :: u64

definition MtbtParser_init :: MtbtParser where
  "MtbtParser_init = \<lparr>mp_parsed = 0, mp_malformed = 0\<rparr>"

definition reset_stats :: "MtbtParser \<Rightarrow> MtbtParser" where
  "reset_stats p = p\<lparr>mp_parsed := 0, mp_malformed := 0\<rparr>"

text \<open>The batch loop, over the messages that are left; \<open>i\<close> is the index of the next one. The
  local \<open>ev\<close> is fresh in every iteration.\<close>

primrec parse_batch :: "nat \<Rightarrow> u8 list \<Rightarrow> MtbtHeader \<Rightarrow> nat \<Rightarrow> nat \<Rightarrow> MtbtParser \<Rightarrow>
    (MarketEvent list \<times> MtbtParser) option" where
  "parse_batch 0 data hdr i off p = Some ([], p)"
| "parse_batch (Suc n) data hdr i off p = do {
     (consumed, ev) \<leftarrow> parse_message (drop off data) (mh_stream_id hdr) (mh_seq_no hdr + of_nat i)
        (mh_timestamp hdr) zero_event;
     if consumed = 0 then Some ([], p\<lparr>mp_malformed := mp_malformed p + 1\<rparr>)
     else do {
       (evs, p') \<leftarrow> parse_batch n data hdr (i + 1) (off + consumed) (p\<lparr>mp_parsed := mp_parsed p + 1\<rparr>);
       Some (if me_type ev \<noteq> kHeartbeat then ev # evs else evs, p')
     }
   }"

definition parse_packet :: "u8 list \<Rightarrow> MtbtParser \<Rightarrow> (MarketEvent list \<times> MtbtParser) option" where
  "parse_packet data p = do {
     h \<leftarrow> parse_header data;
     case h of None \<Rightarrow> Some ([], p\<lparr>mp_malformed := mp_malformed p + 1\<rparr>)
     | Some hdr \<Rightarrow> parse_batch (unat (mh_msg_count hdr)) data hdr 0 kMtbtHeaderSize p
   }"

subsection \<open>Every load is within the packet\<close>

lemma field_Some:
  "off + 1 \<le> length p \<Longrightarrow> \<exists>v. load_le_u8 p off = Some v" "off + 2 \<le> length p \<Longrightarrow> \<exists>v. load_le_u16 p off = Some v"
  "off + 4 \<le> length p \<Longrightarrow> \<exists>v. load_le_u32 p off = Some v" "off + 8 \<le> length p \<Longrightarrow> \<exists>v. load_le_u64 p off = Some v"
  "off + 4 \<le> length p \<Longrightarrow> \<exists>v. load_le_i32 p off = Some v" "off + 8 \<le> length p \<Longrightarrow> \<exists>v. load_le_i64 p off = Some v"
  using field_None [of p off] by (auto simp: not_less simp flip: not_None_eq)

lemma parse_header_Some:
  "kMtbtHeaderSize \<le> length data \<Longrightarrow> \<exists>hdr. parse_header data = Some (Some hdr)"
  using field_Some [of 0 data] field_Some [of 2 data] field_Some [of 10 data] field_Some [of 11 data]
  by (auto simp: parse_header_def kMtbtHeaderSize_def)

lemma parse_header_None: "length data < kMtbtHeaderSize \<Longrightarrow> parse_header data = Some None"
  by (simp add: parse_header_def)

lemma message_size_pos: "0 < message_size t \<longleftrightarrow>
    t \<in> {kOrderAdd, kOrderModify, kOrderCancel, kTrade, kSnapQuote, kHeartbeat}"
  by (auto simp: message_size_def mtbt_sizes)

text \<open>What the header fields of an event keep of the packet.\<close>

definition header_part :: "MarketEvent \<Rightarrow> u8 \<times> u32 \<times> u64 \<times> u64" where
  "header_part ev = (me_type ev, me_stream_id ev, me_seq_no ev, me_ts ev)"

lemma parse_body_Some:
  assumes "0 < message_size (me_type out)" "message_size (me_type out) \<le> length data"
  shows "\<exists>ev. parse_body data out = Some ev \<and> header_part ev = header_part out"
proof -
  note some = field_Some [of _ data]
  from assms consider
      "me_type out = kOrderAdd" "26 \<le> length data" | "me_type out = kOrderModify" "25 \<le> length data"
    | "me_type out = kOrderCancel" "13 \<le> length data" | "me_type out = kTrade" "41 \<le> length data"
    | "me_type out = kSnapQuote" "29 \<le> length data" | "me_type out = kHeartbeat"
    by (auto simp: message_size_def mtbt_sizes split: if_splits)
  then show ?thesis
  proof cases
    case 1
    then show ?thesis using some(6) [of 1] some(1) [of 9] some(5) [of 10] some(3) [of 14] some(6) [of 18]
      by (auto simp: parse_body_def header_part_def mtbt_codes)
  next
    case 2
    then show ?thesis using some(6) [of 1] some(5) [of 9] some(3) [of 13] some(6) [of 17]
      by (auto simp: parse_body_def header_part_def mtbt_codes)
  next
    case 3
    then show ?thesis using some(6) [of 1] some(3) [of 9]
      by (auto simp: parse_body_def header_part_def mtbt_codes)
  next
    case 4
    then show ?thesis using some(6) [of 1] some(6) [of 9] some(3) [of 17] some(6) [of 21] some(5) [of 29] some(6) [of 33]
      by (auto simp: parse_body_def header_part_def mtbt_codes)
  next
    case 5
    then show ?thesis using some(3) [of 1] some(6) [of 5] some(5) [of 13] some(6) [of 17] some(5) [of 25]
      by (auto simp: parse_body_def header_part_def mtbt_codes)
  next
    case 6
    then show ?thesis by (simp add: parse_body_def header_part_def mtbt_codes)
  qed
qed

text \<open>A message is either consumed, with its size, or refused without an event.\<close>

lemma parse_message_cases:
  obtains (bad) "parse_message data sid seq ts out = Some (0, out)"
  | (good) t ev where "parse_message data sid seq ts out = Some (message_size t, ev)"
      "load_le_u8 data 0 = Some t" "0 < message_size t" "message_size t \<le> length data"
      "header_part ev = (t, ucast sid, seq, ts)" "parse_body data (base_event t sid seq ts) = Some ev"
proof (cases "length data < 1")
  case True
  then show thesis by (intro bad) (simp add: parse_message_def)
next
  case False
  then obtain t where t: "load_le_u8 data 0 = Some t" using field_Some(1) [of 0 data] by (metis add_0 not_less)
  show thesis
  proof (cases "message_size t = 0 \<or> length data < message_size t")
    case True
    then show thesis using False t by (intro bad) (simp add: parse_message_def)
  next
    case fits: False
    have b: "me_type (base_event t sid seq ts) = t" "header_part (base_event t sid seq ts) = (t, ucast sid, seq, ts)"
      by (simp_all add: base_event_def header_part_def)
    obtain ev where "parse_body data (base_event t sid seq ts) = Some ev" "header_part ev = (t, ucast sid, seq, ts)"
      using parse_body_Some [of "base_event t sid seq ts" data] fits b by auto
    then show thesis using False t fits by (intro good [of t ev]) (simp_all add: parse_message_def)
  qed
qed

text \<open>The batch returns; the events it emits carry increasing indices of the batch.\<close>

lemma parse_batch_emits:
  "\<exists>evs p' js. parse_batch n data hdr i off p = Some (evs, p') \<and>
     map header_part evs = map (\<lambda>(t, j). (t, ucast (mh_stream_id hdr), mh_seq_no hdr + of_nat j, mh_timestamp hdr)) js \<and>
     sorted_wrt (<) (map snd js) \<and> (\<forall>(t, j) \<in> set js. i \<le> j \<and> j < i + n \<and> t \<noteq> kHeartbeat)"
proof (induction n arbitrary: i off p)
  case 0
  show ?case by (intro exI [of _ "[]"] exI [of _ p]) simp
next
  case (Suc n)
  show ?case
  proof (cases rule: parse_message_cases [of "drop off data" "mh_stream_id hdr" "mh_seq_no hdr + of_nat i" "mh_timestamp hdr" zero_event])
    case bad
    then show ?thesis by (intro exI [of _ "[]"]) auto
  next
    case (good t ev)
    obtain evs p' js where r: "parse_batch n data hdr (i + 1) (off + message_size t) (p\<lparr>mp_parsed := mp_parsed p + 1\<rparr>) = Some (evs, p')"
       "map header_part evs = map (\<lambda>(t, j). (t, ucast (mh_stream_id hdr), mh_seq_no hdr + of_nat j, mh_timestamp hdr)) js"
       "sorted_wrt (<) (map snd js)" "\<forall>(t, j) \<in> set js. i + 1 \<le> j \<and> j < i + 1 + n \<and> t \<noteq> kHeartbeat"
      using Suc.IH [of "i + 1" "off + message_size t" "p\<lparr>mp_parsed := mp_parsed p + 1\<rparr>"] by blast
    have t: "me_type ev = t" using good(5) by (simp add: header_part_def)
    show ?thesis
    proof (cases "t = kHeartbeat")
      case True
      then show ?thesis using good r t by (intro exI [of _ evs] exI [of _ p'] exI [of _ js]) auto
    next
      case False
      then show ?thesis using good r t
        by (intro exI [of _ "ev # evs"] exI [of _ p'] exI [of _ "(t, i) # js"]) auto
    qed
  qed
qed

lemma parse_packet_returns: "\<exists>evs p'. parse_packet data p = Some (evs, p')"
proof (cases "length data < kMtbtHeaderSize")
  case False
  then obtain hdr where "parse_header data = Some (Some hdr)" using parse_header_Some [of data] by auto
  then show ?thesis using parse_batch_emits [of "unat (mh_msg_count hdr)" data hdr 0 kMtbtHeaderSize p]
    by (auto simp: parse_packet_def)
qed (simp add: parse_packet_def parse_header_None)

text \<open>Truncating a packet behind its header only loses messages at the end.\<close>

lemma parse_body_take:
  assumes "message_size (me_type out) \<le> m"
  shows "parse_body (take m data) out = parse_body data out"
  using assms by (simp add: parse_body_def message_size_def mtbt_sizes field_take split: if_splits)

lemma parse_message_take:
  "parse_message (take m data) sid seq ts out = parse_message data sid seq ts out \<or>
    parse_message (take m data) sid seq ts out = Some (0, out)"
proof (cases rule: parse_message_cases [of "take m data" sid seq ts out])
  case (good t ev)
  have t: "load_le_u8 data 0 = Some t"
  proof (cases "m = 0")
    case True
    then show ?thesis using good(3,4) by simp
  next
    case False
    then show ?thesis using good(2) by (simp add: field_take)
  qed
  have "parse_body data (base_event t sid seq ts) = Some ev"
    using good(4,6) parse_body_take [of "base_event t sid seq ts" m data] by (simp add: base_event_def)
  then have "parse_message data sid seq ts out = Some (message_size t, ev)"
    using t good(3,4) by (auto simp: parse_message_def)
  then show ?thesis using good(1) by simp
qed simp

lemma parse_batch_take:
  "parse_batch n data hdr i off p = Some (evs, q) \<Longrightarrow> parse_batch n (take m data) hdr i off p = Some (evs', q') \<Longrightarrow>
    \<exists>rest. evs = evs' @ rest"
proof (induction n arbitrary: i off p evs evs' q q')
  case (Suc n)
  let ?msg = "\<lambda>d. parse_message (drop off d) (mh_stream_id hdr) (mh_seq_no hdr + of_nat i) (mh_timestamp hdr) zero_event"
  have tk: "drop off (take m data) = take (m - off) (drop off data)" by (simp add: drop_take)
  show ?case
  proof (cases rule: parse_message_cases [of "drop off data" "mh_stream_id hdr" "mh_seq_no hdr + of_nat i" "mh_timestamp hdr" zero_event])
    case bad
    then have "evs' = []"
      using Suc.prems(2) parse_message_take [of "m - off" "drop off data" "mh_stream_id hdr" "mh_seq_no hdr + of_nat i" "mh_timestamp hdr" zero_event]
      by (auto simp: tk)
    then show ?thesis by simp
  next
    case (good t ev)
    from parse_message_take [of "m - off" "drop off data" "mh_stream_id hdr" "mh_seq_no hdr + of_nat i" "mh_timestamp hdr" zero_event]
    show ?thesis
    proof
      assume same: "parse_message (take (m - off) (drop off data)) (mh_stream_id hdr) (mh_seq_no hdr + of_nat i)
        (mh_timestamp hdr) zero_event = ?msg data"
      let ?rec = "\<lambda>d. parse_batch n d hdr (i + 1) (off + message_size t) (p\<lparr>mp_parsed := mp_parsed p + 1\<rparr>)"
      obtain l q1 l' q1' where l: "?rec data = Some (l, q1)" "?rec (take m data) = Some (l', q1')"
          "evs = (if me_type ev \<noteq> kHeartbeat then ev # l else l)" "evs' = (if me_type ev \<noteq> kHeartbeat then ev # l' else l')"
        using Suc.prems good(1,3) same by (auto simp: tk bind_eq_Some_conv)
      from Suc.IH [OF l(1,2)] show ?thesis using l(3,4) by auto
    next
      assume "parse_message (take (m - off) (drop off data)) (mh_stream_id hdr) (mh_seq_no hdr + of_nat i)
        (mh_timestamp hdr) zero_event = Some (0, zero_event)"
      then have "evs' = []" using Suc.prems(2) by (simp add: tk)
      then show ?thesis by simp
    qed
  qed
qed simp

subsection \<open>Properties\<close>

text \<open>C14: the parser never reads outside a packet. For every byte string it returns; it emits
  at most one event per announced message, heartbeats never, and every event carries the
  stream, the timestamp and its own index of the batch added to the packet's sequence number,
  in increasing order of the indices.\<close>

theorem parse_packet_safe:
  "\<exists>evs p'. parse_packet data p = Some (evs, p') \<and>
    (case parse_header data of Some (Some hdr) \<Rightarrow>
       (\<exists>js. map header_part evs =
          map (\<lambda>(t, j). (t, ucast (mh_stream_id hdr), mh_seq_no hdr + of_nat j, mh_timestamp hdr)) js \<and>
        sorted_wrt (<) (map snd js) \<and> (list_all (\<lambda>(t, j). j < unat (mh_msg_count hdr) \<and> t \<noteq> kHeartbeat) js))
     | _ \<Rightarrow> evs = [])"
proof (cases "length data < kMtbtHeaderSize")
  case True
  then show ?thesis by (simp add: parse_packet_def parse_header_None)
next
  case False
  then obtain hdr where "parse_header data = Some (Some hdr)" using parse_header_Some [of data] by auto
  then show ?thesis
    using parse_batch_emits [of "unat (mh_msg_count hdr)" data hdr 0 kMtbtHeaderSize p]
    by (force simp: parse_packet_def list_all_iff)
qed

text \<open>A packet cut short is parsed up to the cut. Whatever the packet and wherever it is
  truncated, the events emitted for the truncated packet are the first ones of those emitted
  for the whole packet: no event changes and none is invented.\<close>

theorem truncated_packet_prefix:
  "\<exists>evs p' evs' p'' rest. parse_packet data p = Some (evs, p') \<and>
    parse_packet (take m data) p = Some (evs', p'') \<and> evs = evs' @ rest"
proof (cases "m < kMtbtHeaderSize \<or> length data < kMtbtHeaderSize")
  case True
  then have "parse_packet (take m data) p = Some ([], p\<lparr>mp_malformed := mp_malformed p + 1\<rparr>)"
    by (auto simp: parse_packet_def parse_header_None)
  moreover note parse_packet_returns [of data p]
  ultimately show ?thesis by auto
next
  case False
  then have len: "kMtbtHeaderSize \<le> m" "kMtbtHeaderSize \<le> length data" by simp_all
  then obtain hdr where h: "parse_header data = Some (Some hdr)" using parse_header_Some [of data] by auto
  have h': "parse_header (take m data) = Some (Some hdr)"
    using h len by (simp add: parse_header_def field_take kMtbtHeaderSize_def)
  let ?n = "unat (mh_msg_count hdr)"
  obtain evs p' evs' p'' where r: "parse_batch ?n data hdr 0 kMtbtHeaderSize p = Some (evs, p')"
      "parse_batch ?n (take m data) hdr 0 kMtbtHeaderSize p = Some (evs', p'')"
    using parse_batch_emits [of ?n data hdr 0 kMtbtHeaderSize p]
      parse_batch_emits [of ?n "take m data" hdr 0 kMtbtHeaderSize p] by blast
  from parse_batch_take [OF r] show ?thesis using r h h' by (simp add: parse_packet_def)
qed

end
