(* ===== verification/Event_Source.thy ===== *)
theory Event_Source
  imports Mtbt_Parser
begin

text \<open>
  Recorded captures: \<open>encode_capture\<close> of \<^verbatim>\<open>src/sim/mtbt_generator.hpp\<close> and the reading of a
  capture by \<open>read_u32_le\<close> and \<open>load_events\<close> of \<^verbatim>\<open>src/sim/event_source.hpp\<close>.

  A file is the list of the bytes that are still to be read; \<open>fread\<close> of \<open>n\<close> bytes takes what is
  there, up to \<open>n\<close>. The branch of \<open>load_events\<close> that generates events instead is in the theory of
  the generator.
\<close>

subsection \<open>Writing\<close>

definition encode_packet :: "MarketEvent \<Rightarrow> u8 list option" where
  "encode_packet ev =
     (let pkt = PutLe_u16 (ucast (if me_stream_id ev = 0 then 1 else me_stream_id ev)) @
                PutLe_u64 (me_seq_no ev) @ PutLe_u8 1 @ PutLe_u64 (me_ts ev)
      in if me_type ev = kSnapQuote then Some (pkt @ [kSnapQuote] @ PutLe_u32 (me_token ev) @
              PutLe_i64 (me_bid_price ev) @ PutLe_i32 (me_bid_qty ev) @ PutLe_i64 (me_ask_price ev) @
              PutLe_i32 (me_ask_qty ev))
         else if me_type ev = kTrade then Some (pkt @ [kTrade] @ PutLe_i64 (me_order_no ev) @
              PutLe_i64 (me_order_no2 ev) @ PutLe_u32 (me_token ev) @ PutLe_i64 (me_price ev) @
              PutLe_i32 (me_qty ev) @ PutLe_i64 (me_trade_no ev))
         else if me_type ev = kOrderAdd then Some (pkt @ [kOrderAdd] @ PutLe_i64 (me_order_no ev) @
              PutLe_u8 (if me_side ev = kBuy then 1 else 2) @ PutLe_i32 (me_qty ev) @ PutLe_u32 (me_token ev) @
              PutLe_i64 (me_price ev))
         else if me_type ev = kOrderCancel then Some (pkt @ [kOrderCancel] @ PutLe_i64 (me_order_no ev) @
              PutLe_u32 (me_token ev))
         else None)"

definition encode_capture :: "MarketEvent \<Rightarrow> u8 list \<Rightarrow> u8 list" where
  "encode_capture ev out =
     (case encode_packet ev of None \<Rightarrow> out
      | Some pkt \<Rightarrow> out @ PutLe_u32 (of_nat (length pkt)) @ pkt)"

subsection \<open>Reading\<close>

definition fread :: "nat \<Rightarrow> u8 list \<Rightarrow> u8 list \<times> u8 list" where
  "fread n f = (take n f, drop n f)"

definition read_u32_le :: "u8 list \<Rightarrow> u32 option \<times> u8 list" where
  "read_u32_le f =
     (case fread 4 f of (b, f') \<Rightarrow>
        if length b \<noteq> 4 then (None, f')
        else (Some (ucast (b ! 0) OR push_bit 8 (ucast (b ! 1)) OR push_bit 16 (ucast (b ! 2)) OR
                    push_bit 24 (ucast (b ! 3))), f'))"

text \<open>The loop of \<open>load_events\<close>: the parser and the file are threaded, the events appended. The
  recursion ends because every iteration that continues has read at least the length.\<close>

function load_loop :: "u8 list \<Rightarrow> MtbtParser \<Rightarrow> MarketEvent list \<Rightarrow> MarketEvent list option" where
  "load_loop f p events =
     (case read_u32_le f of
        (None, _) \<Rightarrow> Some events
      | (Some len, f1) \<Rightarrow>
          if len = 0 \<or> len > push_bit 20 1 then Some events
          else (case fread (unat len) f1 of (buf, f2) \<Rightarrow>
                  if length buf \<noteq> unat len then Some events
                  else (case parse_packet buf p of None \<Rightarrow> None
                        | Some (evs, p') \<Rightarrow> load_loop f2 p' (events @ evs))))"
  by pat_completeness auto
termination
  by (relation "measure (\<lambda>(f, p, events). length f)")
     (auto simp: read_u32_le_def fread_def split: if_splits)

declare load_loop.simps [simp del]

text \<open>\<open>load_events\<close> on a path; \<open>None\<close> stands for a file that cannot be opened.\<close>

definition load_events_file :: "u8 list option \<Rightarrow> MarketEvent list option" where
  "load_events_file file = (case file of None \<Rightarrow> Some [] | Some f \<Rightarrow> load_loop f MtbtParser_init [])"

subsection \<open>Round trip of a packet\<close>

text \<open>The fields an event must fit in, and what a capture keeps of it: the fields its message
  type carries, the others at the parser's defaults.\<close>

definition event_fits :: "MarketEvent \<Rightarrow> bool" where
  "event_fits ev \<longleftrightarrow> in_i64 (me_price ev) \<and> in_i32 (me_qty ev) \<and> in_i64 (me_order_no ev) \<and>
     in_i64 (me_order_no2 ev) \<and> in_i64 (me_trade_no ev) \<and> in_i64 (me_bid_price ev) \<and> in_i32 (me_bid_qty ev) \<and>
     in_i64 (me_ask_price ev) \<and> in_i32 (me_ask_qty ev)"

definition recorded :: "MarketEvent \<Rightarrow> MarketEvent" where
  "recorded ev =
     (let b = base_event (me_type ev) (ucast (if me_stream_id ev = 0 then 1 else me_stream_id ev)) (me_seq_no ev) (me_ts ev)
      in if me_type ev = kSnapQuote then b\<lparr>me_token := me_token ev, me_bid_price := me_bid_price ev,
           me_bid_qty := me_bid_qty ev, me_ask_price := me_ask_price ev, me_ask_qty := me_ask_qty ev\<rparr>
         else if me_type ev = kTrade then b\<lparr>me_order_no := me_order_no ev, me_order_no2 := me_order_no2 ev,
           me_token := me_token ev, me_price := me_price ev, me_qty := me_qty ev, me_trade_no := me_trade_no ev\<rparr>
         else if me_type ev = kOrderAdd then b\<lparr>me_order_no := me_order_no ev, me_side := me_side ev,
           me_qty := me_qty ev, me_token := me_token ev, me_price := me_price ev\<rparr>
         else b\<lparr>me_order_no := me_order_no ev, me_token := me_token ev\<rparr>)"

abbreviation capturable :: "MarketEvent \<Rightarrow> bool" where
  "capturable ev \<equiv> me_type ev \<in> {kSnapQuote, kTrade, kOrderAdd, kOrderCancel}"

lemma load_u8_Cons: "load_le_u8 (x # xs) 0 = Some x"
proof -
  have "ucast (ucast x :: u64) = (x :: u8)" by (rule bit_word_eqI) (simp add: bit_simps)
  then show ?thesis by (simp add: load_le_u8_def load_le_def)
qed

lemmas read_back = field_skip field_Cons field_here field_put load_u8_Cons

lemma parse_header_back:
  "parse_header (PutLe_u16 a @ PutLe_u64 b @ PutLe_u8 c @ PutLe_u64 d @ body) =
    Some (Some \<lparr>mh_stream_id = a, mh_seq_no = b, mh_msg_count = c, mh_timestamp = d\<rparr>)"
  by (simp add: parse_header_def kMtbtHeaderSize_def read_back)

text \<open>The body of a message read back, one type at a time.\<close>

lemma body_back:
  assumes "event_fits ev"
  shows "me_type ev = kSnapQuote \<Longrightarrow> me_type out = kSnapQuote \<Longrightarrow>
      parse_body (kSnapQuote # PutLe_u32 (me_token ev) @ PutLe_i64 (me_bid_price ev) @ PutLe_i32 (me_bid_qty ev) @
        PutLe_i64 (me_ask_price ev) @ PutLe_i32 (me_ask_qty ev)) out =
      Some (out\<lparr>me_token := me_token ev, me_bid_price := me_bid_price ev, me_bid_qty := me_bid_qty ev,
        me_ask_price := me_ask_price ev, me_ask_qty := me_ask_qty ev\<rparr>)"
    and "me_type ev = kTrade \<Longrightarrow> me_type out = kTrade \<Longrightarrow>
      parse_body (kTrade # PutLe_i64 (me_order_no ev) @ PutLe_i64 (me_order_no2 ev) @ PutLe_u32 (me_token ev) @
        PutLe_i64 (me_price ev) @ PutLe_i32 (me_qty ev) @ PutLe_i64 (me_trade_no ev)) out =
      Some (out\<lparr>me_order_no := me_order_no ev, me_order_no2 := me_order_no2 ev, me_token := me_token ev,
        me_price := me_price ev, me_qty := me_qty ev, me_trade_no := me_trade_no ev\<rparr>)"
    and "me_type ev = kOrderAdd \<Longrightarrow> me_type out = kOrderAdd \<Longrightarrow>
      parse_body (kOrderAdd # PutLe_i64 (me_order_no ev) @ PutLe_u8 (if me_side ev then 1 else 2) @
        PutLe_i32 (me_qty ev) @ PutLe_u32 (me_token ev) @ PutLe_i64 (me_price ev)) out =
      Some (out\<lparr>me_order_no := me_order_no ev, me_side := me_side ev, me_qty := me_qty ev, me_token := me_token ev,
        me_price := me_price ev\<rparr>)"
    and "me_type ev = kOrderCancel \<Longrightarrow> me_type out = kOrderCancel \<Longrightarrow>
      parse_body (kOrderCancel # PutLe_i64 (me_order_no ev) @ PutLe_u32 (me_token ev)) out =
      Some (out\<lparr>me_order_no := me_order_no ev, me_token := me_token ev\<rparr>)"
  using assms
  by (simp_all add: event_fits_def parse_body_def mtbt_codes read_back decode_side_def)

abbreviation capture_header :: "MarketEvent \<Rightarrow> u8 list" where
  "capture_header ev \<equiv> PutLe_u16 (ucast (if me_stream_id ev = 0 then 1 else me_stream_id ev)) @
     PutLe_u64 (me_seq_no ev) @ PutLe_u8 1 @ PutLe_u64 (me_ts ev)"

lemma packet_of_body:
  assumes ty: "capturable ev" and len: "length body = message_size (me_type ev)"
    and t: "load_le_u8 body 0 = Some (me_type ev)"
    and body: "parse_body body (base_event (me_type ev) (ucast (if me_stream_id ev = 0 then 1 else me_stream_id ev))
      (me_seq_no ev) (me_ts ev)) = Some (recorded ev)"
  shows "length (capture_header ev @ body) \<le> 60"
    and "parse_packet (capture_header ev @ body) p = Some ([recorded ev], p\<lparr>mp_parsed := mp_parsed p + 1\<rparr>)"
proof -
  have size: "0 < message_size (me_type ev)" "message_size (me_type ev) \<le> 41" "me_type ev \<noteq> kHeartbeat"
    using ty by (auto simp: message_size_def mtbt_codes mtbt_sizes)
  show "length (capture_header ev @ body) \<le> 60" using size len by simp
  have "me_type (recorded ev) = me_type ev" by (simp add: recorded_def base_event_def Let_def)
  moreover have "drop kMtbtHeaderSize (capture_header ev @ body) = body" by (simp add: kMtbtHeaderSize_def)
  moreover have "parse_message body (ucast (if me_stream_id ev = 0 then 1 else me_stream_id ev)) (me_seq_no ev) (me_ts ev) zero_event =
      Some (message_size (me_type ev), recorded ev)"
    using size len t body by (auto simp: parse_message_def)
  ultimately show "parse_packet (capture_header ev @ body) p = Some ([recorded ev], p\<lparr>mp_parsed := mp_parsed p + 1\<rparr>)"
    using size by (simp add: parse_packet_def parse_header_back)
qed

lemma encode_packet_back:
  assumes fits: "event_fits ev" and ty: "capturable ev"
  shows "\<exists>body. encode_packet ev = Some (capture_header ev @ body) \<and> length (capture_header ev @ body) \<le> 60 \<and>
    (\<forall>p. parse_packet (capture_header ev @ body) p = Some ([recorded ev], p\<lparr>mp_parsed := mp_parsed p + 1\<rparr>))"
proof -
  have "\<exists>body. encode_packet ev = Some (capture_header ev @ body) \<and> length body = message_size (me_type ev) \<and>
      load_le_u8 body 0 = Some (me_type ev) \<and>
      parse_body body (base_event (me_type ev) (ucast (if me_stream_id ev = 0 then 1 else me_stream_id ev))
        (me_seq_no ev) (me_ts ev)) = Some (recorded ev)"
  proof -
    from ty consider "me_type ev = kSnapQuote" | "me_type ev = kTrade" | "me_type ev = kOrderAdd" | "me_type ev = kOrderCancel"
      by blast
    then show ?thesis
      using body_back [OF fits]
      by cases (simp_all add: encode_packet_def recorded_def base_event_def message_size_def mtbt_codes mtbt_sizes
          load_u8_Cons Let_def)
  qed
  then show ?thesis using packet_of_body [OF ty] by blast
qed

subsection \<open>Round trip of a capture\<close>

lemma load_bytes_4: "(ucast (load_bytes 4 b 0) :: u32) =
    ucast (b ! 0) OR push_bit 8 (ucast (b ! 1)) OR push_bit 16 (ucast (b ! 2)) OR push_bit 24 (ucast (b ! 3))"
proof -
  have four: "(4::nat) = Suc (Suc (Suc (Suc 0)))" by simp
  have "load_bytes 4 b 0 = push_bit 0 (ucast (b ! 0)) OR push_bit 8 (ucast (b ! 1)) OR
      push_bit 16 (ucast (b ! 2)) OR push_bit 24 (ucast (b ! 3))"
    unfolding four load_bytes.simps by (simp add: numeral_2_eq_2 numeral_3_eq_3 or.assoc)
  then show ?thesis by (auto intro!: bit_word_eqI simp: bit_simps)
qed

lemma read_u32_back: "read_u32_le (PutLe_u32 v @ f) = (Some v, f)"
proof -
  have "load_le_u32 (PutLe_u32 v) 0 = Some v" by (rule f_u32.get_put) simp
  then have "ucast (load_bytes 4 (PutLe_u32 v) 0) = v" by (simp add: load_le_u32_def load_le_def)
  then show ?thesis by (simp add: read_u32_le_def fread_def load_bytes_4)
qed

lemma load_loop_end: "load_loop [] p events = Some events"
  by (simp add: load_loop.simps read_u32_le_def fread_def)

lemma load_loop_step:
  assumes "parse_packet pkt p = Some (evs, p')" "0 < length pkt" "length pkt \<le> 1024"
  shows "load_loop (PutLe_u32 (of_nat (length pkt)) @ pkt @ f) p events = load_loop f p' (events @ evs)"
proof -
  have len: "unat (of_nat (length pkt) :: u32) = length pkt"
    using assms(3) by (simp add: unat_of_nat)
  then have "(of_nat (length pkt) :: u32) \<noteq> 0" "\<not> push_bit 20 1 < (of_nat (length pkt) :: u32)"
    using assms(2,3) by (auto simp: word_less_nat_alt unat_eq_zero [symmetric] push_bit_eq_mult)
  then show ?thesis
    using assms(1) len by (subst load_loop.simps) (simp add: read_u32_back fread_def)
qed

lemma load_loop_capture:
  "\<forall>ev \<in> set evs. event_fits ev \<and> capturable ev \<Longrightarrow>
    load_loop (concat (map (\<lambda>ev. encode_capture ev []) evs)) p events = Some (events @ map recorded evs)"
proof (induction evs arbitrary: p events)
  case (Cons ev evs)
  then obtain body where "encode_packet ev = Some (capture_header ev @ body)" "length (capture_header ev @ body) \<le> 60"
      "parse_packet (capture_header ev @ body) p = Some ([recorded ev], p\<lparr>mp_parsed := mp_parsed p + 1\<rparr>)"
    using encode_packet_back [of ev] by auto
  then show ?case
    using load_loop_step [of "capture_header ev @ body"] Cons by (simp add: encode_capture_def)
qed (simp add: load_loop_end)

lemma encode_capture_append: "encode_capture ev out = out @ encode_capture ev []"
  by (simp add: encode_capture_def split: option.splits)

lemma fold_encode_capture: "fold encode_capture evs out = out @ concat (map (\<lambda>ev. encode_capture ev []) evs)"
proof (induction evs arbitrary: out)
  case (Cons ev evs)
  then show ?case using encode_capture_append [of ev out] by simp
qed simp

subsection \<open>Properties\<close>

text \<open>A loaded event is in the form its message gives it: captured and loaded again it stays as it is.\<close>

lemma recorded_again:
  assumes "event_fits ev" "capturable ev"
  shows "event_fits (recorded ev)" "capturable (recorded ev)" "me_stream_id ev < 2 ^ 16 \<Longrightarrow> recorded (recorded ev) = recorded ev"
proof -
  have "me_type (recorded ev) = me_type ev" by (simp add: recorded_def base_event_def Let_def)
  then show "capturable (recorded ev)" using assms(2) by simp
  show "event_fits (recorded ev)" using assms(1)
    by (simp add: event_fits_def recorded_def base_event_def Let_def in_i32_def in_i64_def zero_event_def)
  have low: "ucast (ucast w :: u16) = w" if "w < 2 ^ 16" for w :: u32
    using that unfolding word_unat_eq_iff unsigned_ucast_eq word_less_nat_alt
    by (simp add: take_bit_nat_eq_self unsigned_take_bit_eq)
  assume small: "me_stream_id ev < 2 ^ 16"
  show "recorded (recorded ev) = recorded ev"
  proof (cases "me_stream_id ev = 0")
    case True
    then show ?thesis using assms(2) by (auto simp: recorded_def base_event_def mtbt_codes)
  next
    case False
    then show ?thesis using assms(2) low [OF small] by (auto simp: recorded_def base_event_def mtbt_codes)
  qed
qed

text \<open>C12: a capture reads back. For every list of add, cancel, trade and snapshot events whose
  fields fit their wire types, loading the file that \<open>encode_capture\<close> writes for them event by
  event gives as many events in the same order, each reduced to what its message carries (\<open>recorded\<close>): the type, the
  sequence number, the time stamp, the token and the fields of its type are those of the original, the stream number
  is its low 16 bits with 0 written as 1, and every other field has its default. What has been
  loaded is stable: for stream numbers below \<open>2 ^ 16\<close>, capturing the loaded events and loading them again gives them back unchanged.\<close>

theorem capture_roundtrip:
  assumes "\<forall>ev \<in> set evs. event_fits ev \<and> capturable ev"
  shows "load_events_file (Some (fold encode_capture evs [])) = Some (map recorded evs)
    \<and> ((\<forall>ev \<in> set evs. me_stream_id ev < 2 ^ 16) \<longrightarrow>
        load_events_file (Some (fold encode_capture (map recorded evs) [])) = Some (map recorded evs))"
proof -
  have load: "load_events_file (Some (fold encode_capture es [])) = Some (map recorded es)"
    if "\<forall>ev \<in> set es. event_fits ev \<and> capturable ev" for es
    using load_loop_capture [OF that, of MtbtParser_init "[]"] by (simp add: load_events_file_def fold_encode_capture)
  have "\<forall>ev \<in> set (map recorded evs). event_fits ev \<and> capturable ev" using assms recorded_again(1,2) by auto
  from load [OF this] load [OF assms] show ?thesis using assms recorded_again(3) by simp
qed

theorem capture_roundtrip_witness:
  "let ev = zero_event\<lparr>me_type := kTrade, me_token := 7, me_price := 105, me_qty := 3, me_order_no := -1, me_seq_no := 9\<rparr>;
       ev' = ev\<lparr>me_stream_id := 1, me_side := kBuy\<rparr>
   in (\<forall>e \<in> set [ev]. event_fits e \<and> capturable e) \<and>
      load_events_file (Some (fold encode_capture [ev] [])) = Some [ev'] \<and> load_events_file (Some (fold encode_capture [ev'] [])) = Some [ev']"
proof -
  let ?ev = "zero_event\<lparr>me_type := kTrade, me_token := 7, me_price := 105, me_qty := 3, me_order_no := -1, me_seq_no := 9\<rparr>"
  have ok: "\<forall>e \<in> set [?ev]. event_fits e \<and> capturable e" and small: "\<forall>e \<in> set [?ev]. me_stream_id e < 2 ^ 16"
    by (simp_all add: event_fits_def in_i32_def in_i64_def zero_event_def)
  have r: "map recorded [?ev] = [?ev\<lparr>me_stream_id := 1, me_side := kBuy\<rparr>]"
    by (simp add: recorded_def base_event_def zero_event_def mtbt_codes)
  show ?thesis using ok small capture_roundtrip [OF ok, unfolded r] by (simp only: Let_def simp_thms)
qed

text \<open>Loading a file ends on every content, well-formed or not, and never reads outside a
  packet.\<close>

theorem load_events_total:
  "\<exists>evs. load_events_file file = Some evs"
proof -
  have "\<exists>evs. load_loop f p events = Some evs" for f p events
  proof (induction f p events rule: load_loop.induct)
    case (1 f p events)
    show ?case
    proof (cases "read_u32_le f")
      case (Pair l f1)
      show ?thesis
      proof (cases "\<exists>len. l = Some len \<and> len \<noteq> 0 \<and> \<not> push_bit 20 1 < len \<and> length (take (unat len) f1) = unat len")
        case True
        then obtain len where len: "l = Some len" "len \<noteq> 0" "\<not> push_bit 20 1 < len" "length (take (unat len) f1) = unat len"
          by blast
        obtain evs p' where "parse_packet (take (unat len) f1) p = Some (evs, p')" using parse_packet_returns by blast
        then show ?thesis using 1 Pair len by (subst load_loop.simps) (simp add: fread_def)
      next
        case False
        then show ?thesis using Pair by (subst load_loop.simps) (auto simp: fread_def split: option.splits)
      qed
    qed
  qed
  then show ?thesis by (auto simp: load_events_file_def split: option.splits)
qed

end
