(* ===== verification/Feed_Handler.thy ===== *)
theory Feed_Handler
  imports Event_Source
begin

text \<open>
  The dual-source feed handler of \<^verbatim>\<open>src/feed_handler/feed_handler.hpp\<close>: deduplication of the two
  multicast sources by sequence number, gap detection, and in-order emission.

  As in the parser, \<open>None\<close> means a read outside the packet and the callback is the list of events
  it receives. The sequence arithmetic is that of \<open>uint64_t\<close>.
\<close>

definition kMaxStreams :: nat where "kMaxStreams = 65536"

datatype FeedSource = kPrimary | kSecondary

record StreamStats =
  ss_next_seq :: u64
  ss_packets :: u64
  ss_messages :: u64
  ss_duplicates :: u64
  ss_gaps :: u64
  ss_last_gap_lo :: u64
  ss_last_gap_hi :: u64
  ss_needs_retransmit :: bool

definition StreamStats_default :: StreamStats where
  "StreamStats_default = \<lparr>ss_next_seq = 0, ss_packets = 0, ss_messages = 0, ss_duplicates = 0, ss_gaps = 0,
     ss_last_gap_lo = 0, ss_last_gap_hi = 0, ss_needs_retransmit = False\<rparr>"

record FeedHandler =
  fh_streams :: "nat \<Rightarrow> StreamStats"
  fh_malformed :: u64

definition FeedHandler_init :: FeedHandler where
  "FeedHandler_init = \<lparr>fh_streams = (\<lambda>_. StreamStats_default), fh_malformed = 0\<rparr>"

text \<open>The stream's part of one message that was parsed: duplicate, gap or next in order; the flag
  says whether the event is emitted.\<close>

definition accept :: "u64 \<Rightarrow> MarketEvent \<Rightarrow> StreamStats \<Rightarrow> bool \<times> StreamStats" where
  "accept seq ev st =
     (if ss_next_seq st \<noteq> 0 \<and> seq < ss_next_seq st
      then (False, st\<lparr>ss_duplicates := ss_duplicates st + 1\<rparr>)
      else let st1 = (if ss_next_seq st \<noteq> 0 \<and> seq > ss_next_seq st
                      then st\<lparr>ss_gaps := ss_gaps st + 1, ss_last_gap_lo := ss_next_seq st,
                              ss_last_gap_hi := seq, ss_needs_retransmit := True\<rparr>
                      else st);
               st2 = st1\<lparr>ss_next_seq := seq + 1\<rparr>
           in if me_type ev \<noteq> kHeartbeat then (True, st2\<lparr>ss_messages := ss_messages st2 + 1\<rparr>)
              else (False, st2))"

primrec on_batch :: "nat \<Rightarrow> u8 list \<Rightarrow> MtbtHeader \<Rightarrow> nat \<Rightarrow> nat \<Rightarrow> StreamStats \<Rightarrow>
    (MarketEvent list \<times> StreamStats \<times> bool) option" where
  "on_batch 0 data hdr i off st = Some ([], st, False)"
| "on_batch (Suc n) data hdr i off st = do {
     let seq = mh_seq_no hdr + of_nat i;
     (consumed, ev) \<leftarrow> parse_message (drop off data) (mh_stream_id hdr) seq (mh_timestamp hdr) zero_event;
     if consumed = 0 then Some ([], st, True)
     else do {
       let (emit, st') = accept seq ev st;
       (evs, st'', bad) \<leftarrow> on_batch n data hdr (i + 1) (off + consumed) st';
       Some (if emit then ev # evs else evs, st'', bad)
     }
   }"

definition on_packet :: "FeedSource \<Rightarrow> u8 list \<Rightarrow> FeedHandler \<Rightarrow> (MarketEvent list \<times> FeedHandler) option" where
  "on_packet source data fh = do {
     h \<leftarrow> parse_header data;
     case h of None \<Rightarrow> Some ([], fh\<lparr>fh_malformed := fh_malformed fh + 1\<rparr>)
     | Some hdr \<Rightarrow>
         if unat (mh_stream_id hdr) \<ge> kMaxStreams then Some ([], fh\<lparr>fh_malformed := fh_malformed fh + 1\<rparr>)
         else let sid = unat (mh_stream_id hdr);
                  st = fh_streams fh sid;
                  packet_hi = mh_seq_no hdr + ucast (mh_msg_count hdr)
              in if ss_next_seq st \<noteq> 0 \<and> packet_hi \<le> ss_next_seq st
                 then Some ([], fh\<lparr>fh_streams := (fh_streams fh)(sid :=
                        st\<lparr>ss_duplicates := ss_duplicates st + ucast (mh_msg_count hdr)\<rparr>)\<rparr>)
                 else do {
                   (evs, st', bad) \<leftarrow> on_batch (unat (mh_msg_count hdr)) data hdr 0 kMtbtHeaderSize
                      (st\<lparr>ss_packets := ss_packets st + 1\<rparr>);
                   Some (evs, fh\<lparr>fh_streams := (fh_streams fh)(sid := st'),
                                 fh_malformed := (if bad then fh_malformed fh + 1 else fh_malformed fh)\<rparr>)
                 }
   }"

definition clear_retransmit :: "u16 \<Rightarrow> FeedHandler \<Rightarrow> FeedHandler" where
  "clear_retransmit stream_id fh =
     (if unat stream_id < kMaxStreams
      then fh\<lparr>fh_streams := (fh_streams fh)(unat stream_id :=
             (fh_streams fh (unat stream_id))\<lparr>ss_needs_retransmit := False\<rparr>)\<rparr>
      else fh)"

fun on_packets :: "(FeedSource \<times> u8 list) list \<Rightarrow> FeedHandler \<Rightarrow> (MarketEvent list \<times> FeedHandler) option" where
  "on_packets [] fh = Some ([], fh)"
| "on_packets ((src, data) # ps) fh = do {
     (evs, fh') \<leftarrow> on_packet src data fh;
     (evs', fh'') \<leftarrow> on_packets ps fh';
     Some (evs @ evs', fh'')
   }"

subsection \<open>One batch\<close>

text \<open>The high-water mark of a stream, as a number; 0 before the first message.\<close>

abbreviation mark :: "StreamStats \<Rightarrow> nat" where
  "mark st \<equiv> unat (ss_next_seq st)"

lemma accept_mark:
  assumes "unat seq + 1 < 2 ^ 64" "accept seq ev st = (emit, st')"
  shows "mark st \<le> mark st'" and "emit \<Longrightarrow> mark st \<le> unat seq \<and> mark st' = unat seq + 1"
    and "unat seq < mark st'" and "emit \<Longrightarrow> me_type ev \<noteq> kHeartbeat"
proof -
  have inc: "unat (seq + 1) = unat seq + 1" using assms(1) by (subst unat_plus_simple [THEN iffD1]) (simp_all add: no_olen_add_nat)
  have new: "mark st \<le> unat seq" if "\<not> (ss_next_seq st \<noteq> 0 \<and> seq < ss_next_seq st)"
    using that by (auto simp: word_less_nat_alt)
  show "mark st \<le> mark st'" "emit \<Longrightarrow> mark st \<le> unat seq \<and> mark st' = unat seq + 1" "unat seq < mark st'"
    "emit \<Longrightarrow> me_type ev \<noteq> kHeartbeat"
    using assms(2) inc new by (auto simp: accept_def Let_def word_less_nat_alt split: if_splits)
qed

lemma batch_seq:
  assumes "unat (mh_seq_no hdr) + i < 2 ^ 64"
  shows "unat (mh_seq_no hdr + of_nat i) = unat (mh_seq_no hdr) + i"
  using assms by (simp add: unat_word_ariths unat_of_nat)

lemma on_batch_order:
  "unat (mh_seq_no hdr) + i + n < 2 ^ 64 \<Longrightarrow>
    \<exists>evs st' bad. on_batch n data hdr i off st = Some (evs, st', bad) \<and> mark st \<le> mark st' \<and>
      sorted_wrt (<) (map (\<lambda>ev. unat (me_seq_no ev)) evs) \<and>
      (\<forall>ev \<in> set evs. me_stream_id ev = ucast (mh_stream_id hdr) \<and> me_type ev \<noteq> kHeartbeat \<and>
        mark st \<le> unat (me_seq_no ev) \<and> unat (me_seq_no ev) < mark st')"
proof (induction n arbitrary: i off st)
  case (Suc n)
  let ?seq = "mh_seq_no hdr + of_nat i"
  have seq: "unat ?seq + 1 < 2 ^ 64" using batch_seq [of hdr i] Suc.prems by simp
  show ?case
  proof (cases rule: parse_message_cases [of "drop off data" "mh_stream_id hdr" ?seq "mh_timestamp hdr" zero_event])
    case bad
    then show ?thesis by auto
  next
    case (good t ev)
    obtain emit st1 where a: "accept ?seq ev st = (emit, st1)" by (cases "accept ?seq ev st")
    note m = accept_mark [OF seq a]
    from Suc.IH [of "i + 1" "off + message_size t" st1] Suc.prems obtain evs st' bad where r:
      "on_batch n data hdr (i + 1) (off + message_size t) st1 = Some (evs, st', bad)" "mark st1 \<le> mark st'"
      "sorted_wrt (<) (map (\<lambda>ev. unat (me_seq_no ev)) evs)"
      "\<forall>ev \<in> set evs. me_stream_id ev = ucast (mh_stream_id hdr) \<and> me_type ev \<noteq> kHeartbeat \<and>
        mark st1 \<le> unat (me_seq_no ev) \<and> unat (me_seq_no ev) < mark st'" by auto
    have ev: "me_seq_no ev = ?seq" "me_stream_id ev = ucast (mh_stream_id hdr)"
      using good(5) by (simp_all add: header_part_def)
    have run: "on_batch (Suc n) data hdr i off st = Some (if emit then ev # evs else evs, st', bad)"
      using good(1,3) a r(1) by simp
    show ?thesis
    proof (cases emit)
      case True
      have "\<forall>x \<in> set evs. unat ?seq < unat (me_seq_no x)" using r(4) m(2) [OF True] by fastforce
      then show ?thesis using run True r m ev by (fastforce intro: le_trans)
    next
      case False
      then show ?thesis using run r m(1) by (fastforce intro: le_trans)
    qed
  qed
qed auto

text \<open>The packet's header and that its sequence numbers do not run past \<open>2 ^ 64\<close>.\<close>

definition no_wrap :: "u8 list \<Rightarrow> bool" where
  "no_wrap data = (case parse_header data of
     Some (Some hdr) \<Rightarrow> unat (mh_seq_no hdr) + unat (mh_msg_count hdr) < 2 ^ 64 | _ \<Rightarrow> True)"

lemma on_packet_order:
  assumes "no_wrap data"
  shows "\<exists>evs fh'. on_packet src data fh = Some (evs, fh') \<and>
    (\<forall>sid. mark (fh_streams fh sid) \<le> mark (fh_streams fh' sid)) \<and>
    sorted_wrt (<) (map (\<lambda>ev. unat (me_seq_no ev)) evs) \<and>
    (\<forall>ev \<in> set evs. mark (fh_streams fh (unat (me_stream_id ev))) \<le> unat (me_seq_no ev) \<and>
      unat (me_seq_no ev) < mark (fh_streams fh' (unat (me_stream_id ev))))"
proof (cases "length data < kMtbtHeaderSize")
  case True
  then show ?thesis by (simp add: on_packet_def parse_header_None)
next
  case False
  then obtain hdr where h: "parse_header data = Some (Some hdr)" using parse_header_Some [of data] by auto
  let ?sid = "unat (mh_stream_id hdr)"
  have lt: "\<not> kMaxStreams \<le> ?sid" using unsigned_less [of "mh_stream_id hdr", where 'a = nat] by (simp add: kMaxStreams_def)
  have wrap: "unat (mh_seq_no hdr) + 0 + unat (mh_msg_count hdr) < 2 ^ 64" using assms h by (simp add: no_wrap_def)
  have conv: "unat (ucast (mh_stream_id hdr) :: u32) = ?sid"
    using unsigned_less [of "mh_stream_id hdr", where 'a = nat] by (simp add: unsigned_ucast_eq take_bit_nat_eq_self)
  from on_batch_order [OF wrap, of data kMtbtHeaderSize "(fh_streams fh ?sid)\<lparr>ss_packets := ss_packets (fh_streams fh ?sid) + 1\<rparr>"]
  show ?thesis using h lt conv by (fastforce simp: on_packet_def Let_def)
qed

subsection \<open>Two sources of one stream\<close>

text \<open>A batch whose first message is the next one of the stream is emitted as the parser emits
  it.\<close>

lemma accept_next:
  assumes "mark st = 0 \<or> mark st = unat seq"
  shows "accept seq ev st = (me_type ev \<noteq> kHeartbeat, snd (accept seq ev st))"
    and "ss_next_seq (snd (accept seq ev st)) = seq + 1" and "ss_gaps (snd (accept seq ev st)) = ss_gaps st"
proof -
  have "ss_next_seq st = 0 \<or> ss_next_seq st = seq" using assms by (simp add: unat_eq_zero word_unat_eq_iff [of "ss_next_seq st" seq])
  then show "accept seq ev st = (me_type ev \<noteq> kHeartbeat, snd (accept seq ev st))"
    "ss_next_seq (snd (accept seq ev st)) = seq + 1" "ss_gaps (snd (accept seq ev st)) = ss_gaps st"
    by (auto simp: accept_def Let_def)
qed

lemma on_batch_next:
  assumes "parse_batch n data hdr i off p = Some (evs, p')" "mp_malformed p' = mp_malformed p"
    and "unat (mh_seq_no hdr) + i + n < 2 ^ 64" and "mark st = 0 \<or> mark st = unat (mh_seq_no hdr) + i" and "0 < n"
  shows "\<exists>st'. on_batch n data hdr i off st = Some (evs, st', False) \<and> mark st' = unat (mh_seq_no hdr) + i + n \<and>
    ss_gaps st' = ss_gaps st"
  using assms
proof (induction n arbitrary: i off p evs st)
  case (Suc n)
  let ?seq = "mh_seq_no hdr + of_nat i"
  have seq: "unat ?seq = unat (mh_seq_no hdr) + i" using batch_seq [of hdr i] Suc.prems(3) by simp
  show ?case
  proof (cases rule: parse_message_cases [of "drop off data" "mh_stream_id hdr" ?seq "mh_timestamp hdr" zero_event])
    case bad
    then show ?thesis using Suc.prems(1,2) by auto
  next
    case (good t ev)
    obtain l q where l: "parse_batch n data hdr (i + 1) (off + message_size t) (p\<lparr>mp_parsed := mp_parsed p + 1\<rparr>) = Some (l, q)"
        "evs = (if me_type ev \<noteq> kHeartbeat then ev # l else l)" "q = p'"
      using Suc.prems(1) good(1,3) by (auto simp: bind_eq_Some_conv)
    define st1 where "st1 = snd (accept ?seq ev st)"
    note a = accept_next [of st ?seq ev, folded st1_def]
    have a: "accept ?seq ev st = (me_type ev \<noteq> kHeartbeat, st1)" "mark st1 = unat (mh_seq_no hdr) + i + 1" "ss_gaps st1 = ss_gaps st"
      using a Suc.prems(3,4) seq batch_seq [of hdr "i + 1"] by (simp_all add: ac_simps)
    show ?thesis
    proof (cases "n = 0")
      case True
      then show ?thesis using good(1,3) a l by auto
    next
      case False
      have "mp_malformed p' = mp_malformed (p\<lparr>mp_parsed := mp_parsed p + 1\<rparr>)" using Suc.prems(2) by simp
      from Suc.IH [OF l(1) [unfolded l(3)] this, of st1] Suc.prems(3) a(2) False obtain st' where
        "on_batch n data hdr (i + 1) (off + message_size t) st1 = Some (l, st', False)"
        "mark st' = unat (mh_seq_no hdr) + i + Suc n" "ss_gaps st' = ss_gaps st1" by auto
      then show ?thesis using good(1,3) a l(2) by simp
    qed
  qed
qed simp

text \<open>A stream of packets without gaps: each packet with the events the parser emits for it, all
  messages well formed, each starting where the one before ends.\<close>

fun gapless :: "u16 \<Rightarrow> nat \<Rightarrow> (u8 list \<times> MarketEvent list) list \<Rightarrow> bool" where
  "gapless sid start [] \<longleftrightarrow> start < 2 ^ 64"
| "gapless sid start ((data, evs) # ps) \<longleftrightarrow>
     (case parse_header data of Some (Some hdr) \<Rightarrow>
        mh_stream_id hdr = sid \<and> unat (mh_seq_no hdr) = start \<and> 0 < mh_msg_count hdr \<and>
        (case parse_packet data MtbtParser_init of None \<Rightarrow> False
         | Some (evs', p') \<Rightarrow> evs' = evs \<and> mp_malformed p' = 0) \<and>
        gapless sid (start + unat (mh_msg_count hdr)) ps
      | _ \<Rightarrow> False)"

text \<open>What arrives from the two sources: copies of the stream's packets, by their index. A packet
  may come once, twice or more often, but the first copy of a packet never before the first
  copy of the one that precedes it. \<open>arrived\<close> is the number of packets seen at the end.\<close>

fun arrival_ok :: "nat \<Rightarrow> (FeedSource \<times> nat) list \<Rightarrow> nat \<Rightarrow> bool" where
  "arrival_ok len [] m \<longleftrightarrow> True"
| "arrival_ok len ((src, k) # as) m \<longleftrightarrow> k \<le> m \<and> k < len \<and> arrival_ok len as (if k = m then m + 1 else m)"

fun arrived :: "(FeedSource \<times> nat) list \<Rightarrow> nat \<Rightarrow> nat" where
  "arrived [] m = m"
| "arrived ((src, k) # as) m = arrived as (if k = m then m + 1 else m)"

definition msg_count_of :: "u8 list \<Rightarrow> nat" where
  "msg_count_of data = (case parse_header data of Some (Some hdr) \<Rightarrow> unat (mh_msg_count hdr) | _ \<Rightarrow> 0)"

fun start_of :: "nat \<Rightarrow> (u8 list \<times> MarketEvent list) list \<Rightarrow> nat \<Rightarrow> nat" where
  "start_of s ps 0 = s"
| "start_of s [] (Suc k) = s"
| "start_of s (p # ps) (Suc k) = start_of (s + msg_count_of (fst p)) ps k"

lemma start_of_mono: "k \<le> k' \<Longrightarrow> start_of s ps k \<le> start_of s ps k'"
proof (induction s ps k arbitrary: k' rule: start_of.induct)
  case (1 s ps)
  have "s \<le> start_of s ps k'" by (induction s ps k' rule: start_of.induct) auto
  then show ?case by simp
next
  case (2 s k)
  then show ?case by (cases k') auto
next
  case (3 s p ps k)
  then show ?case by (cases k') auto
qed

lemma gapless_bound: "gapless sid s ps \<Longrightarrow> k \<le> length ps \<Longrightarrow> start_of s ps k < 2 ^ 64"
proof (induction sid s ps arbitrary: k rule: gapless.induct)
  case (1 sid start)
  then show ?case by simp
next
  case (2 sid start data evs ps)
  obtain hdr where h: "parse_header data = Some (Some hdr)" "gapless sid (start + unat (mh_msg_count hdr)) ps"
    using 2(2) by (auto split: option.splits)
  have "start \<le> start_of start ((data, evs) # ps) (Suc 0)" using start_of_mono [of 0 "Suc 0" start "(data, evs) # ps"] by simp
  then show ?case
    using 2(1) [OF h(1) refl h(2)] 2(1) [OF h(1) refl h(2), of 0] 2(3) h(1) by (cases k) (auto simp: msg_count_of_def)
qed

lemma gapless_nth:
  "gapless sid s ps \<Longrightarrow> k < length ps \<Longrightarrow> \<exists>hdr p'. parse_header (fst (ps ! k)) = Some (Some hdr) \<and>
     mh_stream_id hdr = sid \<and> unat (mh_seq_no hdr) = start_of s ps k \<and> 0 < unat (mh_msg_count hdr) \<and>
     start_of s ps (Suc k) = start_of s ps k + unat (mh_msg_count hdr) \<and>
     parse_packet (fst (ps ! k)) MtbtParser_init = Some (snd (ps ! k), p') \<and> mp_malformed p' = 0"
proof (induction sid s ps arbitrary: k rule: gapless.induct)
  case (2 sid start data evs ps)
  obtain hdr where h: "parse_header data = Some (Some hdr)" "gapless sid (start + unat (mh_msg_count hdr)) ps"
    using 2(2) by (auto split: option.splits)
  show ?case
  proof (cases k)
    case 0
    then show ?thesis using 2(2) h(1) by (auto simp: msg_count_of_def unat_gt_0 word_gt_0 split: option.splits)
  next
    case (Suc k')
    then show ?thesis using 2(1) [OF h(1) refl h(2), of k'] 2(3) h(1) by (simp add: msg_count_of_def)
  qed
qed simp

text \<open>One arrival, when \<open>m\<close> packets of the stream have been consumed.\<close>

definition stream_at :: "u16 \<Rightarrow> nat \<Rightarrow> (u8 list \<times> MarketEvent list) list \<Rightarrow> nat \<Rightarrow> FeedHandler \<Rightarrow> bool" where
  "stream_at sid s ps m fh \<longleftrightarrow> mark (fh_streams fh (unat sid)) = (if m = 0 then 0 else start_of s ps m) \<and>
     ss_gaps (fh_streams fh (unat sid)) = 0"

lemma arrival_step:
  assumes g: "gapless sid s ps" and k: "k \<le> m" "k < length ps" "m \<le> length ps" and at: "stream_at sid s ps m fh"
  shows "\<exists>fh'. on_packet src (fst (ps ! k)) fh = Some (if k = m then snd (ps ! k) else [], fh') \<and>
    stream_at sid s ps (if k = m then m + 1 else m) fh' \<and> fh_malformed fh' = fh_malformed fh"
proof -
  from gapless_nth [OF g k(2)] obtain hdr p' where h: "parse_header (fst (ps ! k)) = Some (Some hdr)"
     "mh_stream_id hdr = sid" "unat (mh_seq_no hdr) = start_of s ps k" "0 < unat (mh_msg_count hdr)"
     "start_of s ps (Suc k) = start_of s ps k + unat (mh_msg_count hdr)"
     "parse_packet (fst (ps ! k)) MtbtParser_init = Some (snd (ps ! k), p')" "mp_malformed p' = 0" by blast
  have bound: "start_of s ps (Suc k) < 2 ^ 64" using gapless_bound [OF g, of "Suc k"] k(2) by simp
  have lt: "\<not> kMaxStreams \<le> unat sid" using unsigned_less [of sid, where 'a = nat] by (simp add: kMaxStreams_def)
  let ?st = "fh_streams fh (unat sid)"
  have hi: "unat (mh_seq_no hdr + ucast (mh_msg_count hdr)) = start_of s ps (Suc k)"
    using batch_seq [of hdr "unat (mh_msg_count hdr)"] bound h(3,5) by (simp add: unsigned_ucast_eq)
  show ?thesis
  proof (cases "k = m")
    case True
    let ?st1 = "?st\<lparr>ss_packets := ss_packets ?st + 1\<rparr>"
    have batch: "parse_batch (unat (mh_msg_count hdr)) (fst (ps ! k)) hdr 0 kMtbtHeaderSize MtbtParser_init = Some (snd (ps ! k), p')"
      using h(1,6) by (simp add: parse_packet_def)
    have m: "mark ?st1 = 0 \<or> mark ?st1 = unat (mh_seq_no hdr) + 0" using at True h(3) by (simp add: stream_at_def)
    from on_batch_next [OF batch _ _ m h(4)] h(3,5,7) bound obtain st' where st':
      "on_batch (unat (mh_msg_count hdr)) (fst (ps ! k)) hdr 0 kMtbtHeaderSize ?st1 = Some (snd (ps ! k), st', False)"
      "mark st' = start_of s ps (Suc k)" "ss_gaps st' = ss_gaps ?st" by (auto simp: MtbtParser_init_def)
    have "\<not> (ss_next_seq ?st \<noteq> 0 \<and> mh_seq_no hdr + ucast (mh_msg_count hdr) \<le> ss_next_seq ?st)"
      using m hi h(3-5) by (auto simp: word_le_nat_alt unat_eq_zero)
    then show ?thesis
      using True h(1,2) lt st' at by (auto simp: on_packet_def stream_at_def)
  next
    case False
    then have "Suc k \<le> m" using k(1) by simp
    then have le: "start_of s ps (Suc k) \<le> mark ?st" "0 < mark ?st"
      using start_of_mono [of "Suc k" m s ps] at h(4,5) by (auto simp: stream_at_def)
    then have "ss_next_seq ?st \<noteq> 0 \<and> mh_seq_no hdr + ucast (mh_msg_count hdr) \<le> ss_next_seq ?st"
      using hi by (auto simp: word_le_nat_alt)
    then show ?thesis using False h(1,2) lt at by (simp add: on_packet_def stream_at_def Let_def)
  qed
qed

lemma arrivals_emit:
  "gapless sid s ps \<Longrightarrow> arrival_ok (length ps) as m \<Longrightarrow> m \<le> length ps \<Longrightarrow> stream_at sid s ps m fh \<Longrightarrow>
    \<exists>fh'. on_packets (map (\<lambda>(src, k). (src, fst (ps ! k))) as) fh =
        Some (concat (map snd (drop m (take (arrived as m) ps))), fh') \<and>
      stream_at sid s ps (arrived as m) fh' \<and> m \<le> arrived as m \<and> fh_malformed fh' = fh_malformed fh"
proof (induction as arbitrary: m fh)
  case (Cons a as)
  obtain src k where a: "a = (src, k)" by (cases a)
  let ?m = "if k = m then m + 1 else m"
  have k: "k \<le> m" "k < length ps" "arrival_ok (length ps) as ?m" "?m \<le> length ps" using Cons.prems(2,3) a by auto
  obtain fh1 where 1: "on_packet src (fst (ps ! k)) fh = Some (if k = m then snd (ps ! k) else [], fh1)"
      "stream_at sid s ps ?m fh1" "fh_malformed fh1 = fh_malformed fh" using arrival_step [OF Cons.prems(1) k(1,2) Cons.prems(3,4)] by blast
  from Cons.IH [OF Cons.prems(1) k(3,4) 1(2)] obtain fh2 where 2:
    "on_packets (map (\<lambda>(src, k). (src, fst (ps ! k))) as) fh1 =
       Some (concat (map snd (drop ?m (take (arrived as ?m) ps))), fh2)"
    "stream_at sid s ps (arrived as ?m) fh2" "?m \<le> arrived as ?m" "fh_malformed fh2 = fh_malformed fh1" by blast
  have "drop m (take (arrived as ?m) ps) = ps ! m # drop (Suc m) (take (arrived as ?m) ps)" if "k = m"
    using that k(2) 2(3) by (subst Cons_nth_drop_Suc [symmetric]) auto
  then show ?case using 1 2 a by auto
qed auto

lemma on_packets_order:
  "\<forall>(src, data) \<in> set ps. no_wrap data \<Longrightarrow>
    \<exists>evs fh'. on_packets ps fh = Some (evs, fh') \<and>
      (\<forall>sid. mark (fh_streams fh sid) \<le> mark (fh_streams fh' sid) \<and>
        sorted_wrt (<) (map (\<lambda>ev. unat (me_seq_no ev)) (filter (\<lambda>ev. unat (me_stream_id ev) = sid) evs))) \<and>
      (\<forall>ev \<in> set evs. mark (fh_streams fh (unat (me_stream_id ev))) \<le> unat (me_seq_no ev) \<and>
        unat (me_seq_no ev) < mark (fh_streams fh' (unat (me_stream_id ev))))"
proof (induction ps arbitrary: fh)
  case (Cons a ps)
  obtain src data where a: "a = (src, data)" by (cases a)
  from on_packet_order [of data src fh] Cons.prems a obtain evs1 fh1 where 1: "on_packet src data fh = Some (evs1, fh1)"
    "\<forall>sid. mark (fh_streams fh sid) \<le> mark (fh_streams fh1 sid)" "sorted_wrt (<) (map (\<lambda>ev. unat (me_seq_no ev)) evs1)"
    "\<forall>ev \<in> set evs1. mark (fh_streams fh (unat (me_stream_id ev))) \<le> unat (me_seq_no ev) \<and>
      unat (me_seq_no ev) < mark (fh_streams fh1 (unat (me_stream_id ev)))" by auto
  from Cons.IH [of fh1] Cons.prems obtain evs2 fh2 where 2: "on_packets ps fh1 = Some (evs2, fh2)"
    "\<forall>sid. mark (fh_streams fh1 sid) \<le> mark (fh_streams fh2 sid) \<and>
        sorted_wrt (<) (map (\<lambda>ev. unat (me_seq_no ev)) (filter (\<lambda>ev. unat (me_stream_id ev) = sid) evs2))"
    "\<forall>ev \<in> set evs2. mark (fh_streams fh1 (unat (me_stream_id ev))) \<le> unat (me_seq_no ev) \<and>
        unat (me_seq_no ev) < mark (fh_streams fh2 (unat (me_stream_id ev)))" by auto
  have s1: "sorted_wrt (<) (map (\<lambda>ev. unat (me_seq_no ev)) (filter (\<lambda>ev. unat (me_stream_id ev) = sid) evs1))" for sid
    using 1(3) by (simp add: sorted_wrt_map sorted_wrt_filter)
  have less: "unat (me_seq_no e1) < unat (me_seq_no e2)"
    if "e1 \<in> set evs1" "e2 \<in> set evs2" "unat (me_stream_id e1) = unat (me_stream_id e2)" for e1 e2
    using bspec [OF 1(4) that(1)] bspec [OF 2(3) that(2)] that(3) by simp
  have "sorted_wrt (<) (map (\<lambda>ev. unat (me_seq_no ev)) (filter (\<lambda>ev. unat (me_stream_id ev) = sid) (evs1 @ evs2)))" for sid
    using s1 2(2) less by (auto simp: sorted_wrt_append)
  moreover have "mark (fh_streams fh (unat (me_stream_id ev))) \<le> unat (me_seq_no ev) \<and>
      unat (me_seq_no ev) < mark (fh_streams fh2 (unat (me_stream_id ev)))" if mem: "ev \<in> set (evs1 @ evs2)" for ev
  proof -
    let ?s = "unat (me_stream_id ev)"
    consider "ev \<in> set evs1" | "ev \<in> set evs2" using mem by auto
    then show ?thesis
      using bspec [OF 1(4), of ev] bspec [OF 2(3), of ev] spec [OF 1(2), of ?s] spec [OF 2(2), of ?s]
      by cases auto
  qed
  moreover have "mark (fh_streams fh sid) \<le> mark (fh_streams fh2 sid)" for sid using 1(2) 2(2) le_trans by blast
  ultimately show ?case using 1(1) 2(1) a by simp
qed simp

subsection \<open>Properties\<close>

text \<open>C11: the two sources are merged exactly once. Whenever copies of the packets of a gapless
  stream arrive from the two sources, in any interleaving in which no packet is seen for the
  first time before the one that precedes it, the handler emits the events of the packets that
  have arrived, each exactly once and in the order of the stream, and reports no gap.\<close>

theorem dual_feed_exactly_once:
  assumes "gapless sid start ps" and "arrival_ok (length ps) as 0"
  shows "\<exists>fh. on_packets (map (\<lambda>(src, k). (src, fst (ps ! k))) as) FeedHandler_init =
      Some (concat (map snd (take (arrived as 0) ps)), fh) \<and> ss_gaps (fh_streams fh (unat sid)) = 0"
proof -
  have "stream_at sid start ps 0 FeedHandler_init"
    by (simp add: stream_at_def FeedHandler_init_def StreamStats_default_def)
  from arrivals_emit [OF assms le0 this] show ?thesis by (auto simp: stream_at_def)
qed

definition example_packet :: "u8 list" where
  "example_packet = PutLe_u16 3 @ PutLe_u64 5 @ PutLe_u8 1 @ PutLe_u64 0 @ kOrderCancel # PutLe_i64 77 @ PutLe_u32 7"

lemma example_packet_parse:
  "parse_header example_packet = Some (Some \<lparr>mh_stream_id = 3, mh_seq_no = 5, mh_msg_count = 1, mh_timestamp = 0\<rparr>)"
  "parse_packet example_packet MtbtParser_init =
    Some ([(base_event kOrderCancel 3 5 0)\<lparr>me_order_no := 77, me_token := 7\<rparr>], MtbtParser_init\<lparr>mp_parsed := 1\<rparr>)"
proof -
  show h: "parse_header example_packet = Some (Some \<lparr>mh_stream_id = 3, mh_seq_no = 5, mh_msg_count = 1, mh_timestamp = 0\<rparr>)"
    by (simp add: example_packet_def parse_header_back)
  have "drop kMtbtHeaderSize example_packet = kOrderCancel # PutLe_i64 77 @ PutLe_u32 7"
    by (simp add: example_packet_def kMtbtHeaderSize_def)
  then show "parse_packet example_packet MtbtParser_init =
    Some ([(base_event kOrderCancel 3 5 0)\<lparr>me_order_no := 77, me_token := 7\<rparr>], MtbtParser_init\<lparr>mp_parsed := 1\<rparr>)"
    by (simp add: parse_packet_def h parse_message_def parse_body_def message_size_def mtbt_codes mtbt_sizes read_back
        base_event_def in_i64_def MtbtParser_init_def)
qed

theorem dual_feed_exactly_once_witness:
  "let ev = (base_event kOrderCancel 3 5 0)\<lparr>me_order_no := 77, me_token := 7\<rparr>
   in gapless 3 5 [(example_packet, [ev])] \<and> arrival_ok 1 [(kPrimary, 0), (kSecondary, 0)] 0 \<and>
      (\<exists>fh. on_packets [(kPrimary, example_packet), (kSecondary, example_packet)] FeedHandler_init = Some ([ev], fh))"
proof -
  let ?ev = "(base_event kOrderCancel 3 5 0)\<lparr>me_order_no := 77, me_token := 7\<rparr>"
  have g: "gapless 3 5 [(example_packet, [?ev])]" by (simp add: example_packet_parse) (simp add: MtbtParser_init_def)
  have a: "arrival_ok (length [(example_packet, [?ev])]) [(kPrimary, 0), (kSecondary, 0)] 0" by simp
  show ?thesis using g dual_feed_exactly_once [OF g a] by (auto simp: Let_def)
qed

text \<open>C13: per stream, the emitted sequence numbers are strictly increasing, whatever packets
  arrive in whatever order from both sources, malformed ones included, as long as for every packet the
  first sequence number plus the message count is below \<open>2 ^ 64\<close>; so no sequence number is emitted twice or out of order. (At the end of
  the 64-bit range the code's next expected number wraps to 0, which it takes for a stream not seen yet.)\<close>

theorem feed_strictly_increasing:
  assumes "\<forall>(src, data) \<in> set ps. no_wrap data"
  shows "\<exists>evs fh. on_packets ps FeedHandler_init = Some (evs, fh) \<and>
    (\<forall>sid. sorted_wrt (<) (map (\<lambda>ev. unat (me_seq_no ev)) (filter (\<lambda>ev. unat (me_stream_id ev) = sid) evs)))"
  using on_packets_order [OF assms, of FeedHandler_init] by blast

theorem feed_strictly_increasing_witness:
  "no_wrap example_packet \<and> (\<exists>evs fh. on_packets [(kPrimary, example_packet), (kSecondary, example_packet), (kPrimary, [])] FeedHandler_init = Some (evs, fh)
     \<and> sorted_wrt (<) (map (\<lambda>ev. unat (me_seq_no ev)) (filter (\<lambda>ev. unat (me_stream_id ev) = 3) evs)))"
proof -
  let ?ps = "[(kPrimary, example_packet), (kSecondary, example_packet), (kPrimary, [])]"
  have short: "parse_header [] = Some None" by (simp add: parse_header_def kMtbtHeaderSize_def)
  have "\<forall>(src, data) \<in> set ?ps. no_wrap data" "no_wrap example_packet"
    using short by (simp_all add: no_wrap_def example_packet_parse)
  then show ?thesis using feed_strictly_increasing [of ?ps] by blast
qed

end
