(* ===== verification/Fp64.thy ===== *)
theory Fp64
  imports Prelude "HOL-Library.Log_Nat"
begin

text \<open>
  Double-precision arithmetic, as far as the program uses it: the latency percentiles, the
  conversion of cycle counts and the order-rate limiter.

  A finite double is its exact rational value, and an operation of the language is the exact
  operation followed by \<open>fl\<close>, rounding to nearest with ties to even at 53 significant bits. All
  values the program computes this way stay far from the limits of the exponent range, which is
  therefore left out, as are infinities and NaNs.

  The locale \<open>ieee_rounding\<close> holds what the components rely on: rounding is monotone, exact on
  every number with at most 53 significant bits, and off by at most one part in \<open>2 ^ 53\<close>.
\<close>

definition round_even :: "rat \<Rightarrow> int" where
  "round_even q =
     (let f = \<lfloor>q\<rfloor>; r = q - of_int f
      in if r < 1 / 2 then f else if r > 1 / 2 then f + 1 else if even f then f else f + 1)"

text \<open>The binary exponent: the greatest \<open>e\<close> with \<open>2 powi e \<le> x\<close>, for positive \<open>x\<close>.\<close>

definition ilog2 :: "rat \<Rightarrow> int" where
  "ilog2 x = (if 1 \<le> x then int (floorlog 2 (nat \<lfloor>x\<rfloor>)) - 1
     else - int (floorlog 2 (nat (\<lceil>1 / x\<rceil> - 1))))"

definition fl_pos :: "rat \<Rightarrow> rat" where
  "fl_pos x = (let e = ilog2 x in of_int (round_even (x * 2 powi (52 - e))) * 2 powi (e - 52))"

definition fl :: "rat \<Rightarrow> rat" where
  "fl x = (if x = 0 then 0 else if x > 0 then fl_pos x else - fl_pos (- x))"

subsection \<open>Rounding to integers\<close>

lemma round_even_int [simp]: "round_even (of_int n) = n"
  by (simp add: round_even_def)

lemma round_even_above: "of_int (round_even q) \<le> q + 1 / 2"
proof -
  define f where "f = \<lfloor>q\<rfloor>"
  have f: "of_int f \<le> q" "q < of_int f + 1" using floor_correct [of q] by (simp_all add: f_def)
  consider "q - of_int f < 1 / 2" "round_even q = f" | "q - of_int f \<ge> 1 / 2" "round_even q \<le> f + 1"
    by (cases "q - of_int f < 1 / 2") (auto simp: round_even_def Let_def f_def)
  then show ?thesis
  proof cases
    case 1
    then show ?thesis using f by simp
  next
    case 2
    then have "(of_int (round_even q) :: rat) \<le> of_int (f + 1)" by (simp only: of_int_le_iff)
    then show ?thesis using 2(1) f by simp
  qed
qed

lemma round_even_mono:
  assumes "p \<le> q"
  shows "round_even p \<le> round_even q"
proof (cases "\<lfloor>p\<rfloor> = \<lfloor>q\<rfloor>")
  case True
  then show ?thesis using assms by (auto simp: round_even_def Let_def)
next
  case False
  then have "\<lfloor>p\<rfloor> + 1 \<le> \<lfloor>q\<rfloor>" using floor_mono [OF assms] by linarith
  moreover have "round_even p \<le> \<lfloor>p\<rfloor> + 1" "\<lfloor>q\<rfloor> \<le> round_even q" by (auto simp: round_even_def Let_def)
  ultimately show ?thesis by linarith
qed

subsection \<open>The exponent\<close>

lemma floorlog2_bounds: "0 < n \<Longrightarrow> 2 ^ (floorlog 2 n - 1) \<le> n" "n < 2 ^ floorlog 2 n"
proof -
  show "n < 2 ^ floorlog 2 n" using floorlog_leD [of 2 n "floorlog 2 n"] by simp
  show "2 ^ (floorlog 2 n - 1) \<le> n" if "0 < n"
  proof (rule ccontr)
    assume "\<not> 2 ^ (floorlog 2 n - 1) \<le> n"
    then have "floorlog 2 n \<le> floorlog 2 n - 1" using floorlog_leI [of n 2 "floorlog 2 n - 1"] by simp
    moreover have "0 < floorlog 2 n" using that by (simp add: floorlog_def)
    ultimately show False by simp
  qed
qed

lemma floorlog2_bounds_rat:
  assumes "0 < n"
  shows "(2 :: rat) ^ (floorlog 2 n - 1) \<le> of_nat n" and "of_nat n + 1 \<le> (2 :: rat) ^ floorlog 2 n"
proof -
  have "of_nat (2 ^ (floorlog 2 n - 1)) \<le> (of_nat n :: rat)"
    unfolding of_nat_le_iff by (rule floorlog2_bounds(1) [OF assms])
  then show "(2 :: rat) ^ (floorlog 2 n - 1) \<le> of_nat n" by simp
  have "of_nat (Suc n) \<le> (of_nat (2 ^ floorlog 2 n) :: rat)"
    unfolding of_nat_le_iff by (rule Suc_leI [OF floorlog2_bounds(2)])
  then show "of_nat n + 1 \<le> (2 :: rat) ^ floorlog 2 n" by (simp add: add.commute)
qed

lemma ilog2_bounds:
  assumes "0 < x"
  shows "2 powi ilog2 x \<le> x" and "x < 2 powi (ilog2 x + 1)"
proof -
  have "2 powi ilog2 x \<le> x \<and> x < 2 powi (ilog2 x + 1)"
  proof (cases "1 \<le> x")
    case True
    define n where "n = nat \<lfloor>x\<rfloor>"
    have n: "0 < n" "of_nat n \<le> x" "x < of_nat n + 1"
      using True floor_correct [of x] by (auto simp: n_def le_floor_iff)
    define k where "k = floorlog 2 n"
    have k: "0 < k" using n(1) by (simp add: k_def floorlog_def)
    note b = floorlog2_bounds_rat [OF n(1), folded k_def]
    have "2 powi ilog2 x = (2 :: rat) ^ (k - 1)"
    proof -
      have "ilog2 x = int (k - 1)" using True k by (simp add: ilog2_def k_def n_def)
      then show ?thesis by (simp only: power_int_of_nat)
    qed
    moreover have "2 powi (ilog2 x + 1) = (2 :: rat) ^ k"
    proof -
      have "ilog2 x + 1 = int k" using True k by (simp add: ilog2_def k_def n_def)
      then show ?thesis by (simp only: power_int_of_nat)
    qed
    ultimately show ?thesis using n b by linarith
  next
    case False
    define y where "y = 1 / x"
    have y: "1 < y" using False assms by (simp add: y_def)
    define n where "n = nat (\<lceil>y\<rceil> - 1)"
    have n: "0 < n" "of_nat n < y" "y \<le> of_nat n + 1"
      using y ceiling_correct [of y] by (auto simp: n_def less_ceiling_iff)
    define k where "k = floorlog 2 n"
    have k: "0 < k" using n(1) by (simp add: k_def floorlog_def)
    note b = floorlog2_bounds_rat [OF n(1), folded k_def]
    have lo: "(2 :: rat) ^ (k - 1) < y"
      using b(1) n(2) by linarith
    have hi: "y \<le> (2 :: rat) ^ k" using b(2) n(3) by linarith
    have e: "ilog2 x = - int k" using False by (simp add: ilog2_def k_def n_def y_def)
    have "2 powi ilog2 x = 1 / (2 :: rat) ^ k" by (simp only: e power_int_minus power_int_of_nat inverse_eq_divide)
    moreover have "2 powi (ilog2 x + 1) = 1 / (2 :: rat) ^ (k - 1)"
    proof -
      have "ilog2 x + 1 = - int (k - 1)" using k by (simp add: e)
      then show ?thesis by (simp only: power_int_minus power_int_of_nat inverse_eq_divide)
    qed
    moreover have "1 / 2 ^ k \<le> x" "x < 1 / 2 ^ (k - 1)" using lo hi assms by (simp_all add: y_def field_simps)
    ultimately show ?thesis by simp
  qed
  then show "2 powi ilog2 x \<le> x" "x < 2 powi (ilog2 x + 1)" by blast+
qed

lemma powi2_mono: "i \<le> j \<Longrightarrow> (2 :: rat) powi i \<le> 2 powi j"
  by (rule power_int_increasing) simp_all

lemma powi2_cancel: "(2 :: rat) powi (k - e) * 2 powi (e - k) = 1"
  by (simp flip: power_int_add)

lemma ilog2_mono:
  assumes "0 < x" "x \<le> y"
  shows "ilog2 x \<le> ilog2 y"
proof (rule ccontr)
  assume "\<not> ilog2 x \<le> ilog2 y"
  then have "2 powi (ilog2 y + 1) \<le> (2 :: rat) powi ilog2 x" by (intro powi2_mono) simp
  then show False using ilog2_bounds [of x] ilog2_bounds [of y] assms by linarith
qed

subsection \<open>Rounding a positive number\<close>

lemma significand_bounds:
  assumes "0 < x"
  shows "2 ^ 52 \<le> x * 2 powi (52 - ilog2 x)" and "x * 2 powi (52 - ilog2 x) \<le> 2 ^ 53"
proof -
  define s :: rat where "s = 2 powi (52 - ilog2 x)"
  have s: "0 < s" by (simp add: s_def)
  have lo: "2 powi ilog2 x * s = 2 ^ 52" by (simp add: s_def flip: power_int_add)
  have hi: "2 powi (ilog2 x + 1) * s = 2 ^ 53" by (simp add: s_def flip: power_int_add)
  show "2 ^ 52 \<le> x * 2 powi (52 - ilog2 x)"
    using mult_right_mono [OF ilog2_bounds(1) [OF assms], of s] s by (simp add: lo flip: s_def)
  show "x * 2 powi (52 - ilog2 x) \<le> 2 ^ 53"
    using mult_right_mono [OF less_imp_le [OF ilog2_bounds(2) [OF assms]], of s] s by (simp add: hi flip: s_def)
qed

lemma fl_pos_binade:
  assumes "0 < x"
  shows "2 powi ilog2 x \<le> fl_pos x" and "fl_pos x \<le> 2 powi (ilog2 x + 1)"
proof -
  define s :: rat where "s = 2 powi (ilog2 x - 52)"
  define m where "m = round_even (x * 2 powi (52 - ilog2 x))"
  have s: "0 < s" by (simp add: s_def)
  have f: "fl_pos x = of_int m * s" by (simp add: fl_pos_def Let_def m_def s_def)
  have "round_even (of_int (2 ^ 52)) \<le> m" unfolding m_def
    by (rule round_even_mono) (use significand_bounds(1) [OF assms] in simp)
  then have "of_int (2 ^ 52) \<le> (of_int m :: rat)" unfolding round_even_int of_int_le_iff .
  then have lo: "(2 :: rat) ^ 52 \<le> of_int m" by simp
  have "m \<le> round_even (of_int (2 ^ 53))" unfolding m_def
    by (rule round_even_mono) (use significand_bounds(2) [OF assms] in simp)
  then have "(of_int m :: rat) \<le> of_int (2 ^ 53)" unfolding round_even_int of_int_le_iff .
  then have hi: "of_int m \<le> (2 :: rat) ^ 53" by simp
  have e: "2 ^ 52 * s = 2 powi ilog2 x" "2 ^ 53 * s = 2 powi (ilog2 x + 1)"
    using power_int_add [of "2 :: rat" 52 "ilog2 x - 52"] power_int_add [of "2 :: rat" 53 "ilog2 x - 52"]
    by (simp_all add: s_def add.commute)
  show "2 powi ilog2 x \<le> fl_pos x" unfolding f e(1) [symmetric] using mult_right_mono [OF lo] s by simp
  show "fl_pos x \<le> 2 powi (ilog2 x + 1)" unfolding f e(2) [symmetric] using mult_right_mono [OF hi] s by simp
qed

lemma fl_pos_mono:
  assumes "0 < x" "x \<le> y"
  shows "fl_pos x \<le> fl_pos y"
proof (cases "ilog2 x = ilog2 y")
  case True
  then show ?thesis using assms
    by (auto simp: fl_pos_def Let_def intro!: mult_right_mono round_even_mono)
next
  case False
  then have "ilog2 x + 1 \<le> ilog2 y" using ilog2_mono [OF assms] by linarith
  then have "2 powi (ilog2 x + 1) \<le> (2 :: rat) powi ilog2 y" by (rule powi2_mono)
  then show ?thesis using fl_pos_binade(2) [of x] fl_pos_binade(1) [of y] assms by linarith
qed

lemma fl_pos_pos: "0 < x \<Longrightarrow> 0 < fl_pos x"
  using fl_pos_binade(1) [of x] by (rule less_le_trans [rotated]) simp_all

lemma fl_pos_error:
  assumes "0 < x"
  shows "fl_pos x \<le> x * (1 + 1 / 2 ^ 53)"
proof -
  define e where "e = ilog2 x"
  define s :: rat where "s = 2 powi (e - 52)"
  have s: "0 < s" by (simp add: s_def)
  have "fl_pos x \<le> (x * 2 powi (52 - e) + 1 / 2) * s"
    using mult_right_mono [OF round_even_above, of s "x * 2 powi (52 - e)"] s
    by (simp add: fl_pos_def Let_def e_def s_def)
  also have "\<dots> = x + s / 2"
    using powi2_cancel [of 52 e] by (simp add: s_def distrib_right mult.assoc)
  also have "s / 2 = 2 powi e / 2 ^ 53"
    using power_int_diff [of "2 :: rat" e 52] by (simp add: s_def)
  also have "x + 2 powi e / 2 ^ 53 \<le> x + x / 2 ^ 53"
    using ilog2_bounds(1) [OF assms] by (simp add: e_def divide_right_mono)
  finally show ?thesis by (simp add: distrib_left)
qed

lemma fl_pos_dyadic:
  assumes "0 < n" "n < 2 ^ 53"
  shows "fl_pos (of_int n * 2 powi k) = of_int n * 2 powi k"
proof -
  define x :: rat where "x = of_int n * 2 powi k"
  have x: "0 < x" using assms by (simp add: x_def)
  have "(of_int n :: rat) < of_int (2 ^ 53)" unfolding of_int_less_iff by (rule assms(2))
  then have "x < 2 ^ 53 * 2 powi k" by (simp add: x_def)
  also have "\<dots> = 2 powi (k + 53)" using power_int_add [of "2 :: rat" k 53] by (simp add: mult.commute)
  finally have "x < 2 powi (k + 53)" .
  then have e: "ilog2 x \<le> k + 52"
    using ilog2_bounds(1) [OF x] powi2_mono [of "k + 53" "ilog2 x"] by linarith
  have "x * 2 powi (52 - ilog2 x) = of_int n * 2 powi (k + (52 - ilog2 x))"
    by (simp add: x_def power_int_add mult.assoc)
  also have "\<dots> = of_int (n * 2 ^ nat (k + (52 - ilog2 x)))" using e by (simp add: power_int_def)
  finally have "of_int (round_even (x * 2 powi (52 - ilog2 x))) = x * 2 powi (52 - ilog2 x)"
    by (simp only: round_even_int)
  then have "fl_pos x = x" unfolding fl_pos_def Let_def
    by (simp only: mult.assoc powi2_cancel mult.right_neutral)
  then show ?thesis by (simp add: x_def)
qed

subsection \<open>The contract of the rounding\<close>

locale ieee_rounding =
  fixes rnd :: "rat \<Rightarrow> rat"
  assumes rnd_mono: "x \<le> y \<Longrightarrow> rnd x \<le> rnd y"
    and rnd_dyadic: "\<bar>n\<bar> < 2 ^ 53 \<Longrightarrow> rnd (of_int n * 2 powi k) = of_int n * 2 powi k"
    and rnd_error: "0 \<le> x \<Longrightarrow> rnd x \<le> x * (1 + 1 / 2 ^ 53)"
begin

lemma rnd_int: "\<bar>n\<bar> < 2 ^ 53 \<Longrightarrow> rnd (of_int n) = of_int n"
  using rnd_dyadic [of n 0] by simp

lemma rnd_half: "rnd (1 / 2) = 1 / 2"
  using rnd_dyadic [of 1 "- 1"] by simp

lemma rnd_0: "rnd 0 = 0"
  using rnd_int [of 0] by simp

lemma rnd_nonneg: "0 \<le> x \<Longrightarrow> 0 \<le> rnd x"
  using rnd_mono [of 0 x] by (simp add: rnd_0)

lemma rnd_le_int: "x \<le> of_int n \<Longrightarrow> \<bar>n\<bar> < 2 ^ 53 \<Longrightarrow> rnd x \<le> of_int n"
  using rnd_mono [of x "of_int n"] by (simp add: rnd_int)

lemma rnd_ge_int: "of_int n \<le> x \<Longrightarrow> \<bar>n\<bar> < 2 ^ 53 \<Longrightarrow> of_int n \<le> rnd x"
  using rnd_mono [of "of_int n" x] by (simp add: rnd_int)

lemma rnd_floor:
  assumes "0 \<le> x" "x < 2 ^ 52"
  shows "of_int \<lfloor>x\<rfloor> \<le> rnd x" and "rnd x \<le> of_int (\<lfloor>x\<rfloor> + 1)"
proof -
  have "0 \<le> \<lfloor>x\<rfloor>" "\<lfloor>x\<rfloor> < 2 ^ 52" using assms by (simp_all add: floor_less_iff)
  then have "\<bar>\<lfloor>x\<rfloor>\<bar> < 2 ^ 53" "\<bar>\<lfloor>x\<rfloor> + 1\<bar> < 2 ^ 53" by simp_all
  moreover have "x \<le> of_int (\<lfloor>x\<rfloor> + 1)" using floor_correct [of x] by linarith
  ultimately show "of_int \<lfloor>x\<rfloor> \<le> rnd x" "rnd x \<le> of_int (\<lfloor>x\<rfloor> + 1)"
    using rnd_ge_int [of "\<lfloor>x\<rfloor>" x] rnd_le_int [of x "\<lfloor>x\<rfloor> + 1"] by simp_all
qed

end

lemma fl_mono:
  assumes "x \<le> y"
  shows "fl x \<le> fl y"
  using assms fl_pos_mono [of x y] fl_pos_mono [of "- y" "- x"] fl_pos_pos [of y] fl_pos_pos [of "- x"]
  by (auto simp: fl_def)

lemma fl_dyadic:
  assumes "\<bar>n\<bar> < 2 ^ 53"
  shows "fl (of_int n * 2 powi k) = of_int n * 2 powi k"
proof -
  consider "n = 0" | "0 < n" | "n < 0" by linarith
  then show ?thesis
  proof cases
    case 1
    then show ?thesis by (simp add: fl_def)
  next
    case 2
    then have "0 < of_int n * (2 :: rat) powi k" by simp
    then show ?thesis using 2 assms fl_pos_dyadic [of n k] by (simp add: fl_def)
  next
    case 3
    then have "of_int n * (2 :: rat) powi k < 0" by (simp add: mult_neg_pos)
    then show ?thesis using 3 assms fl_pos_dyadic [of "- n" k] by (simp add: fl_def)
  qed
qed

lemma fl_error: "0 \<le> x \<Longrightarrow> fl x \<le> x * (1 + 1 / 2 ^ 53)"
  using fl_pos_error [of x] by (auto simp: fl_def)

interpretation fp: ieee_rounding fl
  by unfold_locales (simp_all only: fl_mono fl_dyadic fl_error)

end
