(* ===== verification/Time_Utils.thy ===== *)
theory Time_Utils
  imports Fp64 "HOL-Library.Multiset"
begin

text \<open>
  \<^verbatim>\<open>src/common/time_utils.hpp\<close>: the IST clock arithmetic, the boundaries of the trading
  session, the conversion of time-stamp-counter ticks and the latency recorder.

  The hardware counter and \<^verbatim>\<open>clock_gettime\<close> are read at the call sites: their readings are
  arguments here. The calibration loop takes the successive readings of the clock as a list and is
  \<open>None\<close> when it runs out of them, that is, while it would still be waiting.
\<close>

subsection \<open>The IST frame\<close>

definition kIstOffsetSeconds :: int where
  "kIstOffsetSeconds = 5 * 3600 + 30 * 60"

definition kNsPerSecond :: u64 where
  "kNsPerSecond = 1000000000"

definition kNsPerDay :: u64 where
  "kNsPerDay = 86400 * kNsPerSecond"

text \<open>A \<^verbatim>\<open>timespec\<close> is the pair of its seconds and nanoseconds.\<close>

type_synonym timespec = "int \<times> int"

definition ist_now_ns :: "timespec \<Rightarrow> u64" where
  "ist_now_ns ts = word_of_int (fst ts) * kNsPerSecond + word_of_int (snd ts)
     + word_of_int kIstOffsetSeconds * kNsPerSecond"

definition ist_midnight_ns :: "u64 \<Rightarrow> u64" where
  "ist_midnight_ns ist_ns = (ist_ns div kNsPerDay) * kNsPerDay"

definition ist_time_of_day_ns :: "u64 \<Rightarrow> int \<Rightarrow> int \<Rightarrow> int \<Rightarrow> u64" where
  "ist_time_of_day_ns reference_ist_ns hour minute second =
     (let tod = (word_of_int hour * 3600 + word_of_int minute * 60 + word_of_int second) * kNsPerSecond
      in ist_midnight_ns reference_ist_ns + tod)"

definition market_open_ns :: "u64 \<Rightarrow> u64" where
  "market_open_ns reference_ist_ns = ist_time_of_day_ns reference_ist_ns 9 15 0"

definition market_close_ns :: "u64 \<Rightarrow> u64" where
  "market_close_ns reference_ist_ns = ist_time_of_day_ns reference_ist_ns 15 30 0"

definition preopen_start_ns :: "u64 \<Rightarrow> u64" where
  "preopen_start_ns reference_ist_ns = ist_time_of_day_ns reference_ist_ns 9 0 0"

definition preclose_cancel_ns :: "u64 \<Rightarrow> u64" where
  "preclose_cancel_ns reference_ist_ns = ist_time_of_day_ns reference_ist_ns 15 25 0"

definition is_within_market_hours :: "u64 \<Rightarrow> bool" where
  "is_within_market_hours ist_ns \<longleftrightarrow> ist_ns \<ge> market_open_ns ist_ns \<and> ist_ns < market_close_ns ist_ns"

definition is_preopen :: "u64 \<Rightarrow> bool" where
  "is_preopen ist_ns \<longleftrightarrow> ist_ns \<ge> preopen_start_ns ist_ns \<and> ist_ns < market_open_ns ist_ns"

subsection \<open>The time-stamp counter\<close>

definition elapsed :: "timespec \<Rightarrow> timespec \<Rightarrow> u64" where
  "elapsed start_ts end_ts = word_of_int (fst end_ts - fst start_ts) * kNsPerSecond
     + word_of_int (snd end_ts - snd start_ts)"

text \<open>The \<^verbatim>\<open>do\<close> loop of \<^verbatim>\<open>Calibrate\<close>: it reads the clock until 100 ms have elapsed.\<close>

fun calibrate_loop :: "timespec \<Rightarrow> timespec list \<Rightarrow> u64 option" where
  "calibrate_loop start_ts [] = None"
| "calibrate_loop start_ts (end_ts # reads) =
     (let elapsed_ns = elapsed start_ts end_ts
      in if elapsed_ns < 100 * 1000000 then calibrate_loop start_ts reads else Some elapsed_ns)"

definition Calibrate :: "timespec \<Rightarrow> u64 \<Rightarrow> timespec list \<Rightarrow> u64 \<Rightarrow> rat option" where
  "Calibrate start_ts start_tsc reads end_tsc =
     (case calibrate_loop start_ts reads of
        None \<Rightarrow> None
      | Some elapsed_ns \<Rightarrow>
          (let tpns = fl (fl (of_nat (unat (end_tsc - start_tsc))) / fl (of_nat (unat elapsed_ns)))
           in Some (if tpns > 0 then tpns else 1)))"

definition ticks_per_second :: "rat \<Rightarrow> u64" where
  "ticks_per_second ticks_per_ns = word_of_int \<lfloor>fl (ticks_per_ns * fl (of_nat (unat kNsPerSecond)))\<rfloor>"

definition to_ns :: "rat \<Rightarrow> u64 \<Rightarrow> u64" where
  "to_ns ticks_per_ns cycles = word_of_int \<lfloor>fl (fl (of_nat (unat cycles)) / ticks_per_ns)\<rfloor>"

subsection \<open>LatencyTracker\<close>

record LatencyTracker =
  lt_samples :: "nat \<Rightarrow> u64"
  lt_size :: nat
  lt_count :: u64
  lt_min :: u64
  lt_max :: u64
  lt_sum :: u64

definition LatencyTracker_init :: "nat \<Rightarrow> LatencyTracker" where
  "LatencyTracker_init max_samples =
     \<lparr>lt_samples = (\<lambda>_. 0), lt_size = max_samples, lt_count = 0, lt_min = - 1, lt_max = 0, lt_sum = 0\<rparr>"

definition record_sample :: "u64 \<Rightarrow> LatencyTracker \<Rightarrow> LatencyTracker" where
  "record_sample ns lt =
     lt\<lparr>lt_samples := (if unat (lt_count lt) < lt_size lt then (lt_samples lt)(unat (lt_count lt) := ns)
                      else lt_samples lt),
        lt_count := lt_count lt + 1,
        lt_min := min (lt_min lt) ns,
        lt_max := max (lt_max lt) ns,
        lt_sum := lt_sum lt + ns\<rparr>"

definition lt_min_of :: "LatencyTracker \<Rightarrow> u64" where
  "lt_min_of lt = (if lt_count lt = 0 then 0 else lt_min lt)"

definition mean :: "LatencyTracker \<Rightarrow> u64" where
  "mean lt = (if lt_count lt = 0 then 0 else lt_sum lt div lt_count lt)"

definition retained :: "LatencyTracker \<Rightarrow> nat" where
  "retained lt = min (unat (lt_count lt)) (lt_size lt)"

definition percentile :: "LatencyTracker \<Rightarrow> rat \<Rightarrow> u64" where
  "percentile lt p =
     (let n = retained lt
      in if n = 0 then 0
         else let sorted = sort (map (lt_samples lt) [0 ..< n]);
                  rank = fl (fl (p / 100) * fl (of_nat (n - 1)));
                  idx = nat \<lfloor>fl (rank + 1 / 2)\<rfloor>
              in sorted ! (if idx \<ge> n then n - 1 else idx))"

definition p50 :: "LatencyTracker \<Rightarrow> u64" where
  "p50 lt = percentile lt 50"

definition p99 :: "LatencyTracker \<Rightarrow> u64" where
  "p99 lt = percentile lt 99"

definition p999 :: "LatencyTracker \<Rightarrow> u64" where
  "p999 lt = percentile lt (fl (999 / 10))"

definition reset :: "LatencyTracker \<Rightarrow> LatencyTracker" where
  "reset lt = lt\<lparr>lt_count := 0, lt_min := - 1, lt_max := 0, lt_sum := 0\<rparr>"

text \<open>Recording a list of samples in order.\<close>

definition record_all :: "u64 list \<Rightarrow> LatencyTracker \<Rightarrow> LatencyTracker" where
  "record_all xs lt = fold record_sample xs lt"

subsection \<open>Session boundaries\<close>

definition day_ns :: nat where
  "day_ns = 86400 * 1000000000"

lemma unat_kNsPerDay: "unat kNsPerDay = day_ns"
  by (simp add: kNsPerDay_def kNsPerSecond_def day_ns_def)

lemma midnight_le: "ist_midnight_ns t \<le> t" and unat_midnight: "unat (ist_midnight_ns t) = unat t div day_ns * day_ns"
proof -
  have "unat t div day_ns * day_ns < 2 ^ 64"
    by (rule le_less_trans [OF div_times_less_eq_dividend]) (use unsigned_less [of t, where 'a = nat] in simp)
  then show eq: "unat (ist_midnight_ns t) = unat t div day_ns * day_ns"
    by (simp add: ist_midnight_ns_def unat_word_ariths unat_div unat_kNsPerDay mod_mult_left_eq)
  show "ist_midnight_ns t \<le> t" unfolding word_le_nat_alt eq by (rule div_times_less_eq_dividend)
qed

text \<open>A time of day is that many nanoseconds after midnight, as long as the day ends before the clock wraps.\<close>

lemma unat_midnight_plus:
  assumes "unat t + day_ns < 2 ^ 64" "tod < day_ns"
  shows "unat (ist_midnight_ns t + of_nat tod) = unat t div day_ns * day_ns + tod"
proof -
  have "unat t div day_ns * day_ns + tod < 2 ^ 64" using assms div_times_less_eq_dividend [of "unat t" day_ns] by linarith
  then show ?thesis using assms by (simp add: unat_word_ariths unat_midnight unat_of_nat day_ns_def)
qed

lemma session_offsets:
  "market_open_ns t = ist_midnight_ns t + of_nat (33300 * 1000000000)"
  "market_close_ns t = ist_midnight_ns t + of_nat (55800 * 1000000000)"
  "preopen_start_ns t = ist_midnight_ns t + of_nat (32400 * 1000000000)"
  "preclose_cancel_ns t = ist_midnight_ns t + of_nat (55500 * 1000000000)"
  by (simp_all add: market_open_ns_def market_close_ns_def preopen_start_ns_def preclose_cancel_ns_def
      ist_time_of_day_ns_def kNsPerSecond_def)

lemma unat_session:
  assumes "unat t + day_ns < 2 ^ 64"
  shows "unat (market_open_ns t) = unat t div day_ns * day_ns + 33300 * 1000000000"
    and "unat (market_close_ns t) = unat t div day_ns * day_ns + 55800 * 1000000000"
    and "unat (preopen_start_ns t) = unat t div day_ns * day_ns + 32400 * 1000000000"
    and "unat (preclose_cancel_ns t) = unat t div day_ns * day_ns + 55500 * 1000000000"
  unfolding session_offsets
  by (rule unat_midnight_plus [OF assms], simp add: day_ns_def)+

text \<open>The session predicates depend on the time of day alone: a timestamp is within market hours
  exactly when its offset from IST midnight is in [09:15:00, 15:30:00), and in the pre-open exactly
  when it is in [09:00:00, 09:15:00), for every timestamp at least a day before the 64-bit clock
  wraps.\<close>

theorem market_hours_by_time_of_day:
  assumes "unat t + day_ns < 2 ^ 64"
  shows "(is_within_market_hours t \<longleftrightarrow>
           unat t mod day_ns \<in> {33300 * 1000000000 ..< 55800 * 1000000000})
       \<and> (is_preopen t \<longleftrightarrow> unat t mod day_ns \<in> {32400 * 1000000000 ..< 33300 * 1000000000})"
proof -
  define m where "m = unat t div day_ns * day_ns"
  have "unat t = m + unat t mod day_ns" by (simp add: m_def)
  then show ?thesis
    unfolding is_within_market_hours_def is_preopen_def word_le_nat_alt word_less_nat_alt
      unat_session [OF assms, folded m_def] atLeastLessThan_iff
    by linarith
qed

theorem market_hours_by_time_of_day_witness:
  "unat (33300000000000 :: u64) + day_ns < 2 ^ 64 \<and> is_within_market_hours 33300000000000
     \<and> \<not> is_preopen 33300000000000"
  using market_hours_by_time_of_day [of 33300000000000] by (simp add: day_ns_def)

subsection \<open>The latency recorder\<close>

lemma record_fields [simp]:
  "lt_size (record_sample ns lt) = lt_size lt"
  "lt_count (record_sample ns lt) = lt_count lt + 1"
  "lt_min (record_sample ns lt) = min (lt_min lt) ns"
  "lt_max (record_sample ns lt) = max (lt_max lt) ns"
  "lt_sum (record_sample ns lt) = lt_sum lt + ns"
  by (simp_all add: record_sample_def)

lemma record_all_snoc: "record_all (xs @ [x]) lt = record_sample x (record_all xs lt)"
  by (simp add: record_all_def)

text \<open>What a recorder holds after the samples \<open>xs\<close>: the counters over all of them, and the first ones verbatim.\<close>

definition tracks :: "LatencyTracker \<Rightarrow> u64 list \<Rightarrow> bool" where
  "tracks lt xs \<longleftrightarrow> unat (lt_count lt) = length xs
     \<and> lt_min lt = foldr min xs (- 1) \<and> lt_max lt = foldr max xs 0 \<and> lt_sum lt = sum_list xs
     \<and> (\<forall>i < min (length xs) (lt_size lt). lt_samples lt i = xs ! i)"

lemma tracks_start: "tracks (LatencyTracker_init m) []" "tracks (reset lt) []"
  by (simp_all add: tracks_def LatencyTracker_init_def reset_def)

lemma foldr_min_snoc: "foldr min (xs @ [x]) a = min (foldr min xs a) (x :: 'a :: linorder)"
  by (induction xs) (simp_all add: min.commute min.left_commute)

lemma foldr_max_snoc: "foldr max (xs @ [x]) a = max (foldr max xs a) (x :: 'a :: linorder)"
  by (induction xs) (simp_all add: max.commute max.left_commute)

lemma tracks_record:
  assumes "tracks lt xs" "length xs + 1 < 2 ^ 64"
  shows "tracks (record_sample x lt) (xs @ [x])"
proof -
  have c: "unat (lt_count lt) = length xs" using assms(1) by (simp add: tracks_def)
  then have "unat (lt_count lt + 1) = length xs + 1"
    using assms(2) by (simp add: unat_word_ariths)
  moreover have "lt_samples (record_sample x lt) i = (xs @ [x]) ! i"
    if "i < min (length (xs @ [x])) (lt_size lt)" for i
    using that assms(1) c by (auto simp: record_sample_def tracks_def nth_append less_Suc_eq)
  ultimately show ?thesis using assms(1) unfolding tracks_def foldr_min_snoc foldr_max_snoc
    by (simp add: add.commute)
qed

lemma tracks_record_all:
  "tracks lt [] \<Longrightarrow> length xs < 2 ^ 64 \<Longrightarrow> tracks (record_all xs lt) xs \<and> lt_size (record_all xs lt) = lt_size lt"
proof (induction xs rule: rev_induct)
  case Nil
  then show ?case by (simp add: record_all_def)
next
  case (snoc x xs)
  then show ?case using tracks_record [of "record_all xs lt" xs x] by (simp add: record_all_snoc)
qed

lemma tracks_retained: "tracks lt xs \<Longrightarrow> map (lt_samples lt) [0 ..< retained lt] = take (lt_size lt) xs"
  by (rule nth_equalityI) (auto simp: tracks_def retained_def)

text \<open>The index a percentile reads.\<close>

definition raw_index :: "nat \<Rightarrow> rat \<Rightarrow> nat" where
  "raw_index k p = nat \<lfloor>fl (fl (fl (p / 100) * fl (of_nat k)) + 1 / 2)\<rfloor>"

definition rank_index :: "nat \<Rightarrow> rat \<Rightarrow> nat" where
  "rank_index n p = (if raw_index (n - 1) p \<ge> n then n - 1 else raw_index (n - 1) p)"

lemma percentile_sorted:
  "percentile lt p = (if retained lt = 0 then 0
     else sort (map (lt_samples lt) [0 ..< retained lt]) ! rank_index (retained lt) p)"
  by (simp add: percentile_def rank_index_def raw_index_def Let_def)

lemma rank_index_less: "0 < n \<Longrightarrow> rank_index n p < n"
  by (simp add: rank_index_def)

lemma raw_index_mono:
  assumes "p \<le> q"
  shows "raw_index k p \<le> raw_index k q"
proof -
  have "fl (p / 100) \<le> fl (q / 100)" using assms by (intro fp.rnd_mono) simp
  then have "fl (fl (p / 100) * fl (of_nat k)) \<le> fl (fl (q / 100) * fl (of_nat k))"
    by (rule fp.rnd_mono [OF mult_right_mono]) (simp add: fp.rnd_nonneg)
  then show ?thesis unfolding raw_index_def
    by (intro nat_mono floor_mono fp.rnd_mono) (simp only: add_le_cancel_right)
qed

lemma rank_index_mono: "p \<le> q \<Longrightarrow> rank_index n p \<le> rank_index n q"
  using raw_index_mono [of p q "n - 1"] by (auto simp: rank_index_def)

lemma rank_index_ends:
  assumes "0 < n" "n < 2 ^ 52"
  shows "rank_index n 0 = 0" and "rank_index n 100 = n - 1"
proof -
  show "rank_index n 0 = 0" using assms(1) by (simp add: rank_index_def raw_index_def fp.rnd_0 fp.rnd_half)
  define k where "k = n - 1"
  have 1: "fl 1 = 1" using fp.rnd_int [of 1] by simp
  have m: "fl (of_nat k) = of_nat k" using fp.rnd_int [of "int k"] assms by (simp add: k_def)
  have "of_int (int k) \<le> fl (of_nat k + 1 / 2)"
    by (rule fp.rnd_ge_int) (use assms in \<open>simp_all add: k_def\<close>)
  then have "k \<le> raw_index k 100" by (simp add: le_floor_iff le_nat_iff raw_index_def 1 m)
  then show "rank_index n 100 = n - 1" unfolding rank_index_def k_def [symmetric] by (auto simp: k_def)
qed

lemma foldr_min_Min: "xs \<noteq> [] \<Longrightarrow> foldr min xs (- 1) = Min (set xs)" for xs :: "u64 list"
proof (induction xs)
  case (Cons x xs)
  then show ?case by (cases "xs = []") (auto simp: min_absorb1)
qed simp

lemma foldr_max_Max: "xs \<noteq> [] \<Longrightarrow> foldr max xs 0 = Max (set xs)" for xs :: "u64 list"
proof (induction xs)
  case (Cons x xs)
  then show ?case by (cases "xs = []") (auto simp: max_absorb1)
qed simp

lemma sort_nth_ends:
  assumes "xs \<noteq> []"
  shows "sort xs ! 0 = Min (set xs)" and "sort xs ! (length xs - 1) = Max (set xs)"
proof -
  have mem: "sort xs ! i \<in> set xs" if "i < length xs" for i using that nth_mem [of i "sort xs"] by simp
  have ord: "sort xs ! i \<le> sort xs ! j" if "i \<le> j" "j < length xs" for i j
    using that by (simp add: sorted_nth_mono)
  have ex: "\<exists>i < length xs. y = sort xs ! i" if "y \<in> set xs" for y
    using that by (metis in_set_conv_nth length_sort set_sort)
  show "sort xs ! 0 = Min (set xs)"
    by (rule Min_eqI [symmetric]) (use mem [of 0] ord [of 0] ex assms in auto)
  show "sort xs ! (length xs - 1) = Max (set xs)"
    by (rule Max_eqI [symmetric]) (use mem ord [of _ "length xs - 1"] ex assms in force)+
qed

text \<open>Percentiles over any recorder that tracks \<open>xs\<close>.\<close>

lemma tracks_percentile:
  assumes "tracks lt xs" "xs \<noteq> []" "0 < lt_size lt"
  shows "percentile lt p = sort (take (lt_size lt) xs) ! rank_index (retained lt) p"
    and "retained lt = length (take (lt_size lt) xs)" and "0 < retained lt"
proof -
  show r: "retained lt = length (take (lt_size lt) xs)" using assms(1) by (simp add: retained_def tracks_def min.commute)
  then show "0 < retained lt" using assms by simp
  then show "percentile lt p = sort (take (lt_size lt) xs) ! rank_index (retained lt) p"
    by (simp add: percentile_sorted tracks_retained [OF assms(1)])
qed

text \<open>The latency summary is that of the samples: after recording \<open>xs\<close> into a fresh recorder,
  count, minimum, maximum and (modulo the 64-bit sum) mean are those of all of \<open>xs\<close>; every percentile
  is one of the retained samples, the first \<open>m\<close>; percentile 0 is their minimum, percentile 100 their
  maximum, and a higher percentile is never smaller.\<close>

theorem latency_summary:
  assumes "0 < m" "xs \<noteq> []" "length xs < 2 ^ 52" "lt = record_all xs (LatencyTracker_init m)"
  shows "unat (lt_count lt) = length xs \<and> lt_min_of lt = Min (set xs) \<and> lt_max lt = Max (set xs)
       \<and> mean lt = sum_list xs div of_nat (length xs)
       \<and> percentile lt p \<in> set (take m xs)
       \<and> percentile lt 0 = Min (set (take m xs)) \<and> percentile lt 100 = Max (set (take m xs))
       \<and> (p \<le> q \<longrightarrow> percentile lt p \<le> percentile lt q)"
proof -
  have "tracks lt xs \<and> lt_size lt = m"
    using tracks_record_all [OF tracks_start(1) [of m], of xs] assms(3,4) by (simp add: LatencyTracker_init_def)
  then have t: "tracks lt xs" and m: "lt_size lt = m" by simp_all
  define ys where "ys = take m xs"
  define n where "n = length ys"
  have n: "0 < n" "n < 2 ^ 52" "ys \<noteq> []" using assms by (simp_all add: n_def ys_def)
  have pc: "percentile lt r = sort ys ! rank_index n r" for r
    using tracks_percentile [OF t assms(2)] assms(1) by (simp add: m ys_def n_def)
  have c: "unat (lt_count lt) = length xs" using t by (simp add: tracks_def)
  then have c': "lt_count lt = of_nat (length xs)" by (simp flip: c)
  have "lt_count lt \<noteq> 0" using c assms(2) by auto
  note c = c c' this
  have "percentile lt p \<in> set ys"
    unfolding pc using nth_mem [of "rank_index n p" "sort ys"] rank_index_less [OF n(1)] by (simp add: n_def)
  moreover have "percentile lt 0 = Min (set ys)" "percentile lt 100 = Max (set ys)"
    using sort_nth_ends [OF n(3), folded n_def] by (simp_all only: pc rank_index_ends [OF n(1,2)])
  moreover have "p \<le> q \<longrightarrow> percentile lt p \<le> percentile lt q"
    unfolding pc by (intro impI sorted_nth_mono rank_index_mono) (use rank_index_less [OF n(1)] in \<open>simp_all add: n_def\<close>)
  ultimately show ?thesis
    using t c assms(2) by (simp add: lt_min_of_def mean_def tracks_def foldr_min_Min foldr_max_Max ys_def)
qed

theorem latency_summary_witness:
  "let lt = record_all [30, 10, 20] (LatencyTracker_init 2)
   in lt_min_of lt = 10 \<and> lt_max lt = 30 \<and> mean lt = 20
      \<and> percentile lt 0 = 10 \<and> percentile lt 100 = 30 \<and> percentile lt 50 \<le> percentile lt 99"
  using latency_summary [of 2 "[30, 10, 20]" "record_all [30, 10, 20] (LatencyTracker_init 2)" 50 99]
  by (simp add: Let_def)

end
