(* ===== verification/Nnf_Encoder.thy ===== *)
theory Nnf_Encoder
  imports Byte_Codec Time_Utils "HOL-Library.Monad_Syntax"
begin

text \<open>
  \<^verbatim>\<open>src/order_manager/nnf_encoder.hpp\<close>: the encoder of the exchange's order-entry messages.

  The destination buffer is a byte list that the encoder overwrites in place; every store is
  \<open>None\<close> when it would leave the buffer. A C string is the list of its bytes before the
  terminator, and \<open>None\<close> is the null pointer. Characters are bytes.
\<close>

subsection \<open>Layout\<close>

definition kTcNewOrder :: u16 where "kTcNewOrder = 2073"
definition kTcModifyOrder :: u16 where "kTcModifyOrder = 2074"
definition kTcCancelOrder :: u16 where "kTcCancelOrder = 2075"
definition kTcHeartbeat :: u16 where "kTcHeartbeat = 23"
definition kTcSignOn :: u16 where "kTcSignOn = 2300"
definition kTcSignOff :: u16 where "kTcSignOff = 2320"
definition kTcGatewayRequest :: u16 where "kTcGatewayRequest = 2400"

definition kHdrTransCode :: nat where "kHdrTransCode = 0"
definition kHdrLogTime :: nat where "kHdrLogTime = 2"
definition kHdrAlphaChar :: nat where "kHdrAlphaChar = 6"
definition kHdrTraderId :: nat where "kHdrTraderId = 8"
definition kHdrErrorCode :: nat where "kHdrErrorCode = 12"
definition kHdrTimestamp :: nat where "kHdrTimestamp = 14"
definition kHdrTimestamp2 :: nat where "kHdrTimestamp2 = 22"
definition kHdrMsgLength :: nat where "kHdrMsgLength = 30"
definition kNnfHeaderSize :: nat where "kNnfHeaderSize = 32"
definition kNnfMaxMsg :: nat where "kNnfMaxMsg = 256"

lemmas nnf_layout = kHdrTransCode_def kHdrLogTime_def kHdrAlphaChar_def kHdrTraderId_def kHdrErrorCode_def
  kHdrTimestamp_def kHdrTimestamp2_def kHdrMsgLength_def kNnfHeaderSize_def kNnfMaxMsg_def

definition store_le_u16 :: "nat \<Rightarrow> u16 \<Rightarrow> u8 list \<Rightarrow> u8 list option" where
  "store_le_u16 p value = write_at p (PutLe_u16 value)"

definition store_le_i16 :: "nat \<Rightarrow> int \<Rightarrow> u8 list \<Rightarrow> u8 list option" where
  "store_le_i16 p value = write_at p (PutLe_i16 value)"

definition store_le_i32 :: "nat \<Rightarrow> int \<Rightarrow> u8 list \<Rightarrow> u8 list option" where
  "store_le_i32 p value = write_at p (PutLe_i32 value)"

definition store_le_i64 :: "nat \<Rightarrow> int \<Rightarrow> u8 list \<Rightarrow> u8 list option" where
  "store_le_i64 p value = write_at p (PutLe_i64 value)"

lemmas stores = store_le_u16_def store_le_i16_def store_le_i32_def store_le_i64_def

text \<open>The characters \<^verbatim>\<open>L\<close>, \<^verbatim>\<open>M\<close>, \<^verbatim>\<open>S\<close> and \<^verbatim>\<open>Q\<close>.\<close>

fun nnf_order_type_char :: "OrderType \<Rightarrow> u8" where
  "nnf_order_type_char kLimit = 76"
| "nnf_order_type_char kMarket = 77"
| "nnf_order_type_char kStopLoss = 83"
| "nnf_order_type_char kStopLossMarket = 81"

subsection \<open>The encoder\<close>

record NnfEncoder =
  ne_trader_id :: int
  ne_branch_id :: int
  ne_alpha :: "u8 list"
  ne_participant :: "u8 list"

definition NnfEncoder_init :: NnfEncoder where
  "NnfEncoder_init = \<lparr>ne_trader_id = 0, ne_branch_id = 0, ne_alpha = [32, 32], ne_participant = replicate 12 32\<rparr>"

definition set_trader_id :: "int \<Rightarrow> NnfEncoder \<Rightarrow> NnfEncoder" where
  "set_trader_id tid e = e\<lparr>ne_trader_id := tid\<rparr>"

definition set_alpha_char :: "u8 \<Rightarrow> u8 \<Rightarrow> NnfEncoder \<Rightarrow> NnfEncoder" where
  "set_alpha_char a b e = e\<lparr>ne_alpha := [a, b]\<rparr>"

definition set_branch_id :: "int \<Rightarrow> NnfEncoder \<Rightarrow> NnfEncoder" where
  "set_branch_id b e = e\<lparr>ne_branch_id := b\<rparr>"

definition set_participant_id :: "u8 list option \<Rightarrow> NnfEncoder \<Rightarrow> NnfEncoder" where
  "set_participant_id pid e =
     (let blank = replicate 12 32
      in case pid of
           None \<Rightarrow> e\<lparr>ne_participant := blank\<rparr>
         | Some s \<Rightarrow> (let n = length s; k = (if n < 12 then n else 12)
                     in e\<lparr>ne_participant := take k s @ drop k blank\<rparr>))"

definition two_digits :: "u64 \<Rightarrow> u8 list" where
  "two_digits v = [ucast (48 + (v div 10) mod 10), ucast (48 + v mod 10)]"

definition Two :: "nat \<Rightarrow> u64 \<Rightarrow> u8 list \<Rightarrow> u8 list option" where
  "Two dst v = write_at dst (two_digits v)"

definition encode_timestamp :: "nat \<Rightarrow> Timestamp \<Rightarrow> u8 list \<Rightarrow> u8 list option" where
  "encode_timestamp dst ist_ns buf =
     (let tod = ist_ns mod kNsPerDay;
          hh = tod div (3600 * kNsPerSecond);
          mm = (tod div (60 * kNsPerSecond)) mod 60;
          ss = (tod div kNsPerSecond) mod 60;
          hundredths = (tod mod kNsPerSecond) div 10000000
      in do { buf \<leftarrow> Two (dst + 0) hh buf;
              buf \<leftarrow> Two (dst + 2) mm buf;
              buf \<leftarrow> Two (dst + 4) ss buf;
              Two (dst + 6) hundredths buf })"

definition WriteHeader :: "NnfEncoder \<Rightarrow> u16 \<Rightarrow> Timestamp \<Rightarrow> int \<Rightarrow> u8 list \<Rightarrow> u8 list option" where
  "WriteHeader e tc now_ist len buf =
     do { buf \<leftarrow> store_le_u16 kHdrTransCode tc buf;
          buf \<leftarrow> store_le_i32 kHdrLogTime 0 buf;
          buf \<leftarrow> write_at (kHdrAlphaChar + 0) [ne_alpha e ! 0] buf;
          buf \<leftarrow> write_at (kHdrAlphaChar + 1) [ne_alpha e ! 1] buf;
          buf \<leftarrow> store_le_i32 kHdrTraderId (ne_trader_id e) buf;
          buf \<leftarrow> store_le_i16 kHdrErrorCode 0 buf;
          buf \<leftarrow> encode_timestamp kHdrTimestamp now_ist buf;
          buf \<leftarrow> write_at kHdrTimestamp2 (replicate 8 0) buf;
          store_le_i16 kHdrMsgLength len buf }"

definition encode_new_order ::
    "NnfEncoder \<Rightarrow> u8 list \<Rightarrow> Order \<Rightarrow> Timestamp \<Rightarrow> u8 \<Rightarrow> (nat \<times> u8 list) option" where
  "encode_new_order e buf ord now_ist open_close =
     (let kBody = 48; kTotal = kNnfHeaderSize + kBody; b = kNnfHeaderSize
      in if kTotal > kNnfMaxMsg then Some (0, buf)
         else do { buf \<leftarrow> WriteHeader e kTcNewOrder now_ist (to_i16 (int kTotal)) buf;
                   buf \<leftarrow> store_le_i32 (b + 0) (to_i32 (uint (o_token ord))) buf;
                   buf \<leftarrow> store_le_i16 (b + 4) (if o_side ord = kBuy then 1 else 2) buf;
                   buf \<leftarrow> store_le_i32 (b + 6) (o_qty ord) buf;
                   buf \<leftarrow> store_le_i32 (b + 10) (o_disclosed_qty ord) buf;
                   buf \<leftarrow> store_le_i64 (b + 14) (o_price ord) buf;
                   buf \<leftarrow> write_at (b + 22) [nnf_order_type_char (o_order_type ord)] buf;
                   buf \<leftarrow> store_le_i16 (b + 23) (to_i16 (Validity_code (o_validity ord))) buf;
                   buf \<leftarrow> store_le_i64 (b + 25) (o_client_order_id ord) buf;
                   buf \<leftarrow> write_at (b + 33) (take 12 (ne_participant e)) buf;
                   buf \<leftarrow> store_le_i16 (b + 45) (ne_branch_id e) buf;
                   buf \<leftarrow> write_at (b + 47) [open_close] buf;
                   Some (kTotal, buf) })"

definition encode_modify :: "NnfEncoder \<Rightarrow> u8 list \<Rightarrow> Order \<Rightarrow> Timestamp \<Rightarrow> (nat \<times> u8 list) option" where
  "encode_modify e buf ord now_ist =
     (let kBody = 36; kTotal = kNnfHeaderSize + kBody; b = kNnfHeaderSize
      in do { buf \<leftarrow> WriteHeader e kTcModifyOrder now_ist (to_i16 (int kTotal)) buf;
              buf \<leftarrow> store_le_i64 (b + 0) (o_exchange_order_no ord) buf;
              buf \<leftarrow> store_le_i32 (b + 8) (to_i32 (uint (o_token ord))) buf;
              buf \<leftarrow> store_le_i64 (b + 12) (o_price ord) buf;
              buf \<leftarrow> store_le_i32 (b + 20) (o_qty ord) buf;
              buf \<leftarrow> store_le_i32 (b + 24) (o_disclosed_qty ord) buf;
              buf \<leftarrow> store_le_i64 (b + 28) (o_client_order_id ord) buf;
              Some (kTotal, buf) })"

definition encode_cancel ::
    "NnfEncoder \<Rightarrow> u8 list \<Rightarrow> int \<Rightarrow> Token \<Rightarrow> ClOrdId \<Rightarrow> Timestamp \<Rightarrow> (nat \<times> u8 list) option" where
  "encode_cancel e buf exchange_order_no token clordid now_ist =
     (let kBody = 20; kTotal = kNnfHeaderSize + kBody; b = kNnfHeaderSize
      in do { buf \<leftarrow> WriteHeader e kTcCancelOrder now_ist (to_i16 (int kTotal)) buf;
              buf \<leftarrow> store_le_i64 (b + 0) exchange_order_no buf;
              buf \<leftarrow> store_le_i32 (b + 8) (to_i32 (uint token)) buf;
              buf \<leftarrow> store_le_i64 (b + 12) clordid buf;
              Some (kTotal, buf) })"

definition encode_heartbeat :: "NnfEncoder \<Rightarrow> u8 list \<Rightarrow> Timestamp \<Rightarrow> (nat \<times> u8 list) option" where
  "encode_heartbeat e buf now_ist =
     do { buf \<leftarrow> WriteHeader e kTcHeartbeat now_ist (to_i16 (int kNnfHeaderSize)) buf;
          Some (kNnfHeaderSize, buf) }"

definition encode_sign_on ::
    "NnfEncoder \<Rightarrow> u8 list \<Rightarrow> u8 list option \<Rightarrow> Timestamp \<Rightarrow> (nat \<times> u8 list) option" where
  "encode_sign_on e buf password now_ist =
     (let kBody = 32; kTotal = kNnfHeaderSize + kBody; b = kNnfHeaderSize
      in do { buf \<leftarrow> WriteHeader e kTcSignOn now_ist (to_i16 (int kTotal)) buf;
              buf \<leftarrow> write_at b (replicate kBody 0) buf;
              buf \<leftarrow> (case password of
                        None \<Rightarrow> Some buf
                      | Some s \<Rightarrow> (let n = length s in write_at b (take (if n < kBody then n else kBody) s) buf));
              Some (kTotal, buf) })"

definition encode_sign_off :: "NnfEncoder \<Rightarrow> u8 list \<Rightarrow> Timestamp \<Rightarrow> (nat \<times> u8 list) option" where
  "encode_sign_off e buf now_ist =
     do { buf \<leftarrow> WriteHeader e kTcSignOff now_ist (to_i16 (int kNnfHeaderSize)) buf;
          Some (kNnfHeaderSize, buf) }"

text \<open>The encoder's arrays have their declared lengths, and its numbers fit their fields.\<close>

definition encoder_ok :: "NnfEncoder \<Rightarrow> bool" where
  "encoder_ok e \<longleftrightarrow> length (ne_alpha e) = 2 \<and> length (ne_participant e) = 12
     \<and> in_i32 (ne_trader_id e) \<and> in_i16 (ne_branch_id e)"

definition order_fits :: "Order \<Rightarrow> bool" where
  "order_fits ord \<longleftrightarrow> in_i64 (o_client_order_id ord) \<and> in_i64 (o_exchange_order_no ord) \<and> in_i64 (o_price ord)
     \<and> in_i32 (o_qty ord) \<and> in_i32 (o_disclosed_qty ord)"

lemma encoder_ok_init: "encoder_ok NnfEncoder_init"
  by (simp add: encoder_ok_def NnfEncoder_init_def in_i32_def in_i16_def)

lemma encoder_ok_set:
  assumes "encoder_ok e"
  shows "in_i32 t \<Longrightarrow> encoder_ok (set_trader_id t e)" "encoder_ok (set_alpha_char a b e)"
    "in_i16 br \<Longrightarrow> encoder_ok (set_branch_id br e)" "encoder_ok (set_participant_id pid e)"
  using assms by (auto simp: encoder_ok_def set_trader_id_def set_alpha_char_def set_branch_id_def
      set_participant_id_def Let_def split: option.splits)

subsection \<open>The bytes of a message\<close>

definition timestamp_fields :: "Timestamp \<Rightarrow> u8 list list" where
  "timestamp_fields ist_ns =
     (let tod = ist_ns mod kNsPerDay
      in [two_digits (tod div (3600 * kNsPerSecond)), two_digits ((tod div (60 * kNsPerSecond)) mod 60),
          two_digits ((tod div kNsPerSecond) mod 60), two_digits ((tod mod kNsPerSecond) div 10000000)])"

definition header_fields :: "NnfEncoder \<Rightarrow> u16 \<Rightarrow> Timestamp \<Rightarrow> int \<Rightarrow> u8 list list" where
  "header_fields e tc now_ist len =
     [PutLe_u16 tc, PutLe_i32 0, [ne_alpha e ! 0], [ne_alpha e ! 1], PutLe_i32 (ne_trader_id e), PutLe_i16 0]
     @ timestamp_fields now_ist @ [replicate 8 0, PutLe_i16 len]"

definition new_order_fields :: "NnfEncoder \<Rightarrow> Order \<Rightarrow> u8 \<Rightarrow> u8 list list" where
  "new_order_fields e ord open_close =
     [PutLe_i32 (to_i32 (uint (o_token ord))), PutLe_i16 (if o_side ord then 1 else 2), PutLe_i32 (o_qty ord),
      PutLe_i32 (o_disclosed_qty ord), PutLe_i64 (o_price ord), [nnf_order_type_char (o_order_type ord)],
      PutLe_i16 (to_i16 (Validity_code (o_validity ord))), PutLe_i64 (o_client_order_id ord),
      take 12 (ne_participant e), PutLe_i16 (ne_branch_id e), [open_close]]"

lemma length_two_digits [simp]: "length (two_digits v) = 2"
  by (simp add: two_digits_def)

lemma encode_timestamp_fields: "encode_timestamp off t buf = write_all off (timestamp_fields t) buf"
  by (simp add: encode_timestamp_def timestamp_fields_def Two_def Let_def ac_simps del: add_2_eq_Suc')

lemma length_timestamp_fields [simp]: "length (concat (timestamp_fields t)) = 8"
  by (simp add: timestamp_fields_def Let_def)

lemma WriteHeader_fields: "WriteHeader e tc t len buf = write_all 0 (header_fields e tc t len) buf"
  unfolding WriteHeader_def header_fields_def stores nnf_layout encode_timestamp_fields write_all_append
  by (simp del: add_2_eq_Suc')

lemma length_header_fields [simp]: "length (concat (header_fields e tc t len)) = 32"
  using length_timestamp_fields [of t] by (simp add: header_fields_def del: length_timestamp_fields)

text \<open>A message written field by field from the start of a buffer that is long enough: its fields,
  then whatever the buffer held.\<close>

lemma message_written:
  assumes "length (concat fs) = n" "n \<le> length buf"
  shows "write_all 0 fs buf = Some (concat fs @ drop n buf)"
  using write_all_concat [of 0 fs buf] assms by simp

lemmas encoder_unfold = WriteHeader_fields write_all_append length_header_fields stores nnf_layout
  Let_def map_conv_bind_option comp_def

lemma to_i16_length [simp]: "to_i16 80 = 80" "to_i16 68 = 68" "to_i16 52 = 52" "to_i16 64 = 64" "to_i16 32 = 32"
  by (simp_all add: to_i16_id in_i16_def)

lemma encode_new_order_fields:
  assumes "encoder_ok e"
  shows "encode_new_order e buf ord t oc =
     map_option (Pair 80) (write_all 0 (header_fields e kTcNewOrder t 80 @ new_order_fields e ord oc) buf)"
  using assms by (simp add: encode_new_order_def new_order_fields_def encoder_unfold encoder_ok_def)

definition modify_fields :: "Order \<Rightarrow> u8 list list" where
  "modify_fields ord = [PutLe_i64 (o_exchange_order_no ord), PutLe_i32 (to_i32 (uint (o_token ord))),
     PutLe_i64 (o_price ord), PutLe_i32 (o_qty ord), PutLe_i32 (o_disclosed_qty ord), PutLe_i64 (o_client_order_id ord)]"

lemma encode_modify_fields:
  "encode_modify e buf ord t =
     map_option (Pair 68) (write_all 0 (header_fields e kTcModifyOrder t 68 @ modify_fields ord) buf)"
  by (simp add: encode_modify_def modify_fields_def encoder_unfold)

definition cancel_fields :: "int \<Rightarrow> Token \<Rightarrow> ClOrdId \<Rightarrow> u8 list list" where
  "cancel_fields xno token clordid = [PutLe_i64 xno, PutLe_i32 (to_i32 (uint token)), PutLe_i64 clordid]"

lemma encode_cancel_fields:
  "encode_cancel e buf xno token clordid t =
     map_option (Pair 52) (write_all 0 (header_fields e kTcCancelOrder t 52 @ cancel_fields xno token clordid) buf)"
  by (simp add: encode_cancel_def cancel_fields_def encoder_unfold)

lemma encode_heartbeat_fields:
  "encode_heartbeat e buf t = map_option (Pair 32) (write_all 0 (header_fields e kTcHeartbeat t 32) buf)"
  by (simp add: encode_heartbeat_def encoder_unfold)

subsection \<open>Reading a message back\<close>

text \<open>What the exchange reads of a header: transaction code, trader, error code and length.\<close>

definition header_read :: "u8 list \<Rightarrow> u16 \<Rightarrow> int \<Rightarrow> int \<Rightarrow> bool" where
  "header_read buf tc trader len \<longleftrightarrow>
     load_le_u16 buf kHdrTransCode = Some tc \<and> load_le_i32 buf kHdrTraderId = Some trader
     \<and> load_le_i16 buf kHdrErrorCode = Some 0 \<and> load_le_i16 buf kHdrMsgLength = Some len"

lemma fits_zero [simp]: "in_i32 0" "in_i16 0" "in_i16 1" "in_i16 2"
  by (simp_all add: in_i32_def in_i16_def)

lemma header_back:
  assumes "encoder_ok e" "in_i16 len"
  shows "header_read (concat (header_fields e tc t len) @ rest) tc (ne_trader_id e) len"
  using assms length_timestamp_fields [of t]
  by (simp add: header_read_def header_fields_def nnf_layout field_skip field_Cons field_here encoder_ok_def
      del: length_timestamp_fields)

lemma PutLe_token: "PutLe_i32 (to_i32 (uint (tok :: Token))) = PutLe_u32 tok"
proof -
  have "(word_of_int (to_i32 (uint tok)) :: u32) = tok"
  proof (rule bit_word_eqI)
    fix n assume "n < LENGTH(32)"
    then have "n < 32" by simp
    then consider "n < 31" | "n = 31" by linarith
    then show "bit (word_of_int (to_i32 (uint tok)) :: u32) n \<longleftrightarrow> bit tok n"
      by cases (simp_all add: to_i32_def bit_simps bit_signed_take_bit_iff bit_uint_iff)
  qed
  then show ?thesis by (simp add: PutLe_i32_def PutLe_u32_def)
qed

lemma Validity_fits: "in_i16 (Validity_code v)"
  by (cases v) (simp_all add: in_i16_def)

text \<open>The order fields, read behind the header of a new-order message.\<close>

definition new_order_read :: "u8 list \<Rightarrow> NnfEncoder \<Rightarrow> Order \<Rightarrow> u8 \<Rightarrow> bool" where
  "new_order_read buf e ord open_close \<longleftrightarrow>
     load_le_u32 buf 32 = Some (o_token ord) \<and> load_le_i16 buf 36 = Some (if o_side ord then 1 else 2)
     \<and> load_le_i32 buf 38 = Some (o_qty ord) \<and> load_le_i32 buf 42 = Some (o_disclosed_qty ord)
     \<and> load_le_i64 buf 46 = Some (o_price ord) \<and> buf ! 54 = nnf_order_type_char (o_order_type ord)
     \<and> load_le_i16 buf 55 = Some (Validity_code (o_validity ord)) \<and> load_le_i64 buf 57 = Some (o_client_order_id ord)
     \<and> take 12 (drop 65 buf) = ne_participant e \<and> load_le_i16 buf 77 = Some (ne_branch_id e) \<and> buf ! 79 = open_close"

lemma new_order_back:
  assumes "encoder_ok e" "order_fits ord" "length pre = 32"
  shows "new_order_read (pre @ concat (new_order_fields e ord oc) @ rest) e ord oc"
  using assms unfolding new_order_read_def new_order_fields_def PutLe_token
  by (simp add: field_skip field_Cons field_here encoder_ok_def order_fits_def nth_append to_i16_id Validity_fits)

text \<open>The eight digits of a timestamp, as numbers.\<close>

definition clock_digits :: "Timestamp \<Rightarrow> nat list" where
  "clock_digits t =
     (let cs = unat t mod day_ns div 10000000; s = cs div 100; m = s div 60; h = m div 60
      in concat (map (\<lambda>v. [v div 10, v mod 10]) [h, m mod 60, s mod 60, cs mod 100]))"

lemma two_digits_nat:
  assumes "unat v < 100"
  shows "map unat (two_digits v) = [48 + unat v div 10, 48 + unat v mod 10]"
proof -
  have "unat (48 + (v div 10) mod 10) = 48 + unat v div 10" "unat (48 + v mod 10) = 48 + unat v mod 10"
    using assms by (simp_all add: unat_word_ariths unat_div unat_mod)
  moreover have "unat v div 10 < 10" using assms by (simp add: div_less_iff_less_mult)
  ultimately show ?thesis by (simp add: two_digits_def unsigned_ucast_eq take_bit_eq_mod)
qed

lemma clock_arith:
  fixes x :: nat
  shows "x div (3600 * 1000000000) = x div 10000000 div 100 div 60 div 60"
    and "x div (60 * 1000000000) = x div 10000000 div 100 div 60"
    and "x div 1000000000 = x div 10000000 div 100"
    and "x mod 1000000000 div 10000000 = x div 10000000 mod 100"
  by (simp_all only: div_mult2_eq [symmetric]) (simp_all add: mod_mult2_eq [of x 10000000 100, simplified] div_mult2_eq)

lemma timestamp_digits: "map unat (concat (timestamp_fields t)) = map ((+) 48) (clock_digits t)"
proof -
  define x where "x = unat t mod day_ns"
  have x: "x < 86400 * 1000000000" by (simp add: x_def day_ns_def)
  define cs where "cs = x div 10000000"
  have cs: "cs div 100 div 60 div 60 < 24" using x by (simp add: cs_def div_less_iff_less_mult)
  have "unat (t mod kNsPerDay div (3600 * kNsPerSecond)) = cs div 100 div 60 div 60"
    "unat (t mod kNsPerDay div (60 * kNsPerSecond) mod 60) = cs div 100 div 60 mod 60"
    "unat (t mod kNsPerDay div kNsPerSecond mod 60) = cs div 100 mod 60"
    "unat (t mod kNsPerDay mod kNsPerSecond div 10000000) = cs mod 100"
    by (simp_all add: unat_div unat_mod unat_kNsPerDay kNsPerSecond_def clock_arith [of x, simplified] cs_def flip: x_def)
  moreover have "cs div 100 div 60 mod 60 < 100" "cs div 100 mod 60 < 100" "cs mod 100 < 100"
    using mod_less_divisor [of 60 "cs div 100 div 60"] mod_less_divisor [of 60 "cs div 100"] by simp_all
  ultimately show ?thesis using cs
    by (simp add: timestamp_fields_def clock_digits_def Let_def two_digits_nat flip: x_def cs_def)
qed

text \<open>C16 A new order reads back from the wire: encoding into a buffer of at least 80 bytes writes a
  80-byte message whose header carries the transaction code, the trader and the length, whose clock
  digits are the time of day in hundredths of a second, whose fields at their offsets are those of
  the order, and which leaves the rest of the buffer alone.\<close>

theorem nnf_new_order_readback:
  assumes "encoder_ok e" "order_fits ord" "80 \<le> length buf"
  shows "\<exists>buf'. encode_new_order e buf ord t oc = Some (80, buf') \<and> length buf' = length buf
       \<and> header_read buf' kTcNewOrder (ne_trader_id e) 80
       \<and> map unat (take 8 (drop kHdrTimestamp buf')) = map ((+) 48) (clock_digits t)
       \<and> new_order_read buf' e ord oc \<and> drop 80 buf' = drop 80 buf"
proof -
  define h where "h = header_fields e kTcNewOrder t 80"
  define b where "b = new_order_fields e ord oc"
  have b: "length (concat b) = 48" using assms(1) by (simp add: b_def new_order_fields_def encoder_ok_def)
  have "encode_new_order e buf ord t oc = Some (80, concat h @ concat b @ drop 80 buf)"
    using message_written [of "h @ b" 80 buf] b assms(3)
    by (simp add: encode_new_order_fields [OF assms(1)] h_def flip: b_def)
  moreover have "header_read (concat h @ concat b @ drop 80 buf) kTcNewOrder (ne_trader_id e) 80"
    unfolding h_def by (rule header_back) (use assms(1) in \<open>simp_all add: in_i16_def\<close>)
  moreover have "take 8 (drop kHdrTimestamp (concat h @ concat b @ drop 80 buf)) = concat (timestamp_fields t)"
    using length_timestamp_fields [of t]
    by (simp add: h_def header_fields_def nnf_layout del: length_timestamp_fields)
  moreover have "new_order_read (concat h @ concat b @ drop 80 buf) e ord oc"
    unfolding b_def by (rule new_order_back) (use assms in \<open>simp_all add: h_def\<close>)
  ultimately show ?thesis using b assms(3) by (auto simp: timestamp_digits h_def)
qed

lemma encode_new_order_returns:
  "encoder_ok e \<Longrightarrow> 80 \<le> length buf \<Longrightarrow> \<exists>buf'. encode_new_order e buf ord t oc = Some (80, buf') \<and> length buf' = length buf"
  using write_all_concat [of 0 "header_fields e kTcNewOrder t 80 @ new_order_fields e ord oc" buf]
  by (simp add: encode_new_order_fields) (simp add: new_order_fields_def encoder_ok_def)

lemma encode_cancel_back:
  assumes "encoder_ok e" "in_i64 xno" "in_i64 c" "52 \<le> length buf"
  shows "\<exists>buf'. encode_cancel e buf xno tok c t = Some (52, buf') \<and> header_read buf' kTcCancelOrder (ne_trader_id e) 52
    \<and> load_le_i64 buf' 32 = Some xno \<and> load_le_u32 buf' 40 = Some tok \<and> load_le_i64 buf' 44 = Some c"
proof -
  define h where "h = concat (header_fields e kTcCancelOrder t 52)"
  have h: "length h = 32" by (simp add: h_def)
  have "encode_cancel e buf xno tok c t = Some (52, h @ PutLe_i64 xno @ PutLe_u32 tok @ PutLe_i64 c @ drop 52 buf)"
    using message_written [of "header_fields e kTcCancelOrder t 52 @ cancel_fields xno tok c" 52 buf] assms(4)
    by (simp add: encode_cancel_fields cancel_fields_def PutLe_token h_def)
  moreover have "header_read (h @ rest) kTcCancelOrder (ne_trader_id e) 52" for rest
    unfolding h_def by (rule header_back) (use assms(1) in \<open>simp_all add: in_i16_def\<close>)
  ultimately show ?thesis using assms(2,3) h by (simp add: field_skip field_here)
qed

theorem nnf_new_order_readback_witness:
  "\<exists>buf'. encode_new_order NnfEncoder_init (replicate 256 0) example_order 33300000000000 79 = Some (80, buf')
     \<and> load_le_i64 buf' 46 = Some 10050 \<and> load_le_i32 buf' 38 = Some 25
     \<and> map unat (take 8 (drop kHdrTimestamp buf')) = map ((+) 48) [0, 9, 1, 5, 0, 0, 0, 0]"
  using nnf_new_order_readback [OF encoder_ok_init, of example_order "replicate 256 0" 33300000000000 79]
  by (auto simp: order_fits_def example_order_def in_i64_def in_i32_def new_order_read_def clock_digits_def day_ns_def)

end
