(* ===== verification/Order_Manager.thy ===== *)
theory Order_Manager
  imports Nnf_Encoder
begin

text \<open>
  \<^verbatim>\<open>src/order_manager/order_manager.hpp\<close>: the table of live orders and their life cycle.

  The table is an array of 4096 slots, indexed by the low bits of the client order id. The orders
  in the slots of a fresh table are not initialised by the source: they are an argument of
  \<open>OrderManager_init\<close>. A pointer into the table is the slot's contents; the operations that
  write through it update the slot.
\<close>

subsection \<open>Data\<close>

datatype OrderState = kIdle | kPendingNew | kAcknowledged | kPartiallyFilled | kFilled | kCancelled | kRejected

record LiveOrder =
  lo_order :: Order
  lo_state :: OrderState
  lo_exchange_order_no :: int
  lo_filled_qty :: Quantity
  lo_reject_code :: int
  lo_occupied :: bool

definition kOrderTableSize :: nat where
  "kOrderTableSize = 4096"

record OrderManager =
  om_encoder :: NnfEncoder
  om_table :: "nat \<Rightarrow> LiveOrder"
  om_next_clordid :: ClOrdId
  om_live_count :: nat

definition LiveOrder_default :: "Order \<Rightarrow> LiveOrder" where
  "LiveOrder_default ord = \<lparr>lo_order = ord, lo_state = kIdle, lo_exchange_order_no = 0, lo_filled_qty = 0,
     lo_reject_code = 0, lo_occupied = False\<rparr>"

definition OrderManager_init :: "(nat \<Rightarrow> Order) \<Rightarrow> OrderManager" where
  "OrderManager_init memory = \<lparr>om_encoder = set_alpha_char 32 32 NnfEncoder_init,
     om_table = (\<lambda>i. LiveOrder_default (memory i)), om_next_clordid = 1, om_live_count = 0\<rparr>"

subsection \<open>Operations\<close>

definition next_clordid :: "OrderManager \<Rightarrow> ClOrdId \<times> OrderManager" where
  "next_clordid om = (om_next_clordid om, om\<lparr>om_next_clordid := to_i64 (om_next_clordid om + 1)\<rparr>)"

definition Index :: "ClOrdId \<Rightarrow> nat" where
  "Index clordid = unat ((word_of_int clordid :: u64) AND of_nat (kOrderTableSize - 1))"

definition om_get :: "OrderManager \<Rightarrow> ClOrdId \<Rightarrow> LiveOrder option" where
  "om_get om clordid =
     (let slot = om_table om (Index clordid)
      in if o_client_order_id (lo_order slot) = clordid then Some slot else None)"

text \<open>Writing back through the pointer that \<open>get\<close> returned.\<close>

definition om_put :: "ClOrdId \<Rightarrow> LiveOrder \<Rightarrow> OrderManager \<Rightarrow> OrderManager" where
  "om_put clordid lo om = om\<lparr>om_table := (om_table om)(Index clordid := lo)\<rparr>"

definition Release :: "ClOrdId \<Rightarrow> OrderManager \<Rightarrow> OrderManager" where
  "Release clordid om =
     (let lo = om_table om (Index clordid)
      in if lo_occupied lo
         then (om_put clordid (lo\<lparr>lo_occupied := False\<rparr>) om)
                \<lparr>om_live_count := (if om_live_count om > 0 then om_live_count om - 1 else om_live_count om)\<rparr>
         else om)"

definition new_order ::
    "OrderManager \<Rightarrow> Order \<Rightarrow> u8 list \<Rightarrow> Timestamp \<Rightarrow> u8 \<Rightarrow> (nat \<times> Order \<times> u8 list \<times> OrderManager) option" where
  "new_order om ord buf now_ist open_close =
     (let (ord, om) = (if o_client_order_id ord = 0
                       then let (c, om') = next_clordid om in (ord\<lparr>o_client_order_id := c\<rparr>, om')
                       else (ord, om));
          i = Index (o_client_order_id ord);
          slot = om_table om i
      in if lo_occupied slot \<and> lo_state slot \<noteq> kFilled \<and> lo_state slot \<noteq> kCancelled \<and> lo_state slot \<noteq> kRejected
         then Some (0, ord, buf, om)
         else let slot' = \<lparr>lo_order = ord, lo_state = kPendingNew, lo_exchange_order_no = 0, lo_filled_qty = 0,
                           lo_reject_code = 0, lo_occupied = True\<rparr>;
                  om' = om\<lparr>om_table := (om_table om)(i := slot'), om_live_count := om_live_count om + 1\<rparr>
              in do { (n, buf') \<leftarrow> encode_new_order (om_encoder om') buf ord now_ist open_close;
                      Some (n, ord, buf', om') })"

definition on_ack :: "ClOrdId \<Rightarrow> int \<Rightarrow> OrderManager \<Rightarrow> bool \<times> OrderManager" where
  "on_ack clordid exchange_order_no om =
     (case om_get om clordid of
        None \<Rightarrow> (False, om)
      | Some lo \<Rightarrow>
          if lo_state lo \<noteq> kPendingNew then (False, om)
          else (True, om_put clordid (lo\<lparr>lo_exchange_order_no := exchange_order_no,
                  lo_order := (lo_order lo)\<lparr>o_exchange_order_no := exchange_order_no\<rparr>,
                  lo_state := kAcknowledged\<rparr>) om))"

definition OrderManager_on_fill :: "FillReport \<Rightarrow> OrderManager \<Rightarrow> bool \<times> OrderManager" where
  "OrderManager_on_fill fill om =
     (let c = f_client_order_id fill
      in case om_get om c of
           None \<Rightarrow> (False, om)
         | Some lo \<Rightarrow>
             (let lo = lo\<lparr>lo_filled_qty := lo_filled_qty lo + f_fill_qty fill\<rparr>
              in if lo_filled_qty lo \<ge> o_qty (lo_order lo) \<or> f_remaining_qty fill = 0
                 then (True, Release c (om_put c (lo\<lparr>lo_state := kFilled\<rparr>) om))
                 else (True, om_put c (lo\<lparr>lo_state := kPartiallyFilled\<rparr>) om)))"

definition on_cancel_ack :: "ClOrdId \<Rightarrow> OrderManager \<Rightarrow> bool \<times> OrderManager" where
  "on_cancel_ack clordid om =
     (case om_get om clordid of
        None \<Rightarrow> (False, om)
      | Some lo \<Rightarrow> (True, Release clordid (om_put clordid (lo\<lparr>lo_state := kCancelled\<rparr>) om)))"

definition on_reject :: "ClOrdId \<Rightarrow> int \<Rightarrow> OrderManager \<Rightarrow> bool \<times> OrderManager" where
  "on_reject clordid error_code om =
     (case om_get om clordid of
        None \<Rightarrow> (False, om)
      | Some lo \<Rightarrow> (True, Release clordid
          (om_put clordid (lo\<lparr>lo_state := kRejected, lo_reject_code := error_code\<rparr>) om)))"

definition OrderManager_encode_cancel ::
    "OrderManager \<Rightarrow> ClOrdId \<Rightarrow> u8 list \<Rightarrow> Timestamp \<Rightarrow> (nat \<times> u8 list) option" where
  "OrderManager_encode_cancel om clordid buf now_ist =
     (case om_get om clordid of
        None \<Rightarrow> Some (0, buf)
      | Some lo \<Rightarrow>
          if lo_exchange_order_no lo = 0 then Some (0, buf)
          else encode_cancel (om_encoder om) buf (lo_exchange_order_no lo) (o_token (lo_order lo)) clordid now_ist)"

definition state_of :: "OrderManager \<Rightarrow> ClOrdId \<Rightarrow> OrderState" where
  "state_of om clordid = (case om_get om clordid of None \<Rightarrow> kIdle | Some lo \<Rightarrow> lo_state lo)"

text \<open>Everything a caller can do to the table, as one step.\<close>

datatype om_op =
    OpNew Order "u8 list" Timestamp u8
  | OpAck ClOrdId int
  | OpFill FillReport
  | OpCancel ClOrdId
  | OpReject ClOrdId int

fun om_exec :: "om_op \<Rightarrow> OrderManager \<Rightarrow> OrderManager" where
  "om_exec (OpNew ord buf now_ist oc) om =
     (case new_order om ord buf now_ist oc of None \<Rightarrow> om | Some (n, ord', buf', om') \<Rightarrow> om')"
| "om_exec (OpAck c x) om = snd (on_ack c x om)"
| "om_exec (OpFill fill) om = snd (OrderManager_on_fill fill om)"
| "om_exec (OpCancel c) om = snd (on_cancel_ack c om)"
| "om_exec (OpReject c code) om = snd (on_reject c code om)"

subsection \<open>The index\<close>

lemma Index_mod: "Index c = nat (c mod 4096)"
proof -
  have "Index c = unat (word_of_int c AND (2 ^ 12 - 1) :: u64)" by (simp add: Index_def kOrderTableSize_def)
  also have "\<dots> = unat (word_of_int c :: u64) mod 2 ^ 12" by (rule unat_and_pred_pow2) simp
  also have "unat (word_of_int c :: u64) = nat (c mod 2 ^ 64)" by (simp add: unsigned_of_int take_bit_eq_mod)
  also have "nat (c mod 2 ^ 64) mod 2 ^ 12 = nat (c mod 2 ^ 64 mod 2 ^ 12)" by (simp add: nat_mod_distrib)
  also have "c mod 2 ^ 64 mod 2 ^ 12 = c mod 2 ^ 12" by (rule mod_mod_cancel) simp
  finally show ?thesis by simp
qed

lemma Index_less: "Index c < kOrderTableSize"
  by (simp add: Index_mod kOrderTableSize_def nat_less_iff)

subsection \<open>Invariant\<close>

definition live_state :: "OrderState \<Rightarrow> bool" where
  "live_state st \<longleftrightarrow> st = kPendingNew \<or> st = kAcknowledged \<or> st = kPartiallyFilled"

text \<open>An occupied slot holds a live order whose id indexes that slot; only occupied slots wait for
  the exchange; the counter counts the occupied slots.\<close>

definition slot_ok :: "nat \<Rightarrow> LiveOrder \<Rightarrow> bool" where
  "slot_ok i lo \<longleftrightarrow> (lo_occupied lo \<longrightarrow> live_state (lo_state lo) \<and> Index (o_client_order_id (lo_order lo)) = i)
     \<and> (lo_state lo \<in> {kPendingNew, kAcknowledged} \<longrightarrow> lo_occupied lo)"

definition om_inv :: "OrderManager \<Rightarrow> bool" where
  "om_inv om \<longleftrightarrow> om_live_count om = marked kOrderTableSize lo_occupied (om_table om)
     \<and> (\<forall>i. slot_ok i (om_table om i))"

lemma om_inv_init: "om_inv (OrderManager_init memory)"
  by (simp add: om_inv_def OrderManager_init_def LiveOrder_default_def slot_ok_def marked_zero)

lemma om_inv_slot: "om_inv om \<Longrightarrow> slot_ok i (om_table om i)"
  by (simp add: om_inv_def)

lemma om_inv_put:
  assumes "om_inv om" "lo_occupied lo \<longleftrightarrow> lo_occupied (om_table om (Index c))" "slot_ok (Index c) lo"
  shows "om_inv (om_put c lo om)"
  using assms by (auto simp: om_inv_def om_put_def marked_same)

lemma om_inv_release:
  assumes "om_inv om" "\<not> live_state (lo_state lo)" "lo_occupied lo = lo_occupied (om_table om (Index c))"
  shows "om_inv (Release c (om_put c lo om))"
proof (cases "lo_occupied lo")
  case True
  have "Suc (marked kOrderTableSize lo_occupied ((om_table om)(Index c := lo\<lparr>lo_occupied := False\<rparr>)))
      = marked kOrderTableSize lo_occupied (om_table om)"
    using True assms(3) by (intro marked_clear) (simp_all add: Index_less)
  then show ?thesis using assms True
    by (auto simp: om_inv_def Release_def om_put_def slot_ok_def live_state_def)
next
  case False
  then show ?thesis using om_inv_put [of om lo c] assms
    by (simp add: Release_def om_put_def slot_ok_def live_state_def)
qed

lemma om_get_Some: "om_get om c = Some lo \<longleftrightarrow> lo = om_table om (Index c) \<and> o_client_order_id (lo_order lo) = c"
  by (auto simp: om_get_def Let_def)

text \<open>The two outcomes of a new order: refused, with the table unchanged, or recorded in its slot.\<close>

definition numbered :: "OrderManager \<Rightarrow> Order \<Rightarrow> Order" where
  "numbered om ord = (if o_client_order_id ord = 0 then ord\<lparr>o_client_order_id := om_next_clordid om\<rparr> else ord)"

definition pending :: "Order \<Rightarrow> LiveOrder" where
  "pending ord = \<lparr>lo_order = ord, lo_state = kPendingNew, lo_exchange_order_no = 0, lo_filled_qty = 0,
     lo_reject_code = 0, lo_occupied = True\<rparr>"

lemma new_order_cases:
  assumes "om_inv om" "new_order om ord buf t oc = Some (n, ord', buf', om')"
  shows "ord' = numbered om ord \<and> om_encoder om' = om_encoder om \<and>
    (if lo_occupied (om_table om (Index (o_client_order_id ord')))
     then n = 0 \<and> buf' = buf \<and> om_table om' = om_table om \<and> om_live_count om' = om_live_count om
     else encode_new_order (om_encoder om) buf ord' t oc = Some (n, buf')
       \<and> om_table om' = (om_table om)(Index (o_client_order_id ord') := pending ord')
       \<and> om_live_count om' = om_live_count om + 1)"
  using assms(2) om_inv_slot [OF assms(1), of "Index (o_client_order_id ord')"]
  by (auto simp: new_order_def next_clordid_def numbered_def pending_def slot_ok_def live_state_def Let_def
      bind_eq_Some_conv split: if_splits)

lemma om_inv_new:
  assumes "om_inv om" "new_order om ord buf t oc = Some (n, ord', buf', om')"
  shows "om_inv om'"
  using new_order_cases [OF assms] assms(1)
    marked_set [of "Index (o_client_order_id ord')" kOrderTableSize lo_occupied "om_table om" "pending ord'"]
  by (auto simp: om_inv_def slot_ok_def pending_def live_state_def Index_less split: if_splits)

lemma om_inv_exec:
  assumes "om_inv om"
  shows "om_inv (om_exec op om)"
proof (cases op)
  case (OpNew ord buf t oc)
  then show ?thesis using assms om_inv_new by (auto split: option.splits)
next
  case (OpAck c x)
  then show ?thesis using assms om_inv_slot [OF assms, of "Index c"]
    by (auto simp: on_ack_def om_get_Some slot_ok_def live_state_def intro!: om_inv_put split: option.splits)
next
  case (OpFill fill)
  then show ?thesis using assms om_inv_slot [OF assms, of "Index (f_client_order_id fill)"]
    by (auto simp: OrderManager_on_fill_def om_get_Some slot_ok_def live_state_def Let_def
        intro!: om_inv_put om_inv_release split: option.splits)
next
  case (OpCancel c)
  then show ?thesis using assms
    by (auto simp: on_cancel_ack_def om_get_Some live_state_def intro!: om_inv_release split: option.splits)
next
  case (OpReject c code)
  then show ?thesis using assms
    by (auto simp: on_reject_def om_get_Some live_state_def intro!: om_inv_release split: option.splits)
qed

interpretation om: op_machine om_exec om_inv
  by unfold_locales (rule om_inv_exec)

subsection \<open>An order in flight\<close>

text \<open>The fills of an order in a sequence of operations, and the operations that leave it in flight:
  it is neither cancelled nor rejected, and no fill says that nothing remains.\<close>

definition filled_by :: "ClOrdId \<Rightarrow> om_op list \<Rightarrow> Quantity" where
  "filled_by c ops = sum_list (map (\<lambda>op. case op of OpFill fill \<Rightarrow> if f_client_order_id fill = c then f_fill_qty fill else 0
     | _ \<Rightarrow> 0) ops)"

fun keeps_live :: "ClOrdId \<Rightarrow> om_op \<Rightarrow> bool" where
  "keeps_live c (OpFill fill) \<longleftrightarrow> f_client_order_id fill = c \<longrightarrow> 0 \<le> f_fill_qty fill \<and> f_remaining_qty fill \<noteq> 0"
| "keeps_live c (OpCancel d) \<longleftrightarrow> d \<noteq> c"
| "keeps_live c (OpReject d _) \<longleftrightarrow> d \<noteq> c"
| "keeps_live c _ \<longleftrightarrow> True"

definition in_flight :: "Order \<Rightarrow> Quantity \<Rightarrow> OrderManager \<Rightarrow> bool" where
  "in_flight ord q om \<longleftrightarrow> (\<exists>lo. om_get om (o_client_order_id ord) = Some lo \<and> lo_occupied lo \<and> lo_filled_qty lo = q
     \<and> lo_order lo = ord\<lparr>o_exchange_order_no := o_exchange_order_no (lo_order lo)\<rparr>)"

lemma in_flight_slot:
  "in_flight ord q om \<longleftrightarrow> (let lo = om_table om (Index (o_client_order_id ord)) in lo_occupied lo \<and> lo_filled_qty lo = q
     \<and> lo_order lo = ord\<lparr>o_exchange_order_no := o_exchange_order_no (lo_order lo)\<rparr>)"
proof -
  have "lo_order lo = ord\<lparr>o_exchange_order_no := x\<rparr> \<Longrightarrow> o_client_order_id (lo_order lo) = o_client_order_id ord" for lo x
    by simp
  then show ?thesis unfolding in_flight_def om_get_Some Let_def by blast
qed

lemma in_flight_pending: "om_table om (Index (o_client_order_id ord)) = pending ord \<Longrightarrow> in_flight ord 0 om"
  by (simp add: in_flight_slot pending_def)

lemma release_table: "om_table (Release d om) i = (if i = Index d then (om_table om i)\<lparr>lo_occupied := False\<rparr> else om_table om i)"
  by (auto simp: Release_def om_put_def Let_def)

text \<open>An operation on another id leaves the slot of a live order as it is: it works on another slot,
  or does not find its id in this one, or is a new order that the slot refuses.\<close>

fun concerns :: "ClOrdId \<Rightarrow> om_op \<Rightarrow> bool" where
  "concerns c (OpNew _ _ _ _) \<longleftrightarrow> False"
| "concerns c (OpAck d _) \<longleftrightarrow> d = c"
| "concerns c (OpFill fill) \<longleftrightarrow> f_client_order_id fill = c"
| "concerns c (OpCancel d) \<longleftrightarrow> d = c"
| "concerns c (OpReject d _) \<longleftrightarrow> d = c"

lemma new_order_elsewhere:
  assumes "om_inv om" "lo_occupied (om_table om i)"
  shows "om_table (om_exec (OpNew ord buf t oc) om) i = om_table om i"
proof (cases "new_order om ord buf t oc")
  case (Some r)
  obtain n o2 b2 om2 where r: "r = (n, o2, b2, om2)" by (cases r) auto
  show ?thesis using new_order_cases [OF assms(1) Some [unfolded r]] assms(2) by (auto simp: Some r split: if_splits)
qed simp

lemma exec_elsewhere:
  assumes "om_inv om" "lo_occupied (om_table om (Index c))" "o_client_order_id (lo_order (om_table om (Index c))) = c"
    and "\<not> concerns c op"
  shows "om_table (om_exec op om) (Index c) = om_table om (Index c)"
proof -
  have "om_table (snd (on_ack d x om)) (Index c) = om_table om (Index c)"
    "om_table (snd (on_cancel_ack d om)) (Index c) = om_table om (Index c)"
    "om_table (snd (on_reject d x om)) (Index c) = om_table om (Index c)" if "d \<noteq> c" for d x
    using that assms(3)
    by (auto simp: on_ack_def on_cancel_ack_def on_reject_def om_get_def om_put_def release_table Let_def)
  moreover have "om_table (snd (OrderManager_on_fill fill om)) (Index c) = om_table om (Index c)"
    if "f_client_order_id fill \<noteq> c" for fill
    using that assms(3) by (auto simp: OrderManager_on_fill_def om_get_def om_put_def release_table Let_def)
  ultimately show ?thesis using assms(4) new_order_elsewhere [OF assms(1,2)] by (cases op) auto
qed

lemma in_flight_exec:
  assumes "om_inv om" "in_flight ord q om" "keeps_live (o_client_order_id ord) op"
    and "q + filled_by (o_client_order_id ord) [op] < o_qty ord"
  shows "in_flight ord (q + filled_by (o_client_order_id ord) [op]) (om_exec op om)"
proof -
  define c where "c = o_client_order_id ord"
  define lo where "lo = om_table om (Index c)"
  have lo: "lo_occupied lo" "lo_filled_qty lo = q" "lo_order lo = ord\<lparr>o_exchange_order_no := o_exchange_order_no (lo_order lo)\<rparr>"
    using assms(2) by (simp_all add: in_flight_slot lo_def c_def Let_def)
  have up: "(lo_order lo)\<lparr>o_exchange_order_no := x\<rparr> = ord\<lparr>o_exchange_order_no := x\<rparr>" for x by (subst lo(3)) simp
  have id: "o_client_order_id (lo_order lo) = c" "o_qty (lo_order lo) = o_qty ord"
    by (subst lo(3), simp add: c_def)+
  show ?thesis
  proof (cases "concerns c op")
    case False
    then have "om_table (om_exec op om) (Index c) = lo" "filled_by c [op] = 0"
      using exec_elsewhere [of om c op] assms(1) lo(1) id(1) by (cases op; simp add: lo_def filled_by_def)+
    then show ?thesis using lo by (simp add: in_flight_slot flip: c_def)
  next
    case True
    then consider x where "op = OpAck c x" | fill where "op = OpFill fill" "f_client_order_id fill = c"
      using assms(3) by (cases op) (auto simp: c_def)
    then show ?thesis
    proof cases
      case (1 x)
      have "om_table (om_exec op om) (Index c) = lo \<or> om_table (om_exec op om) (Index c) =
          lo\<lparr>lo_exchange_order_no := x, lo_order := (lo_order lo)\<lparr>o_exchange_order_no := x\<rparr>, lo_state := kAcknowledged\<rparr>"
        by (auto simp: 1 on_ack_def om_put_def om_get_Some lo_def split: option.splits)
      then show ?thesis using lo by (auto simp: in_flight_slot 1 filled_by_def up simp flip: c_def)
    next
      case (2 fill)
      have "om_table (om_exec op om) (Index c) =
          lo\<lparr>lo_filled_qty := q + f_fill_qty fill, lo_state := kPartiallyFilled\<rparr>"
        using assms(3,4) id lo(2)
        by (simp add: 2 OrderManager_on_fill_def om_get_def filled_by_def om_put_def Let_def flip: c_def lo_def)
      then show ?thesis using lo by (simp add: in_flight_slot 2 filled_by_def flip: c_def)
    qed
  qed
qed

lemma filled_by_Cons: "filled_by c (op # ops) = filled_by c [op] + filled_by c ops"
  by (simp add: filled_by_def)

lemma filled_by_nonneg: "\<forall>op \<in> set ops. keeps_live c op \<Longrightarrow> 0 \<le> filled_by c ops"
proof (induction ops)
  case (Cons op ops)
  have "0 \<le> filled_by c [op]" using Cons.prems by (cases op) (auto simp: filled_by_def)
  then show ?case using Cons filled_by_Cons [of c op ops] by simp
qed (simp add: filled_by_def)

lemma in_flight_run:
  "om_inv om \<Longrightarrow> in_flight ord q om \<Longrightarrow> \<forall>op \<in> set ops. keeps_live (o_client_order_id ord) op \<Longrightarrow>
    q + filled_by (o_client_order_id ord) ops < o_qty ord \<Longrightarrow>
    in_flight ord (q + filled_by (o_client_order_id ord) ops) (fold om_exec ops om)"
proof (induction ops arbitrary: om q)
  case (Cons op ops)
  let ?f = "filled_by (o_client_order_id ord)"
  have f: "?f (op # ops) = ?f [op] + ?f ops" by (rule filled_by_Cons)
  have "0 \<le> ?f ops" using Cons.prems(3) by (intro filled_by_nonneg) simp
  then have "in_flight ord (q + ?f [op]) (om_exec op om)"
    using Cons.prems f by (intro in_flight_exec) simp_all
  then show ?case
    using Cons.IH [of "om_exec op om" "q + ?f [op]"] Cons.prems f om_inv_exec [of om op] by (simp add: add.assoc)
qed (simp add: filled_by_def)

subsection \<open>Properties\<close>

text \<open>The ids of the live orders.\<close>

definition live_ids :: "OrderManager \<Rightarrow> ClOrdId set" where
  "live_ids om = {c. \<exists>lo. om_get om c = Some lo \<and> lo_occupied lo}"

lemma live_ids_image:
  assumes "om_inv om"
  shows "live_ids om = (\<lambda>i. o_client_order_id (lo_order (om_table om i))) ` {i. i < kOrderTableSize \<and> lo_occupied (om_table om i)}"
    (is "_ = ?id ` ?S")
proof (intro equalityI subsetI)
  fix c assume "c \<in> live_ids om"
  then have "lo_occupied (om_table om (Index c))" "?id (Index c) = c" by (auto simp: live_ids_def om_get_Some)
  then show "c \<in> ?id ` ?S" using Index_less by force
next
  fix c assume "c \<in> ?id ` ?S"
  then obtain i where "c = ?id i" "lo_occupied (om_table om i)" by auto
  then show "c \<in> live_ids om" using om_inv_slot [OF assms, of i] by (auto simp: live_ids_def om_get_Some slot_ok_def)
qed

lemma card_live_ids: "om_inv om \<Longrightarrow> card (live_ids om) = om_live_count om"
proof -
  assume inv: "om_inv om"
  let ?id = "\<lambda>i. o_client_order_id (lo_order (om_table om i))"
  let ?S = "{i. i < kOrderTableSize \<and> lo_occupied (om_table om i)}"
  have "Index (?id i) = i" if "i \<in> ?S" for i using that om_inv_slot [OF inv, of i] by (simp add: slot_ok_def)
  then have "inj_on ?id ?S" by (metis (mono_tags, lifting) inj_onI)
  then show ?thesis using inv by (simp add: live_ids_image card_image om_inv_def marked_def)
qed

text \<open>The live counter is right after every history: however new orders, acknowledgements, fills,
  cancellations and rejections were interleaved since the start, and whatever the uninitialised
  table held, the counter is the number of distinct client order ids that are live, never more
  than the table has slots, and the state of every one of them is pending, acknowledged or partially
  filled.\<close>

theorem live_count_exact:
  "let om = fold om_exec ops (OrderManager_init memory)
   in om_live_count om = card (live_ids om) \<and> om_live_count om \<le> kOrderTableSize
      \<and> live_ids om \<subseteq> {c. live_state (state_of om c)}"
proof -
  define om where "om = fold om_exec ops (OrderManager_init memory)"
  have inv: "om_inv om" unfolding om_def by (rule om.run_inv) (rule om_inv_init)
  then have "om_live_count om \<le> kOrderTableSize" by (simp add: om_inv_def marked_le)
  moreover have "live_ids om \<subseteq> {c. live_state (state_of om c)}"
    using om_inv_slot [OF inv] by (auto simp: live_ids_def state_of_def om_get_def slot_ok_def Let_def split: if_splits)
  ultimately show ?thesis using card_live_ids [OF inv] unfolding om_def Let_def by simp
qed

text \<open>C15 An accepted order is not lost while it is in flight: after \<open>new_order\<close> has encoded it, no
  sequence of operations on the table (any number of other orders, colliding ones included, their
  acknowledgements, fills, cancels and rejections, and its own acknowledgement and partial fills)
  displaces or alters it, and its filled quantity is the sum of its fills.\<close>

theorem live_order_kept:
  assumes "om = fold om_exec before (OrderManager_init memory)"
    and "new_order om ord buf t oc = Some (80, ord', buf', om')"
    and "\<forall>op \<in> set ops. keeps_live (o_client_order_id ord') op"
    and "filled_by (o_client_order_id ord') ops < o_qty ord'"
  shows "in_flight ord' (filled_by (o_client_order_id ord') ops) (fold om_exec ops om')"
proof -
  have inv: "om_inv om" unfolding assms(1) by (rule om.run_inv) (rule om_inv_init)
  have "om_table om' (Index (o_client_order_id ord')) = pending ord'"
    using new_order_cases [OF inv assms(2)] by (simp split: if_splits)
  then have "in_flight ord' 0 om'" by (rule in_flight_pending)
  then show ?thesis using in_flight_run [OF om_inv_new [OF inv assms(2)], of ord' 0 ops] assms(3,4) by simp
qed

definition example_fill :: FillReport where
  "example_fill = \<lparr>f_exchange_order_no = 900, f_client_order_id = 1, f_token = 7, f_fill_price = 10050, f_fill_qty = 5,
     f_remaining_qty = 20, f_fill_time = 0, f_trade_no = 1, f_side = kBuy\<rparr>"

theorem live_order_kept_witness:
  "\<exists>buf' om'. new_order (OrderManager_init (\<lambda>_. example_order)) example_order (replicate 256 0) 0 79 =
       Some (80, example_order, buf', om')
     \<and> in_flight example_order 5 (fold om_exec [OpAck 1 900, OpFill example_fill, OpCancel 2] om')"
proof -
  let ?om = "OrderManager_init (\<lambda>_. example_order)"
  obtain buf' where enc: "encode_new_order (om_encoder ?om) (replicate 256 0) example_order 0 79 = Some (80, buf')"
    using encode_new_order_returns [of "om_encoder ?om" "replicate 256 0" example_order 0 79]
    by (auto simp: OrderManager_init_def encoder_ok_set encoder_ok_init)
  then obtain om' where new: "new_order ?om example_order (replicate 256 0) 0 79 = Some (80, example_order, buf', om')"
    by (auto simp: new_order_def OrderManager_init_def LiveOrder_default_def example_order_def Let_def)
  have "in_flight example_order 5 (fold om_exec [OpAck 1 900, OpFill example_fill, OpCancel 2] om')"
    using live_order_kept [OF _ new, of "[]" "\<lambda>_. example_order" "[OpAck 1 900, OpFill example_fill, OpCancel 2]"]
    by (simp add: example_order_def example_fill_def filled_by_def)
  then show ?thesis using new by blast
qed

text \<open>A late fill reopens a finished order: when a fill arrives for an order whose cancellation was
  already acknowledged (the two crossed on the wire), the order is reported as partially filled
  again, although its slot has been released and the live counter does not count it.\<close>

theorem late_fill_reopens:
  assumes "om_get om c = Some lo" "lo_state lo = kCancelled" "\<not> lo_occupied lo"
    and "f_client_order_id fill = c" "lo_filled_qty lo + f_fill_qty fill < o_qty (lo_order lo)" "f_remaining_qty fill \<noteq> 0"
  shows "let om' = snd (OrderManager_on_fill fill om)
         in state_of om' c = kPartiallyFilled \<and> c \<notin> live_ids om' \<and> om_live_count om' = om_live_count om"
  using assms
  by (auto simp: OrderManager_on_fill_def state_of_def om_get_def om_put_def live_ids_def Let_def split: if_splits)

theorem late_fill_reopens_witness:
  "let om = (OrderManager_init (\<lambda>_. example_order))
         \<lparr>om_table := (\<lambda>_. (pending example_order)\<lparr>lo_state := kCancelled, lo_occupied := False\<rparr>)\<rparr>;
       om' = snd (OrderManager_on_fill example_fill om)
   in state_of om 1 = kCancelled \<and> state_of om' 1 = kPartiallyFilled \<and> 1 \<notin> live_ids om'"
  using late_fill_reopens [of "(OrderManager_init (\<lambda>_. example_order))
      \<lparr>om_table := (\<lambda>_. (pending example_order)\<lparr>lo_state := kCancelled, lo_occupied := False\<rparr>)\<rparr>" 1
      "(pending example_order)\<lparr>lo_state := kCancelled, lo_occupied := False\<rparr>" example_fill]
  by (simp add: om_get_def pending_def example_order_def example_fill_def state_of_def Let_def)

end
