(* ===== verification/Nnf_Session.thy ===== *)
theory Nnf_Session
  imports Nnf_Encoder
begin

text \<open>
  \<^verbatim>\<open>src/session/nnf_session.hpp\<close>: the login state machine of an order-entry session, its
  heartbeats, its reconnect window and the classification of exchange errors. Each operation that
  encodes a message returns the encoder's result next to the new state.
\<close>

subsection \<open>The session\<close>

definition kErrOrderNotFound :: int where "kErrOrderNotFound = 16444"
definition kErrPriceOutOfRange :: int where "kErrPriceOutOfRange = 16445"

datatype SessionState = kDisconnected | kSignOnSent | kReady | kSignOffSent | kClosed

datatype ErrorAction = kNone | kIgnore | kAlert

definition kHeartbeatIntervalNs :: u64 where "kHeartbeatIntervalNs = 30 * kNsPerSecond"
definition kReconnectWindowNs :: u64 where "kReconnectWindowNs = 5 * kNsPerSecond"

record NnfSession =
  ns_encoder :: NnfEncoder
  ns_state :: SessionState
  ns_trader_id :: int
  ns_password :: "u8 list option"
  ns_out_seq :: u64
  ns_last_send_ns :: Timestamp
  ns_disconnect_ns :: Timestamp

definition NnfSession_init :: NnfSession where
  "NnfSession_init = \<lparr>ns_encoder = NnfEncoder_init, ns_state = kDisconnected, ns_trader_id = 0, ns_password = None,
     ns_out_seq = 0, ns_last_send_ns = 0, ns_disconnect_ns = 0\<rparr>"

definition configure :: "int \<Rightarrow> u8 \<Rightarrow> u8 \<Rightarrow> u8 list option \<Rightarrow> NnfSession \<Rightarrow> NnfSession" where
  "configure trader_id alpha0 alpha1 password s =
     s\<lparr>ns_encoder := set_alpha_char alpha0 alpha1 (set_trader_id trader_id (ns_encoder s)),
       ns_trader_id := trader_id, ns_password := password\<rparr>"

type_synonym encoded = "(nat \<times> u8 list) option"

definition start_login :: "u8 list \<Rightarrow> Timestamp \<Rightarrow> NnfSession \<Rightarrow> encoded \<times> NnfSession" where
  "start_login buf now s =
     (encode_sign_on (ns_encoder s) buf (ns_password s) now, s\<lparr>ns_state := kSignOnSent, ns_last_send_ns := now\<rparr>)"

definition on_sign_on_response :: "int \<Rightarrow> u64 \<Rightarrow> NnfSession \<Rightarrow> NnfSession" where
  "on_sign_on_response error assigned_seq s =
     (if error = 0 then s\<lparr>ns_state := kReady, ns_out_seq := assigned_seq\<rparr> else s\<lparr>ns_state := kDisconnected\<rparr>)"

definition start_logout :: "u8 list \<Rightarrow> Timestamp \<Rightarrow> NnfSession \<Rightarrow> encoded \<times> NnfSession" where
  "start_logout buf now s =
     (encode_sign_off (ns_encoder s) buf now, s\<lparr>ns_state := kSignOffSent, ns_last_send_ns := now\<rparr>)"

definition on_sign_off_response :: "NnfSession \<Rightarrow> NnfSession" where
  "on_sign_off_response s = s\<lparr>ns_state := kClosed\<rparr>"

definition on_disconnect :: "Timestamp \<Rightarrow> NnfSession \<Rightarrow> NnfSession" where
  "on_disconnect now s = s\<lparr>ns_state := kDisconnected, ns_disconnect_ns := now\<rparr>"

definition should_reconnect :: "NnfSession \<Rightarrow> Timestamp \<Rightarrow> bool" where
  "should_reconnect s now \<longleftrightarrow> ns_state s = kDisconnected \<and> ns_disconnect_ns s \<noteq> 0
     \<and> now - ns_disconnect_ns s \<le> kReconnectWindowNs"

definition should_heartbeat :: "NnfSession \<Rightarrow> Timestamp \<Rightarrow> bool" where
  "should_heartbeat s now \<longleftrightarrow> ns_state s = kReady \<and> now - ns_last_send_ns s \<ge> kHeartbeatIntervalNs"

definition make_heartbeat :: "u8 list \<Rightarrow> Timestamp \<Rightarrow> NnfSession \<Rightarrow> encoded \<times> NnfSession" where
  "make_heartbeat buf now s = (encode_heartbeat (ns_encoder s) buf now, s\<lparr>ns_last_send_ns := now\<rparr>)"

definition note_send :: "Timestamp \<Rightarrow> NnfSession \<Rightarrow> NnfSession" where
  "note_send now s = s\<lparr>ns_last_send_ns := now, ns_out_seq := ns_out_seq s + 1\<rparr>"

definition classify_error :: "int \<Rightarrow> ErrorAction" where
  "classify_error code =
     (if code = kErrOrderNotFound then kIgnore
      else if code = kErrPriceOutOfRange then kAlert
      else if code \<noteq> 0 then kAlert else kNone)"

definition is_ready :: "NnfSession \<Rightarrow> bool" where
  "is_ready s \<longleftrightarrow> ns_state s = kReady"

subsection \<open>Polling for heartbeats\<close>

text \<open>What the owner of a session does: at a poll it asks whether a heartbeat is due, and if so has it encoded into its buffer and
  writes the encoded bytes to the connection; or it sends an application message of its own and tells the session. The connection
  is the list of messages written so far, each with its time. \<open>None\<close> is an encoder that writes outside the buffer.\<close>

datatype activity = Poll Timestamp | Send Timestamp "u8 list"

type_synonym wire = "(Timestamp \<times> u8 list) list"

fun act_time :: "activity \<Rightarrow> Timestamp" where
  "act_time (Poll t) = t"
| "act_time (Send t msg) = t"

fun perform :: "u8 list \<Rightarrow> activity \<Rightarrow> wire \<times> NnfSession \<Rightarrow> (wire \<times> NnfSession) option" where
  "perform buf (Poll t) (w, s) =
     (if should_heartbeat s t
      then (case make_heartbeat buf t s of (None, _) \<Rightarrow> None | (Some (n, msg), s') \<Rightarrow> Some (w @ [(t, take n msg)], s'))
      else Some (w, s))"
| "perform buf (Send t msg) (w, s) = Some (w @ [(t, msg)], note_send t s)"

fun perform_all :: "u8 list \<Rightarrow> activity list \<Rightarrow> wire \<times> NnfSession \<Rightarrow> (wire \<times> NnfSession) option" where
  "perform_all buf [] x = Some x"
| "perform_all buf (a # as) x = (case perform buf a x of None \<Rightarrow> None | Some x' \<Rightarrow> perform_all buf as x')"

text \<open>The times of the activities from \<open>t\<close> on: none earlier than the one before, none later by more than \<open>\<delta>\<close>.\<close>

fun paced :: "nat \<Rightarrow> Timestamp \<Rightarrow> activity list \<Rightarrow> bool" where
  "paced \<delta> t [] \<longleftrightarrow> True"
| "paced \<delta> t (a # as) \<longleftrightarrow> unat t \<le> unat (act_time a) \<and> unat (act_time a) \<le> unat t + \<delta> \<and> paced \<delta> (act_time a) as"

text \<open>What the exchange sees of a heartbeat: a header alone, with its transaction code, the trader, the length and the time.\<close>

definition is_heartbeat :: "NnfEncoder \<Rightarrow> Timestamp \<Rightarrow> u8 list \<Rightarrow> bool" where
  "is_heartbeat e t m \<longleftrightarrow> length m = 32 \<and> header_read m kTcHeartbeat (ne_trader_id e) 32
     \<and> map unat (take 8 (drop kHdrTimestamp m)) = map ((+) 48) (clock_digits t)"

lemma heartbeat_written:
  assumes "encoder_ok e" "32 \<le> length buf"
  shows "encode_heartbeat e buf t = Some (32, concat (header_fields e kTcHeartbeat t 32) @ drop 32 buf)"
    and "is_heartbeat e t (concat (header_fields e kTcHeartbeat t 32))"
proof -
  define h where "h = header_fields e kTcHeartbeat t 32"
  show "encode_heartbeat e buf t = Some (32, concat (header_fields e kTcHeartbeat t 32) @ drop 32 buf)"
    using message_written [of "header_fields e kTcHeartbeat t 32" 32 buf] assms(2) by (simp add: encode_heartbeat_fields)
  have "header_read (concat h) kTcHeartbeat (ne_trader_id e) 32"
    using header_back [OF assms(1), of 32 kTcHeartbeat t "[]"] by (simp add: h_def in_i16_def)
  moreover have "take 8 (drop kHdrTimestamp (concat h)) = concat (timestamp_fields t)"
    using length_timestamp_fields [of t] by (simp add: h_def header_fields_def nnf_layout del: length_timestamp_fields)
  ultimately show "is_heartbeat e t (concat (header_fields e kTcHeartbeat t 32))"
    by (simp add: is_heartbeat_def timestamp_digits flip: h_def) (simp add: h_def)
qed

lemma unat_minus_word: "unat b \<le> unat a \<Longrightarrow> unat (a - b) = unat a - unat b" for a b :: u64
  by (simp add: unat_sub word_le_nat_alt)

definition half_minute :: nat where
  "half_minute = 30 * 1000000000"

lemma unat_heartbeat: "unat kHeartbeatIntervalNs = half_minute"
  by (simp add: kHeartbeatIntervalNs_def kNsPerSecond_def half_minute_def)

text \<open>The time of the last message on the connection, \<open>t0\<close> when there is none.\<close>

definition last_written :: "Timestamp \<Rightarrow> wire \<Rightarrow> Timestamp" where
  "last_written t0 w = (if w = [] then t0 else fst (last w))"

text \<open>A session in step with its connection, and where the messages on it come from.\<close>

definition in_touch :: "Timestamp \<Rightarrow> NnfEncoder \<Rightarrow> wire \<times> NnfSession \<Rightarrow> bool" where
  "in_touch t0 e x \<longleftrightarrow> is_ready (snd x) \<and> ns_encoder (snd x) = e \<and> ns_last_send_ns (snd x) = last_written t0 (fst x)"

definition accounted :: "NnfEncoder \<Rightarrow> activity list \<Rightarrow> wire \<Rightarrow> bool" where
  "accounted e as w \<longleftrightarrow> (\<forall>(u, m) \<in> set w. Send u m \<in> set as \<or> Poll u \<in> set as \<and> is_heartbeat e u m)
     \<and> (\<forall>u m. Send u m \<in> set as \<longrightarrow> (u, m) \<in> set w)"

lemma perform_fresh:
  assumes "in_touch t0 e (w, s)" "encoder_ok e" "32 \<le> length buf" "unat (ns_last_send_ns s) \<le> unat (act_time a)"
  shows "\<exists>out s'. perform buf a (w, s) = Some (w @ out, s') \<and> in_touch t0 e (w @ out, s') \<and> accounted e [a] out
    \<and> unat (ns_last_send_ns s') \<le> unat (act_time a) \<and> unat (act_time a) < unat (ns_last_send_ns s') + half_minute"
proof (cases a)
  case (Poll t)
  show ?thesis
  proof (cases "should_heartbeat s t")
    case True
    have e: "ns_encoder s = e" "is_ready s" using assms(1) by (simp_all add: in_touch_def)
    have "perform buf a (w, s) = Some (w @ [(t, concat (header_fields e kTcHeartbeat t 32))], s\<lparr>ns_last_send_ns := t\<rparr>)"
      using True heartbeat_written(1) [OF assms(2,3), of t] by (simp add: Poll make_heartbeat_def e)
    then show ?thesis using e Poll heartbeat_written(2) [OF assms(2,3), of t]
      by (intro exI) (auto simp: in_touch_def accounted_def is_ready_def last_written_def half_minute_def)
  next
    case False
    then have "unat t < unat (ns_last_send_ns s) + half_minute"
      using assms(1,4) Poll by (auto simp: should_heartbeat_def in_touch_def is_ready_def word_le_nat_alt unat_heartbeat unat_minus_word)
    then show ?thesis using False assms(1,4) Poll by (intro exI [of _ "[]"] exI [of _ s]) (simp add: accounted_def)
  qed
next
  case (Send t m)
  then show ?thesis using assms(1)
    by (intro exI [of _ "[(t, m)]"] exI [of _ "note_send t s"])
      (auto simp: in_touch_def accounted_def is_ready_def last_written_def note_send_def half_minute_def)
qed

lemma accounted_join: "accounted e [a] out \<Longrightarrow> accounted e as w \<Longrightarrow> accounted e (a # as) (out @ w)"
  unfolding accounted_def by fastforce

lemma paced_fresh:
  assumes "encoder_ok e" "32 \<le> length buf"
  shows "in_touch t0 e (w, s) \<Longrightarrow> unat (ns_last_send_ns s) \<le> unat t \<Longrightarrow> unat t < unat (ns_last_send_ns s) + half_minute \<Longrightarrow>
    paced \<delta> t (as @ [a]) \<Longrightarrow> \<exists>out s'. perform_all buf as (w, s) = Some (w @ out, s') \<and> in_touch t0 e (w @ out, s') \<and> accounted e as out
      \<and> unat (act_time a) < unat (ns_last_send_ns s') + half_minute + \<delta>"
proof (induction as arbitrary: w s t)
  case Nil
  then show ?case by (intro exI [of _ "[]"] exI [of _ s]) (simp add: accounted_def)
next
  case (Cons b as)
  obtain out s1 where 1: "perform buf b (w, s) = Some (w @ out, s1)" "in_touch t0 e (w @ out, s1)" "accounted e [b] out"
      "unat (ns_last_send_ns s1) \<le> unat (act_time b)" "unat (act_time b) < unat (ns_last_send_ns s1) + half_minute"
    using perform_fresh [OF Cons.prems(1) assms, of b] Cons.prems(2,4) by auto
  from Cons.IH [OF 1(2,4,5)] Cons.prems(4) obtain out' s' where
    "perform_all buf as (w @ out, s1) = Some ((w @ out) @ out', s')" "in_touch t0 e ((w @ out) @ out', s')" "accounted e as out'"
    "unat (act_time a) < unat (ns_last_send_ns s') + half_minute + \<delta>" by auto
  then show ?case using 1(1) accounted_join [OF 1(3)] by (intro exI [of _ "out @ out'"] exI [of _ s']) simp
qed

subsection \<open>Properties\<close>

text \<open>C17 The link does not go quiet. Let a session be ready, with an encoder whose arrays have their lengths and a buffer of at least 32
  bytes, and let its owner poll it or send through it at least every \<open>\<delta>\<close> nanoseconds, writing the heartbeat it is given whenever
  one is due. Then every activity returns, the session stays ready, and at every poll or send the last message on the connection (or,
  before the first one, the session's last send) is less than 30 s plus \<open>\<delta>\<close> old. Every message on the connection is
  an application message that was sent or, written at a poll, a complete heartbeat that the exchange reads back with
  its code, trader, length and time; and every application message is there.\<close>

theorem heartbeat_cadence:
  assumes "is_ready s" "encoder_ok (ns_encoder s)" "32 \<le> length buf"
    and "unat (ns_last_send_ns s) \<le> unat t" "unat t < unat (ns_last_send_ns s) + half_minute" "paced \<delta> t (as @ [a])"
  shows "\<exists>w s'. perform_all buf as ([], s) = Some (w, s') \<and> is_ready s'
    \<and> unat (act_time a) < unat (last_written (ns_last_send_ns s) w) + half_minute + \<delta>
    \<and> (\<forall>(u, m) \<in> set w. Send u m \<in> set as \<or> Poll u \<in> set as \<and> is_heartbeat (ns_encoder s) u m)
    \<and> (\<forall>u m. Send u m \<in> set as \<longrightarrow> (u, m) \<in> set w)"
proof -
  have "in_touch (ns_last_send_ns s) (ns_encoder s) ([], s)" using assms(1) by (simp add: in_touch_def last_written_def)
  from paced_fresh [OF assms(2,3) this assms(4-6)] show ?thesis by (auto simp: in_touch_def accounted_def)
qed

definition example_ready :: NnfSession where
  "example_ready = on_sign_on_response 0 1 (snd (start_login [] 1000 NnfSession_init))"

theorem heartbeat_cadence_witness:
  "\<exists>m s'. perform_all (replicate 64 0) [Poll 20000000000, Poll 39000000000, Send 57000000000 [1]] ([], example_ready) =
       Some ([(39000000000, m), (57000000000, [1])], s')
     \<and> is_ready s' \<and> is_heartbeat NnfEncoder_init 39000000000 m"
proof -
  let ?as = "[Poll 20000000000, Poll 39000000000, Send 57000000000 [1]]"
  have s: "is_ready example_ready" "ns_encoder example_ready = NnfEncoder_init" "ns_last_send_ns example_ready = 1000"
    by (simp_all add: example_ready_def on_sign_on_response_def start_login_def NnfSession_init_def is_ready_def)
  have run: "\<exists>m s'. perform_all (replicate 64 0) ?as ([], example_ready) = Some ([(39000000000, m), (57000000000, [1])], s')"
    using s heartbeat_written(1) [OF encoder_ok_init, of "replicate 64 0" 39000000000]
    by (simp add: should_heartbeat_def is_ready_def make_heartbeat_def note_send_def kHeartbeatIntervalNs_def kNsPerSecond_def)
  show ?thesis
    using run heartbeat_cadence [of example_ready "replicate 64 0" 1000 20000000000 ?as "Poll 70000000000"] s encoder_ok_init
    by (auto simp: half_minute_def simp del: perform_all.simps)
qed

end
