(* ===== verification/Symbol_Master.thy ===== *)
theory Symbol_Master
  imports Types
begin

text \<open>
  \<^verbatim>\<open>src/session/symbol_master.hpp\<close> and \<^verbatim>\<open>symbol_master.cpp\<close>: the instrument table and
  its loading from the exchange's CSV file, together with what the loader uses of the standard
  library: \<^verbatim>\<open>std::getline\<close> and the conversions \<^verbatim>\<open>strtoul\<close>, \<^verbatim>\<open>strtol\<close> and \<^verbatim>\<open>strtoll\<close> in base ten
  (\<^verbatim>\<open>long\<close> has 64 bits).

  A file is the string of its contents, \<open>None\<close> when it cannot be opened. A character array is
  the list of the characters stored before the terminator the code writes.
\<close>

subsection \<open>The table\<close>

definition kSymbolTableSize :: nat where
  "kSymbolTableSize = 65536"

datatype InstrumentType = kUnknown | kEquity | kFutIdx | kFutStk | kOptIdx | kOptStk

datatype OptionType = kNoOption | kCall | kPut

record Instrument =
  i_token :: Token
  i_segment :: Segment
  i_instrument_type :: InstrumentType
  i_option_type :: OptionType
  i_lot_size :: Quantity
  i_tick_size :: Price
  i_strike_price :: Price
  i_prev_close :: Price
  i_circuit_pct_x100 :: u16
  i_expiry_yyyymmdd :: u32
  i_active :: bool
  i_symbol :: string
  i_series :: string

definition Instrument_default :: Instrument where
  "Instrument_default = \<lparr>i_token = 0, i_segment = 0, i_instrument_type = kUnknown, i_option_type = kNoOption,
     i_lot_size = 1, i_tick_size = 0, i_strike_price = 0, i_prev_close = 0, i_circuit_pct_x100 = 0,
     i_expiry_yyyymmdd = 0, i_active = False, i_symbol = [], i_series = []\<rparr>"

record SymbolMaster =
  sm_table :: "nat \<Rightarrow> Instrument"
  sm_count :: nat

definition SymbolMaster_init :: SymbolMaster where
  "SymbolMaster_init = \<lparr>sm_table = (\<lambda>_. Instrument_default), sm_count = 0\<rparr>"

definition sm_put :: "Instrument \<Rightarrow> SymbolMaster \<Rightarrow> SymbolMaster" where
  "sm_put inst sm =
     (let t = unat (i_token inst)
      in if t \<ge> kSymbolTableSize then sm
         else sm\<lparr>sm_count := (if \<not> i_active (sm_table sm t) then sm_count sm + 1 else sm_count sm),
                 sm_table := (sm_table sm)(t := inst\<lparr>i_active := True\<rparr>)\<rparr>)"

definition sm_get :: "SymbolMaster \<Rightarrow> Token \<Rightarrow> Instrument option" where
  "sm_get sm token =
     (if unat token \<ge> kSymbolTableSize \<or> \<not> i_active (sm_table sm (unat token)) then None
      else Some (sm_table sm (unat token)))"

definition get_lot_size :: "SymbolMaster \<Rightarrow> Token \<Rightarrow> Quantity" where
  "get_lot_size sm token = (case sm_get sm token of None \<Rightarrow> 0 | Some i \<Rightarrow> i_lot_size i)"

definition get_tick_size :: "SymbolMaster \<Rightarrow> Token \<Rightarrow> Price" where
  "get_tick_size sm token = (case sm_get sm token of None \<Rightarrow> 0 | Some i \<Rightarrow> i_tick_size i)"

definition get_expiry :: "SymbolMaster \<Rightarrow> Token \<Rightarrow> u32" where
  "get_expiry sm token = (case sm_get sm token of None \<Rightarrow> 0 | Some i \<Rightarrow> i_expiry_yyyymmdd i)"

definition is_index_derivative :: "SymbolMaster \<Rightarrow> Token \<Rightarrow> bool" where
  "is_index_derivative sm token =
     (case sm_get sm token of None \<Rightarrow> False
      | Some i \<Rightarrow> i_instrument_type i = kFutIdx \<or> i_instrument_type i = kOptIdx)"

text \<open>A character array compares with a string up to its first null character.\<close>

definition c_str :: "string \<Rightarrow> string" where
  "c_str s = takeWhile (\<lambda>c. c \<noteq> CHR 0x00) s"

fun get_token_scan :: "SymbolMaster \<Rightarrow> string \<Rightarrow> string \<Rightarrow> nat list \<Rightarrow> Token" where
  "get_token_scan sm symbol series [] = 0"
| "get_token_scan sm symbol series (t # ts) =
     (let row = sm_table sm t
      in if i_active row \<and> symbol = c_str (i_symbol row) \<and> series = c_str (i_series row) then i_token row
         else get_token_scan sm symbol series ts)"

definition get_token :: "SymbolMaster \<Rightarrow> string \<Rightarrow> string \<Rightarrow> Token" where
  "get_token sm symbol series = get_token_scan sm symbol series [0 ..< kSymbolTableSize]"

subsection \<open>Reading the file\<close>

text \<open>All results of \<^verbatim>\<open>std::getline\<close> on a stream, until it fails: a delimiter at the very end
  starts no further line.\<close>

function getlines :: "char \<Rightarrow> string \<Rightarrow> string list" where
  "getlines d s = (if s = [] then [] else takeWhile (\<lambda>c. c \<noteq> d) s # getlines d (tl (dropWhile (\<lambda>c. c \<noteq> d) s)))"
  by pat_completeness auto
termination
proof (relation "measure (\<lambda>(d, s). length s)", goal_cases)
  case (2 d s)
  have "length (dropWhile (\<lambda>c. c \<noteq> d) s) \<le> length s" by (rule length_dropWhile_le)
  then show ?case using 2 by (cases s) auto
qed simp

declare getlines.simps [simp del]

definition isspace :: "char \<Rightarrow> bool" where
  "isspace c \<longleftrightarrow> c \<in> {CHR '' '', CHR 0x09, CHR 0x0A, CHR 0x0B, CHR 0x0C, CHR 0x0D}"

definition digit_value :: "char \<Rightarrow> nat option" where
  "digit_value c = (let v = of_char c :: nat in if 48 \<le> v \<and> v \<le> 57 then Some (v - 48) else None)"

fun digits_value :: "nat \<Rightarrow> string \<Rightarrow> nat" where
  "digits_value acc [] = acc"
| "digits_value acc (c # cs) = (case digit_value c of None \<Rightarrow> acc | Some d \<Rightarrow> digits_value (10 * acc + d) cs)"

text \<open>The sign and the magnitude of the number a string starts with; no digits mean zero.\<close>

definition scan_number :: "string \<Rightarrow> bool \<times> nat" where
  "scan_number s =
     (case dropWhile isspace s of
        [] \<Rightarrow> (False, 0)
      | c # cs \<Rightarrow> if c = CHR ''-'' then (True, digits_value 0 cs)
                 else if c = CHR ''+'' then (False, digits_value 0 cs)
                 else (False, digits_value 0 (c # cs)))"

definition strtoul :: "string \<Rightarrow> u64" where
  "strtoul s = (case scan_number s of (neg, v) \<Rightarrow>
     if v \<ge> 2 ^ 64 then - 1 else if neg then - of_nat v else of_nat v)"

definition strtoll :: "string \<Rightarrow> int" where
  "strtoll s = (case scan_number s of (neg, v) \<Rightarrow>
     if neg then max (- (2 ^ 63)) (- int v) else min (2 ^ 63 - 1) (int v))"

definition ParseInstrumentType :: "string \<Rightarrow> InstrumentType" where
  "ParseInstrumentType s =
     (if s = ''EQ'' \<or> s = ''equity'' then kEquity
      else if s = ''FUTIDX'' then kFutIdx
      else if s = ''FUTSTK'' then kFutStk
      else if s = ''OPTIDX'' then kOptIdx
      else if s = ''OPTSTK'' then kOptStk
      else kUnknown)"

definition ParseOptionType :: "string \<Rightarrow> OptionType" where
  "ParseOptionType s = (if s = ''CE'' then kCall else if s = ''PE'' then kPut else kNoOption)"

definition CopyFixed :: "nat \<Rightarrow> string \<Rightarrow> string" where
  "CopyFixed cap src = take (if length src < cap - 1 then length src else cap - 1) src"

definition parse_row :: "string list \<Rightarrow> Instrument" where
  "parse_row cols =
     (let lot = to_i32 (strtoll (cols ! 8))
      in Instrument_default
           \<lparr>i_token := ucast (strtoul (cols ! 0)),
            i_symbol := CopyFixed 16 (cols ! 1),
            i_series := CopyFixed 4 (cols ! 2),
            i_instrument_type := ParseInstrumentType (cols ! 3),
            i_segment := ucast (strtoul (cols ! 4)),
            i_expiry_yyyymmdd := ucast (strtoul (cols ! 5)),
            i_strike_price := strtoll (cols ! 6),
            i_option_type := ParseOptionType (cols ! 7),
            i_lot_size := (if lot \<le> 0 then 1 else lot),
            i_tick_size := strtoll (cols ! 9),
            i_prev_close := strtoll (cols ! 10),
            i_circuit_pct_x100 := ucast (strtoul (cols ! 11))\<rparr>)"

text \<open>The loop over the lines; the flag says that the header line is still to come.\<close>

fun load_lines :: "string list \<Rightarrow> bool \<Rightarrow> int \<Rightarrow> SymbolMaster \<Rightarrow> int \<times> SymbolMaster" where
  "load_lines [] header rows sm = (rows, sm)"
| "load_lines (line # lines) header rows sm =
     (if line = [] then load_lines lines header rows sm
      else if header then load_lines lines False rows sm
      else let cols = getlines CHR '','' line
           in if length cols < 12 then load_lines lines header rows sm
              else load_lines lines header (rows + 1) (sm_put (parse_row cols) sm))"

definition deactivate :: "SymbolMaster \<Rightarrow> SymbolMaster" where
  "deactivate sm = sm\<lparr>sm_table := (\<lambda>t. (sm_table sm t)\<lparr>i_active := False\<rparr>), sm_count := 0\<rparr>"

definition load_csv :: "string option \<Rightarrow> SymbolMaster \<Rightarrow> int \<times> SymbolMaster" where
  "load_csv file sm =
     (case file of
        None \<Rightarrow> (- 1, sm)
      | Some text \<Rightarrow> load_lines (getlines CHR 0x0A text) True 0 (deactivate sm))"

subsection \<open>The table as a map from tokens\<close>

text \<open>The contract the loader and the lookups share: an entry is found under its key until another
  entry with the same key replaces it.\<close>

locale keyed_table =
  fixes put :: "'v \<Rightarrow> 't \<Rightarrow> 't" and get :: "'t \<Rightarrow> 'k \<Rightarrow> 'v option" and key :: "'v \<Rightarrow> 'k" and ok :: "'v \<Rightarrow> bool"
  assumes get_put: "ok v \<Longrightarrow> get (put v t) k = (if key v = k then Some v else get t k)"
begin

lemma get_put_all:
  "\<forall>v \<in> set vs. ok v \<Longrightarrow>
    get (fold put vs t) k = (case map_of (rev (map (\<lambda>v. (key v, v)) vs)) k of None \<Rightarrow> get t k | Some v \<Rightarrow> Some v)"
  by (induction vs arbitrary: t) (auto simp: get_put map_add_def split: option.splits)

end

definition listed :: "Instrument \<Rightarrow> bool" where
  "listed inst \<longleftrightarrow> unat (i_token inst) < kSymbolTableSize \<and> i_active inst"

interpretation st: keyed_table sm_put sm_get i_token listed
  by unfold_locales (auto simp: sm_put_def sm_get_def listed_def Let_def word_unat_eq_iff)

text \<open>The counter counts the active rows.\<close>

definition sm_inv :: "SymbolMaster \<Rightarrow> bool" where
  "sm_inv sm \<longleftrightarrow> sm_count sm = marked kSymbolTableSize i_active (sm_table sm)"

lemma sm_inv_start: "sm_inv SymbolMaster_init" "sm_inv (deactivate sm)"
  by (simp_all add: sm_inv_def SymbolMaster_init_def deactivate_def Instrument_default_def marked_zero)

lemma sm_inv_put: "sm_inv sm \<Longrightarrow> sm_inv (sm_put inst sm)"
  by (auto simp: sm_inv_def sm_put_def Let_def marked_set marked_same)

interpretation st_inv: op_machine sm_put sm_inv
  by unfold_locales (rule sm_inv_put)

subsection \<open>Writing a row\<close>

definition digit_char :: "nat \<Rightarrow> char" where
  "digit_char d = char_of (48 + d)"

fun dec :: "nat \<Rightarrow> string" where
  "dec n = (if n < 10 then [digit_char n] else dec (n div 10) @ [digit_char (n mod 10)])"

declare dec.simps [simp del]

definition dec_int :: "int \<Rightarrow> string" where
  "dec_int i = (if i < 0 then CHR ''-'' # dec (nat (- i)) else dec (nat i))"

fun type_name :: "InstrumentType \<Rightarrow> string" where
  "type_name kUnknown = ''XX''"
| "type_name kEquity = ''EQ''"
| "type_name kFutIdx = ''FUTIDX''"
| "type_name kFutStk = ''FUTSTK''"
| "type_name kOptIdx = ''OPTIDX''"
| "type_name kOptStk = ''OPTSTK''"

fun option_name :: "OptionType \<Rightarrow> string" where
  "option_name kNoOption = []"
| "option_name kCall = ''CE''"
| "option_name kPut = ''PE''"

definition csv_fields :: "Instrument \<Rightarrow> string list" where
  "csv_fields i = [dec (unat (i_token i)), i_symbol i, i_series i, type_name (i_instrument_type i), dec (unat (i_segment i)),
     dec (unat (i_expiry_yyyymmdd i)), dec_int (i_strike_price i), option_name (i_option_type i), dec_int (i_lot_size i),
     dec_int (i_tick_size i), dec_int (i_prev_close i), dec (unat (i_circuit_pct_x100 i))]"

fun join :: "char \<Rightarrow> string list \<Rightarrow> string" where
  "join d [] = []"
| "join d [f] = f"
| "join d (f # g # fs) = f @ d # join d (g # fs)"

definition csv_file :: "string \<Rightarrow> Instrument list \<Rightarrow> string" where
  "csv_file header insts =
     header @ CHR 0x0A # concat (map (\<lambda>i. join CHR '','' (csv_fields i) @ [CHR 0x0A]) insts)"

text \<open>What a row can hold: text without separators that fits the arrays, numbers that fit their types.\<close>

definition csv_ok :: "Instrument \<Rightarrow> bool" where
  "csv_ok i \<longleftrightarrow> listed i \<and> length (i_symbol i) < 16 \<and> length (i_series i) < 4
     \<and> set (i_symbol i) \<inter> {CHR '','', CHR 0x0A} = {} \<and> set (i_series i) \<inter> {CHR '','', CHR 0x0A} = {}
     \<and> 0 < i_lot_size i \<and> in_i32 (i_lot_size i) \<and> in_i64 (i_strike_price i) \<and> in_i64 (i_tick_size i) \<and> in_i64 (i_prev_close i)"

lemma digit_char_value: "d < 10 \<Longrightarrow> digit_value (digit_char d) = Some d"
  by (simp add: digit_value_def digit_char_def)

definition is_digit :: "char \<Rightarrow> bool" where
  "is_digit c \<longleftrightarrow> digit_value c \<noteq> None"

lemma dec_digits: "c \<in> set (dec n) \<Longrightarrow> is_digit c"
proof (induction n rule: dec.induct)
  case (1 n)
  from 1(2) show ?case using 1(1) by (subst (asm) dec.simps) (auto simp: is_digit_def digit_char_value split: if_splits)
qed

lemma dec_not_Nil [simp]: "dec n \<noteq> []"
  by (subst dec.simps) simp

lemma digits_value_snoc:
  "\<forall>c \<in> set cs. is_digit c \<Longrightarrow> digit_value c = Some d \<Longrightarrow> digits_value acc (cs @ [c]) = 10 * digits_value acc cs + d"
  by (induction cs arbitrary: acc) (auto simp: is_digit_def split: option.splits)

lemma digits_value_dec: "digits_value 0 (dec n) = n"
proof (induction n rule: dec.induct)
  case (1 n)
  show ?case
  proof (cases "n < 10")
    case True
    then show ?thesis by (subst dec.simps) (simp add: digit_char_value)
  next
    case False
    then show ?thesis using 1 digits_value_snoc [of "dec (n div 10)" "digit_char (n mod 10)" "n mod 10" 0] dec_digits
      by (subst dec.simps) (simp add: digit_char_value)
  qed
qed

lemma digit_plain: "is_digit c \<Longrightarrow> \<not> isspace c \<and> c \<noteq> CHR ''-'' \<and> c \<noteq> CHR ''+'' \<and> c \<noteq> CHR '','' \<and> c \<noteq> CHR 0x0A"
  by (auto simp: is_digit_def digit_value_def isspace_def)

lemma scan_dec: "scan_number (dec n) = (False, n)"
proof (cases "dec n")
  case (Cons c cs)
  then have "is_digit c" using dec_digits [of c n] by simp
  then show ?thesis using digit_plain [of c] digits_value_dec [of n] Cons by (simp add: scan_number_def)
qed simp

lemma scan_dec_int: "scan_number (dec_int i) = (i < 0, nat \<bar>i\<bar>)"
  by (auto simp: dec_int_def scan_dec) (simp add: scan_number_def isspace_def digits_value_dec)

lemma strtoll_dec_int: "in_i64 i \<Longrightarrow> strtoll (dec_int i) = i"
  by (auto simp: strtoll_def scan_dec_int in_i64_def)

lemma strtoul_dec:
  fixes w :: "'a::len word"
  assumes "LENGTH('a) \<le> 64"
  shows "ucast (strtoul (dec (unat w))) = w"
proof -
  have "unat w < 2 ^ LENGTH('a)" by (rule unsigned_less)
  also have "(2::nat) ^ LENGTH('a) \<le> 2 ^ 64" using assms by (rule power_increasing) simp
  finally have w: "unat w < 2 ^ 64" .
  then have "strtoul (dec (unat w)) = of_nat (unat w)" by (simp add: strtoul_def scan_dec)
  also have "\<dots> = ucast w" by (simp add: word_unat_eq_iff unsigned_ucast_eq unat_of_nat take_bit_eq_mod)
  finally have "strtoul (dec (unat w)) = ucast w" .
  moreover have "(ucast (ucast w :: u64) :: 'a word) = w"
    using assms by (intro bit_word_eqI) (simp add: bit_simps)
  ultimately show ?thesis by simp
qed

lemmas strtoul_words = strtoul_dec [where 'a = 32, simplified] strtoul_dec [where 'a = 16, simplified]
  strtoul_dec [where 'a = 8, simplified]

subsection \<open>Reading the rows back\<close>

lemma getlines_Nil [simp]: "getlines d [] = []"
  by (simp add: getlines.simps)

lemma getlines_field: "d \<notin> set f \<Longrightarrow> getlines d (f @ d # rest) = f # getlines d rest"
proof -
  assume "d \<notin> set f"
  then have "takeWhile (\<lambda>c. c \<noteq> d) (f @ d # rest) = f" "dropWhile (\<lambda>c. c \<noteq> d) (f @ d # rest) = d # rest"
    by (induction f) auto
  then show ?thesis by (subst getlines.simps) simp
qed

lemma getlines_last:
  assumes "d \<notin> set f" "f \<noteq> []"
  shows "getlines d f = [f]"
proof -
  have "takeWhile (\<lambda>c. c \<noteq> d) f = f" "dropWhile (\<lambda>c. c \<noteq> d) f = []"
    using assms(1) by (auto simp: takeWhile_eq_all_conv dropWhile_eq_Nil_conv)
  then show ?thesis using assms(2) by (simp only: getlines.simps [of d f] getlines_Nil list.sel if_False)
qed

lemma getlines_join: "\<forall>f \<in> set fs. d \<notin> set f \<Longrightarrow> fs \<noteq> [] \<Longrightarrow> last fs \<noteq> [] \<Longrightarrow> getlines d (join d fs) = fs"
  by (induction d fs rule: join.induct) (simp_all add: getlines_last getlines_field)

lemma set_join: "set (join d fs) \<subseteq> insert d (\<Union> (set ` set fs))"
  by (induction d fs rule: join.induct) auto

lemma dec_plain: "CHR '','' \<notin> set (dec n)" "CHR 0x0A \<notin> set (dec n)"
  using dec_digits digit_plain by blast+

lemma dec_int_plain: "CHR '','' \<notin> set (dec_int i)" "CHR 0x0A \<notin> set (dec_int i)"
  by (simp_all add: dec_int_def dec_plain)

lemma names_plain:
  "CHR '','' \<notin> set (type_name t)" "CHR 0x0A \<notin> set (type_name t)"
  "CHR '','' \<notin> set (option_name p)" "CHR 0x0A \<notin> set (option_name p)"
  by (cases t; simp)+ (cases p; simp)+

lemmas fields_plain = dec_plain dec_int_plain names_plain

lemma csv_line:
  assumes "csv_ok i"
  shows "getlines CHR '','' (join CHR '','' (csv_fields i)) = csv_fields i"
    and "CHR 0x0A \<notin> set (join CHR '','' (csv_fields i))" and "join CHR '','' (csv_fields i) \<noteq> []"
proof -
  have plain: "CHR '','' \<notin> set f \<and> CHR 0x0A \<notin> set f" if "f \<in> set (csv_fields i)" for f
    using that assms by (auto simp: csv_fields_def csv_ok_def fields_plain)
  then show fields: "getlines CHR '','' (join CHR '','' (csv_fields i)) = csv_fields i"
    by (intro getlines_join) (auto simp: csv_fields_def)
  show "CHR 0x0A \<notin> set (join CHR '','' (csv_fields i))"
    using set_join [of "CHR '',''" "csv_fields i"] plain by auto
  show "join CHR '','' (csv_fields i) \<noteq> []"
    using fields by (auto simp: csv_fields_def)
qed

lemma type_name_back: "ParseInstrumentType (type_name t) = t" "ParseOptionType (option_name p) = p"
  by (cases t; simp add: ParseInstrumentType_def) (cases p; simp add: ParseOptionType_def)

lemma parse_row_back:
  assumes "csv_ok i"
  shows "(parse_row (csv_fields i))\<lparr>i_active := True\<rparr> = i"
proof -
  have "in_i64 (i_lot_size i)" using assms by (auto simp: csv_ok_def in_i32_def in_i64_def)
  then have lot: "to_i32 (strtoll (dec_int (i_lot_size i))) = i_lot_size i" "\<not> i_lot_size i \<le> 0"
    using assms by (simp_all add: strtoll_dec_int to_i32_id csv_ok_def)
  have copy: "CopyFixed 16 (i_symbol i) = i_symbol i" "CopyFixed 4 (i_series i) = i_series i"
    using assms by (auto simp: CopyFixed_def csv_ok_def)
  show ?thesis
    using assms copy lot unfolding parse_row_def csv_fields_def csv_ok_def listed_def
    by (intro Instrument.equality)
       (simp_all add: Instrument_default_def Let_def strtoul_words strtoll_dec_int type_name_back nth_Cons')
qed

lemma sm_put_active: "sm_put (inst\<lparr>i_active := True\<rparr>) sm = sm_put inst sm"
  by (simp add: sm_put_def Let_def)

lemma load_rows:
  "\<forall>i \<in> set insts. csv_ok i \<Longrightarrow>
    load_lines (getlines CHR 0x0A (concat (map (\<lambda>i. join CHR '','' (csv_fields i) @ [CHR 0x0A]) insts))) False rows sm =
      (rows + int (length insts), fold sm_put insts sm)"
proof (induction insts arbitrary: rows sm)
  case (Cons i insts)
  note line = csv_line [of i]
  have "sm_put (parse_row (csv_fields i)) sm = sm_put i sm"
    using parse_row_back [of i] sm_put_active [of "parse_row (csv_fields i)" sm] Cons.prems by simp
  moreover have "length (csv_fields i) = 12" by (simp add: csv_fields_def)
  ultimately show ?case using Cons line by (simp add: getlines_field)
qed simp

lemma sm_get_deactivate: "sm_get (deactivate sm) tok = None"
  by (simp add: sm_get_def deactivate_def)

lemma count_tokens:
  assumes "sm_inv sm"
  shows "sm_count sm = card (dom (sm_get sm))"
proof -
  have "unat ` dom (sm_get sm) = {t. t < kSymbolTableSize \<and> i_active (sm_table sm t)}"
  proof (intro equalityI subsetI)
    fix t assume "t \<in> {t. t < kSymbolTableSize \<and> i_active (sm_table sm t)}"
    then have "unat (of_nat t :: Token) = t" "t < kSymbolTableSize" "i_active (sm_table sm t)"
      by (auto simp: unat_of_nat kSymbolTableSize_def)
    then show "t \<in> unat ` dom (sm_get sm)" by (intro image_eqI [of _ _ "of_nat t"]) (auto simp: sm_get_def)
  qed (auto simp: sm_get_def split: if_splits)
  moreover have "inj_on unat (dom (sm_get sm))" by (auto intro: inj_onI simp: word_unat_eq_iff)
  ultimately show ?thesis using assms card_image [of unat "dom (sm_get sm)"] by (simp add: sm_inv_def marked_def)
qed

text \<open>C21 A symbol file reads back: loading the CSV file written for a list of instruments, over
  whatever the table held before, reports their number and makes every token look up the last
  instrument listed under it and nothing else; the counter is the number of tokens listed.\<close>

theorem symbol_file_roundtrip:
  assumes "\<forall>i \<in> set insts. csv_ok i" "header \<noteq> []" "CHR 0x0A \<notin> set header"
    and "load_csv (Some (csv_file header insts)) sm = (rows, sm')"
  shows "rows = int (length insts)
       \<and> sm_get sm' tok = map_of (rev (map (\<lambda>i. (i_token i, i)) insts)) tok
       \<and> sm_count sm' = card (dom (sm_get sm'))"
proof -
  have "getlines CHR 0x0A (csv_file header insts) =
      header # getlines CHR 0x0A (concat (map (\<lambda>i. join CHR '','' (csv_fields i) @ [CHR 0x0A]) insts))"
    unfolding csv_file_def by (rule getlines_field [OF assms(3)])
  then have "rows = int (length insts)" and sm': "sm' = fold sm_put insts (deactivate sm)"
    using assms(2,4) load_rows [OF assms(1), of 0 "deactivate sm"] by (simp_all add: load_csv_def)
  moreover have "sm_get sm' tok = map_of (rev (map (\<lambda>i. (i_token i, i)) insts)) tok"
    using st.get_put_all [of insts "deactivate sm" tok] assms(1)
    by (auto simp: sm' sm_get_deactivate csv_ok_def split: option.splits)
  moreover have "sm_inv sm'" unfolding sm' by (rule st_inv.run_inv) (rule sm_inv_start)
  ultimately show ?thesis using count_tokens [of sm'] by simp
qed

definition example_instrument :: Instrument where
  "example_instrument = Instrument_default\<lparr>i_token := 7, i_segment := kSegmentFo, i_instrument_type := kOptIdx,
     i_option_type := kPut, i_lot_size := 25, i_tick_size := 5, i_strike_price := 2200000, i_prev_close := 10000,
     i_circuit_pct_x100 := 2000, i_expiry_yyyymmdd := 20250130, i_active := True, i_symbol := ''NIFTY'', i_series := ''XX''\<rparr>"

lemma example_instrument_ok: "csv_ok example_instrument"
  by (simp add: csv_ok_def listed_def example_instrument_def Instrument_default_def kSymbolTableSize_def in_i32_def in_i64_def)

theorem symbol_file_roundtrip_witness:
  "let (rows, sm) = load_csv (Some (csv_file ''token'' [example_instrument])) SymbolMaster_init
   in rows = 1 \<and> sm_get sm 7 = Some example_instrument \<and> sm_get sm 8 = None"
proof (cases "load_csv (Some (csv_file ''token'' [example_instrument])) SymbolMaster_init")
  case (Pair rows sm)
  have "i_token example_instrument = 7" by (simp add: example_instrument_def Instrument_default_def)
  then show ?thesis
    using symbol_file_roundtrip [OF _ _ _ Pair, of 7] symbol_file_roundtrip [OF _ _ _ Pair, of 8] example_instrument_ok
    by (simp add: Pair)
qed

end
