(* ===== verification/Risk_Manager.thy ===== *)
theory Risk_Manager
  imports Symbol_Master Time_Utils
begin

text \<open>
  \<^verbatim>\<open>src/risk/risk_manager.hpp\<close>: the pre-trade gate that every order passes.

  The per-token vectors are functions of the index; reading one outside its 65536 entries is
  \<open>None\<close>. The wall clock is read only when no simulated time is set: its reading is an argument
  of \<open>check\<close>. The rate limiter computes in doubles, which are rationals rounded by \<open>fl\<close>. The two
  kill switches are atomic flags that a call reads once; concurrent writers are operations between
  the calls.
\<close>

subsection \<open>Data\<close>

datatype RejectReason = kApproved | kKillSwitch | kOutsideMarketHours | kOrderTooLarge | kLotSizeMismatch
  | kPriceBandBreach | kPriceSanity | kPositionLimit | kRateLimitExceeded

record RiskConfig =
  rc_max_orders_per_sec :: int
  rc_max_order_qty :: Quantity
  rc_max_token_position_lots :: int
  rc_max_cm_notional_inr :: int
  rc_max_daily_loss_inr :: int
  rc_allow_preopen :: bool
  rc_price_sanity_pct :: int

definition RiskConfig_default :: RiskConfig where
  "RiskConfig_default = \<lparr>rc_max_orders_per_sec = 1000, rc_max_order_qty = 10000, rc_max_token_position_lots = 100,
     rc_max_cm_notional_inr = 1000000000, rc_max_daily_loss_inr = 100000, rc_allow_preopen = False,
     rc_price_sanity_pct = 2\<rparr>"

record RiskManager =
  rm_symbols :: "SymbolMaster option"
  rm_cfg :: RiskConfig
  rm_position :: "nat \<Rightarrow> Quantity"
  rm_ref_bid :: "nat \<Rightarrow> Price"
  rm_ref_ask :: "nat \<Rightarrow> Price"
  rm_tokens :: rat
  rm_last_refill_ns :: u64
  rm_kill_switch :: bool
  rm_daily_loss_kill :: bool
  rm_cashflow_paisa :: int
  rm_mark_pnl_inr :: int
  rm_sim_now_ns :: Timestamp

definition RiskManager_init :: "SymbolMaster option \<Rightarrow> RiskConfig \<Rightarrow> RiskManager" where
  "RiskManager_init symbols cfg = \<lparr>rm_symbols = symbols, rm_cfg = cfg, rm_position = (\<lambda>_. 0), rm_ref_bid = (\<lambda>_. 0),
     rm_ref_ask = (\<lambda>_. 0), rm_tokens = fl (of_int (rc_max_orders_per_sec cfg)), rm_last_refill_ns = 0,
     rm_kill_switch = False, rm_daily_loss_kill = False, rm_cashflow_paisa = 0, rm_mark_pnl_inr = 0, rm_sim_now_ns = 0\<rparr>"

subsection \<open>Operations\<close>

definition RiskManager_set_now :: "Timestamp \<Rightarrow> RiskManager \<Rightarrow> RiskManager" where
  "RiskManager_set_now ist_ns rm = rm\<lparr>rm_sim_now_ns := ist_ns\<rparr>"

definition update_reference :: "Token \<Rightarrow> Price \<Rightarrow> Price \<Rightarrow> RiskManager \<Rightarrow> RiskManager" where
  "update_reference token bid ask rm =
     (if unat token < kSymbolTableSize
      then rm\<lparr>rm_ref_bid := (rm_ref_bid rm)(unat token := bid), rm_ref_ask := (rm_ref_ask rm)(unat token := ask)\<rparr>
      else rm)"

definition RiskManager_LotSize :: "RiskManager \<Rightarrow> Token \<Rightarrow> Quantity" where
  "RiskManager_LotSize rm token = (case rm_symbols rm of None \<Rightarrow> 0 | Some sm \<Rightarrow> get_lot_size sm token)"

definition RiskManager_PriceBand :: "RiskManager \<Rightarrow> Token \<Rightarrow> (Price \<times> Price) option" where
  "RiskManager_PriceBand rm token =
     (case rm_symbols rm of
        None \<Rightarrow> None
      | Some sm \<Rightarrow>
          (case sm_get sm token of
             None \<Rightarrow> None
           | Some inst \<Rightarrow>
               if i_prev_close inst \<le> 0 \<or> i_circuit_pct_x100 inst = 0 then None
               else let delta = (i_prev_close inst * uint (i_circuit_pct_x100 inst)) sdiv 10000
                    in Some (i_prev_close inst - delta, i_prev_close inst + delta)))"

text \<open>An element of one of the per-token vectors.\<close>

definition at_token :: "(nat \<Rightarrow> int) \<Rightarrow> Token \<Rightarrow> int option" where
  "at_token v token = (if unat token < kSymbolTableSize then Some (v (unat token)) else None)"

definition PriceSane :: "RiskManager \<Rightarrow> Order \<Rightarrow> bool option" where
  "PriceSane rm ord =
     (case at_token (if o_side ord = kBuy then rm_ref_ask rm else rm_ref_bid rm) (o_token ord) of
        None \<Rightarrow> None
      | Some ref \<Rightarrow>
          if ref \<le> 0 then Some True
          else let diff = (if o_price ord > ref then o_price ord - ref else ref - o_price ord)
               in Some (diff * 100 \<le> ref * rc_price_sanity_pct (rm_cfg rm)))"

definition PositionOk :: "RiskManager \<Rightarrow> Order \<Rightarrow> Quantity \<Rightarrow> bool option" where
  "PositionOk rm ord lot =
     (case at_token (rm_position rm) (o_token ord) of
        None \<Rightarrow> None
      | Some position \<Rightarrow>
          (let signed_qty = (if o_side ord = kBuy then o_qty ord else - o_qty ord);
               projected = position + signed_qty;
               l = (if lot > 0 then lot else 1);
               lots = projected sdiv l;
               lots = (if lots < 0 then - lots else lots)
           in if lots > rc_max_token_position_lots (rm_cfg rm) then Some False
              else if o_segment ord = kSegmentCm \<and>
                      (o_qty ord * o_price ord) sdiv 100 > rc_max_cm_notional_inr (rm_cfg rm)
              then Some False
              else Some True))"

definition ConsumeRateToken :: "Timestamp \<Rightarrow> RiskManager \<Rightarrow> bool \<times> RiskManager" where
  "ConsumeRateToken now rm =
     (let rate_per_ns = fl (fl (of_int (rc_max_orders_per_sec (rm_cfg rm))) / fl (of_nat (unat kNsPerSecond)));
          rm = (if rm_last_refill_ns rm = 0 then rm\<lparr>rm_last_refill_ns := now\<rparr> else rm);
          rm = (if now > rm_last_refill_ns rm
                then let tokens = fl (rm_tokens rm + fl (fl (of_nat (unat (now - rm_last_refill_ns rm))) * rate_per_ns));
                         cap = fl (of_int (rc_max_orders_per_sec (rm_cfg rm)))
                     in rm\<lparr>rm_tokens := (if tokens > cap then cap else tokens), rm_last_refill_ns := now\<rparr>
                else rm)
      in if rm_tokens rm \<ge> 1 then (True, rm\<lparr>rm_tokens := fl (rm_tokens rm - 1)\<rparr>) else (False, rm))"

definition kill_switch_active :: "RiskManager \<Rightarrow> bool" where
  "kill_switch_active rm \<longleftrightarrow> rm_kill_switch rm \<or> rm_daily_loss_kill rm"

definition risk_now :: "timespec \<Rightarrow> RiskManager \<Rightarrow> Timestamp" where
  "risk_now wall rm = (if rm_sim_now_ns rm \<noteq> 0 then rm_sim_now_ns rm else ist_now_ns wall)"

definition check :: "Order \<Rightarrow> timespec \<Rightarrow> RiskManager \<Rightarrow> (RejectReason \<times> RiskManager) option" where
  "check ord wall rm =
     (if rm_kill_switch rm \<or> rm_daily_loss_kill rm then Some (kKillSwitch, rm)
      else let now = risk_now wall rm
      in if \<not> is_within_market_hours now \<and> \<not> (rc_allow_preopen (rm_cfg rm) \<and> is_preopen now)
         then Some (kOutsideMarketHours, rm)
         else if o_qty ord \<le> 0 \<or> o_qty ord > rc_max_order_qty (rm_cfg rm) then Some (kOrderTooLarge, rm)
         else let lot = RiskManager_LotSize rm (o_token ord)
         in if o_segment ord = kSegmentFo \<and> lot > 0 \<and> o_qty ord smod lot \<noteq> 0 then Some (kLotSizeMismatch, rm)
            else if (case RiskManager_PriceBand rm (o_token ord) of None \<Rightarrow> False
                     | Some (band_lo, band_hi) \<Rightarrow> o_price ord < band_lo \<or> o_price ord > band_hi)
            then Some (kPriceBandBreach, rm)
            else (case PriceSane rm ord of
                    None \<Rightarrow> None
                  | Some False \<Rightarrow> Some (kPriceSanity, rm)
                  | Some True \<Rightarrow>
                      (case PositionOk rm ord lot of
                         None \<Rightarrow> None
                       | Some False \<Rightarrow> Some (kPositionLimit, rm)
                       | Some True \<Rightarrow>
                           (case ConsumeRateToken now rm of
                              (False, rm') \<Rightarrow> Some (kRateLimitExceeded, rm')
                            | (True, rm') \<Rightarrow> Some (kApproved, rm')))))"

definition RecomputePnl :: "Token \<Rightarrow> Price \<Rightarrow> RiskManager \<Rightarrow> RiskManager" where
  "RecomputePnl token mark_paisa rm =
     (let pos_value_paisa = rm_position rm (unat token) * mark_paisa;
          pnl_paisa = rm_cashflow_paisa rm + pos_value_paisa;
          mark = pnl_paisa sdiv 100
      in rm\<lparr>rm_mark_pnl_inr := mark,
            rm_daily_loss_kill := (if mark < - rc_max_daily_loss_inr (rm_cfg rm) then True else rm_daily_loss_kill rm)\<rparr>)"

definition RiskManager_on_fill :: "FillReport \<Rightarrow> RiskManager \<Rightarrow> RiskManager" where
  "RiskManager_on_fill fill rm =
     (if unat (f_token fill) \<ge> kSymbolTableSize then rm
      else let signed_qty = (if f_side fill = kBuy then f_fill_qty fill else - f_fill_qty fill);
               t = unat (f_token fill)
           in RecomputePnl (f_token fill) (f_fill_price fill)
                (rm\<lparr>rm_position := (rm_position rm)(t := rm_position rm t + to_i32 signed_qty),
                    rm_cashflow_paisa := rm_cashflow_paisa rm + (- signed_qty * f_fill_price fill)\<rparr>))"

definition set_kill_switch :: "bool \<Rightarrow> RiskManager \<Rightarrow> RiskManager" where
  "set_kill_switch on rm = rm\<lparr>rm_kill_switch := on\<rparr>"

definition RiskManager_position :: "RiskManager \<Rightarrow> Token \<Rightarrow> Quantity" where
  "RiskManager_position rm token = (if unat token < kSymbolTableSize then rm_position rm (unat token) else 0)"

subsection \<open>The rate limiter\<close>

lemma consume_frame:
  "ConsumeRateToken now rm = (b, rm') \<Longrightarrow>
    rm' = rm\<lparr>rm_tokens := rm_tokens rm', rm_last_refill_ns := rm_last_refill_ns rm'\<rparr>"
  by (auto simp: ConsumeRateToken_def Let_def split: if_splits)

text \<open>The configured rate as a limiter can use it: positive and within the range of \<^verbatim>\<open>int\<close>.\<close>

definition rate_ok :: "RiskConfig \<Rightarrow> bool" where
  "rate_ok cfg \<longleftrightarrow> 0 < rc_max_orders_per_sec cfg \<and> rc_max_orders_per_sec cfg < 2 ^ 31"

abbreviation cap :: "RiskManager \<Rightarrow> int" where
  "cap rm \<equiv> rc_max_orders_per_sec (rm_cfg rm)"

definition bucket_ok :: "RiskManager \<Rightarrow> bool" where
  "bucket_ok rm \<longleftrightarrow> rate_ok (rm_cfg rm) \<and> 0 \<le> rm_tokens rm \<and> rm_tokens rm \<le> of_int (cap rm)"

lemma fl_cap: "rate_ok cfg \<Longrightarrow> fl (of_int (rc_max_orders_per_sec cfg)) = of_int (rc_max_orders_per_sec cfg)"
  by (rule fp.rnd_int) (simp add: rate_ok_def)

lemma bucket_init: "rate_ok cfg \<Longrightarrow> bucket_ok (RiskManager_init symbols cfg)"
  by (simp add: bucket_ok_def RiskManager_init_def fl_cap) (simp add: rate_ok_def)

text \<open>The bucket after the refill of a call at \<open>now\<close>.\<close>

definition refilled :: "Timestamp \<Rightarrow> RiskManager \<Rightarrow> rat \<times> Timestamp" where
  "refilled now rm =
     (let last_ns = (if rm_last_refill_ns rm = 0 then now else rm_last_refill_ns rm);
          rate = fl (fl (of_int (cap rm)) / fl (of_nat (unat kNsPerSecond)))
      in if now > last_ns
         then (min (of_int (cap rm)) (fl (rm_tokens rm + fl (fl (of_nat (unat (now - last_ns))) * rate))), now)
         else (rm_tokens rm, last_ns))"

lemma consume_refilled:
  assumes "rate_ok (rm_cfg rm)" "refilled now rm = (tokens, last_ns)"
  shows "ConsumeRateToken now rm =
    (1 \<le> tokens, rm\<lparr>rm_tokens := (if 1 \<le> tokens then fl (tokens - 1) else tokens), rm_last_refill_ns := last_ns\<rparr>)"
  using assms by (auto simp: ConsumeRateToken_def refilled_def Let_def fl_cap min_def split: if_splits)

lemma refilled_bucket:
  assumes "bucket_ok rm" "refilled now rm = (tokens, last_ns)"
  shows "0 \<le> tokens \<and> tokens \<le> of_int (cap rm)"
proof -
  have cap: "(0 :: rat) \<le> of_int (cap rm)" using assms(1) by (simp add: bucket_ok_def rate_ok_def)
  moreover have "0 \<le> fl (rm_tokens rm + fl (fl (of_nat (unat (now - t))) * fl (fl (of_int (cap rm)) / fl (of_nat (unat kNsPerSecond)))))" for t
    using assms(1) cap by (intro fp.rnd_nonneg add_nonneg_nonneg mult_nonneg_nonneg divide_nonneg_nonneg)
      (simp_all add: bucket_ok_def del: of_nat_unat)
  ultimately show ?thesis using assms by (auto simp: refilled_def bucket_ok_def Let_def split: if_splits)
qed

text \<open>The refill rate with the accumulated rounding of the four operations that apply it.\<close>

definition refill_rate :: "RiskManager \<Rightarrow> rat" where
  "refill_rate rm = of_int (cap rm) / 10 ^ 9 * (1 + 1 / 2 ^ 50)"

lemma fl_seconds: "fl (of_nat (unat kNsPerSecond)) = 10 ^ 9"
  using fp.rnd_int [of "10 ^ 9"] by (simp add: kNsPerSecond_def)

lemma increment_bound:
  assumes "rate_ok (rm_cfg rm)"
  shows "fl (fl (of_nat d) * fl (fl (of_int (cap rm)) / fl (of_nat (unat kNsPerSecond)))) * (1 + 1 / 2 ^ 53)
    \<le> of_nat d * refill_rate rm"
proof -
  define u :: rat where "u = 1 + 1 / 2 ^ 53"
  define r :: rat where "r = of_int (cap rm) / 10 ^ 9"
  have r: "0 \<le> r" using assms by (simp add: r_def rate_ok_def)
  have u: "0 \<le> u" by (simp add: u_def)
  have fl_le: "fl x \<le> x * u" if "0 \<le> x" for x unfolding u_def by (rule fp.rnd_error [OF that])
  have "fl (fl (of_nat d) * fl r) \<le> fl (of_nat d) * fl r * u" by (rule fl_le) (simp add: fp.rnd_nonneg r)
  also have "\<dots> \<le> (of_nat d * u) * (r * u) * u"
    by (intro mult_right_mono mult_mono fl_le) (use u r in \<open>simp_all add: fp.rnd_nonneg\<close>)
  finally have "fl (fl (of_nat d) * fl r) * u \<le> (of_nat d * u) * (r * u) * u * u" using u by (rule mult_right_mono)
  also have "\<dots> = (of_nat d * r) * u ^ 4" by (simp add: power4_eq_xxxx)
  also have "\<dots> \<le> (of_nat d * r) * (1 + 1 / 2 ^ 50)"
    using r by (intro mult_left_mono) (simp_all add: u_def power4_eq_xxxx)
  finally show ?thesis unfolding fl_cap [OF assms] fl_seconds refill_rate_def by (simp only: r_def u_def mult.assoc)
qed

lemma refilled_bound:
  assumes "bucket_ok rm" "refilled now rm = (tokens, last_ns)"
  shows "tokens \<le> rm_tokens rm + of_int (cap rm) / 2 ^ 53
      + refill_rate rm * (of_nat (unat last_ns) - of_nat (unat (rm_last_refill_ns rm)))"
    and "unat (rm_last_refill_ns rm) \<le> unat last_ns"
    and "last_ns = rm_last_refill_ns rm \<or> last_ns = now"
proof -
  have ok: "rate_ok (rm_cfg rm)" "0 \<le> rm_tokens rm" "rm_tokens rm \<le> of_int (cap rm)" using assms(1) by (simp_all add: bucket_ok_def)
  then have cap: "(0 :: rat) \<le> of_int (cap rm)" by linarith
  have rate: "0 \<le> refill_rate rm" using cap by (simp add: refill_rate_def)
  show "unat (rm_last_refill_ns rm) \<le> unat last_ns" "last_ns = rm_last_refill_ns rm \<or> last_ns = now"
    using assms(2) by (auto simp: refilled_def Let_def word_less_nat_alt split: if_splits)
  show "tokens \<le> rm_tokens rm + of_int (cap rm) / 2 ^ 53
      + refill_rate rm * (of_nat (unat last_ns) - of_nat (unat (rm_last_refill_ns rm)))"
  proof (cases "rm_last_refill_ns rm = 0 \<or> \<not> rm_last_refill_ns rm < now")
    case True
    then have "tokens = rm_tokens rm" "unat (rm_last_refill_ns rm) \<le> unat last_ns"
      using assms(2) by (auto simp: refilled_def Let_def split: if_splits)
    moreover from this(2) have "0 \<le> refill_rate rm * (of_nat (unat last_ns) - of_nat (unat (rm_last_refill_ns rm)))"
      by (intro mult_nonneg_nonneg rate) (simp del: of_nat_unat)
    moreover have "0 \<le> (of_int (cap rm) :: rat) / 2 ^ 53" using cap by simp
    ultimately show ?thesis by linarith
  next
    case False
    define d where "d = unat now - unat (rm_last_refill_ns rm)"
    have d: "unat (now - rm_last_refill_ns rm) = d" "(of_nat d :: rat) = of_nat (unat now) - of_nat (unat (rm_last_refill_ns rm))"
      using False by (simp_all add: d_def word_less_nat_alt unat_sub word_le_nat_alt of_nat_diff)
    define inc where "inc = fl (fl (of_nat d) * fl (fl (of_int (cap rm)) / fl (of_nat (unat kNsPerSecond))))"
    have inc: "0 \<le> inc" "inc * (1 + 1 / 2 ^ 53) \<le> of_nat d * refill_rate rm"
      using increment_bound [OF ok(1), of d] cap unfolding inc_def
      by (simp_all only: fp.rnd_nonneg mult_nonneg_nonneg divide_nonneg_nonneg of_nat_0_le_iff)
    have "tokens \<le> fl (rm_tokens rm + inc)" "last_ns = now"
      using assms(2) False d(1) by (auto simp: refilled_def Let_def inc_def)
    moreover have "fl (rm_tokens rm + inc) \<le> (rm_tokens rm + inc) * (1 + 1 / 2 ^ 53)"
      using ok(2) inc(1) by (intro fp.rnd_error) simp
    moreover have "rm_tokens rm / 2 ^ 53 \<le> of_int (cap rm) / 2 ^ 53" using ok(3) by (rule divide_right_mono) simp
    ultimately show ?thesis using inc(2) d(2) by (simp add: algebra_simps)
  qed
qed

subsection \<open>Approvals over a window of time\<close>

lemma consume_step:
  assumes "bucket_ok rm" "ConsumeRateToken now rm = (b, rm')"
  shows "bucket_ok rm'" and "rm_cfg rm' = rm_cfg rm"
    and "unat (rm_last_refill_ns rm) \<le> unat (rm_last_refill_ns rm')"
    and "rm_last_refill_ns rm' = rm_last_refill_ns rm \<or> rm_last_refill_ns rm' = now"
    and "rm_tokens rm' + of_bool b \<le> of_int (cap rm) + of_int (cap rm) / 2 ^ 53"
    and "rm_tokens rm' + of_bool b \<le> rm_tokens rm + of_int (cap rm) / 2 ^ 52
      + refill_rate rm * (of_nat (unat (rm_last_refill_ns rm')) - of_nat (unat (rm_last_refill_ns rm)))"
proof -
  obtain tokens last_ns where r: "refilled now rm = (tokens, last_ns)" by (cases "refilled now rm")
  have ok: "rate_ok (rm_cfg rm)" using assms(1) by (simp add: bucket_ok_def)
  note c = consume_refilled [OF ok r]
  note t = refilled_bucket [OF assms(1) r]
  note f = refilled_bound [OF assms(1) r]
  have rm': "rm' = rm\<lparr>rm_tokens := (if 1 \<le> tokens then fl (tokens - 1) else tokens), rm_last_refill_ns := last_ns\<rparr>"
      "b = (1 \<le> tokens)" using assms(2) c by auto
  have cap: "(0 :: rat) \<le> of_int (cap rm)" using t by linarith
  have err: "rm_tokens rm' + of_bool b \<le> tokens + of_int (cap rm) / 2 ^ 53"
  proof (cases "1 \<le> tokens")
    case True
    then have "fl (tokens - 1) \<le> (tokens - 1) * (1 + 1 / 2 ^ 53)" by (intro fp.rnd_error) simp
    also have "\<dots> = tokens - 1 + (tokens - 1) / 2 ^ 53" by (simp only: distrib_left mult_1_right times_divide_eq_right)
    also have "(tokens - 1) / 2 ^ 53 \<le> of_int (cap rm) / 2 ^ 53" using t by (intro divide_right_mono) simp_all
    finally show ?thesis using True rm' by simp
  next
    case False
    then show ?thesis using rm' cap by simp
  qed
  have down: "fl (tokens - 1) \<le> of_int (cap rm)"
    using t ok by (intro fp.rnd_le_int) (auto simp: rate_ok_def)
  show "bucket_ok rm'" using t down ok rm' by (auto simp: bucket_ok_def fp.rnd_nonneg)
  show "rm_cfg rm' = rm_cfg rm" using rm' by simp
  show "unat (rm_last_refill_ns rm) \<le> unat (rm_last_refill_ns rm')"
    "rm_last_refill_ns rm' = rm_last_refill_ns rm \<or> rm_last_refill_ns rm' = now" using f(2,3) rm' by simp_all
  show "rm_tokens rm' + of_bool b \<le> of_int (cap rm) + of_int (cap rm) / 2 ^ 53" using err t by linarith
  have "rm_last_refill_ns rm' = last_ns" using rm' by simp
  moreover have "(of_int (cap rm) :: rat) / 2 ^ 52 = of_int (cap rm) / 2 ^ 53 + of_int (cap rm) / 2 ^ 53" by simp
  ultimately show "rm_tokens rm' + of_bool b \<le> rm_tokens rm + of_int (cap rm) / 2 ^ 52
      + refill_rate rm * (of_nat (unat (rm_last_refill_ns rm')) - of_nat (unat (rm_last_refill_ns rm)))"
    using err f(1) by (simp only:)
qed

text \<open>Only the last guard of \<open>check\<close> touches the state, and only the bucket.\<close>

lemma check_bucket:
  assumes "check ord wall rm = Some (r, rm')"
  shows "(r \<notin> {kApproved, kRateLimitExceeded} \<and> rm' = rm)
    \<or> ConsumeRateToken (risk_now wall rm) rm = (r = kApproved, rm') \<and> r \<in> {kApproved, kRateLimitExceeded}"
  using assms by (auto simp: check_def Let_def split: if_splits option.splits bool.splits prod.splits)

text \<open>Orders checked one after the other, each at its own simulated time, and how many pass.\<close>

fun approved :: "(Timestamp \<times> Order) list \<Rightarrow> RiskManager \<Rightarrow> nat" where
  "approved [] rm = 0"
| "approved ((now, ord) # xs) rm =
     (case check ord (0, 0) (RiskManager_set_now now rm) of
        None \<Rightarrow> approved xs rm
      | Some (r, rm') \<Rightarrow> of_bool (r = kApproved) + approved xs rm')"

text \<open>What a bucket can still give out by the time \<open>t1\<close>, for calls not before \<open>t0\<close>, rounding of the
  calls aside: a bucket last refilled before \<open>t0\<close> counts as full.\<close>

definition budget :: "nat \<Rightarrow> nat \<Rightarrow> RiskManager \<Rightarrow> rat" where
  "budget t0 t1 rm =
     (if unat (rm_last_refill_ns rm) < t0 then of_int (cap rm) + refill_rate rm * (of_nat t1 - of_nat t0)
      else rm_tokens rm + refill_rate rm * (of_nat t1 - of_nat (unat (rm_last_refill_ns rm))))"

lemma budget_nonneg:
  assumes "bucket_ok rm" "unat (rm_last_refill_ns rm) \<le> t1" "t0 \<le> t1"
  shows "0 \<le> budget t0 t1 rm"
proof -
  have "0 \<le> refill_rate rm" using assms(1) by (simp add: refill_rate_def bucket_ok_def rate_ok_def)
  then have "0 \<le> refill_rate rm * (of_nat t1 - of_nat n)" if "n \<le> t1" for n using that by simp
  from this [OF assms(2)] this [OF assms(3)] show ?thesis using assms(1)
    by (simp add: budget_def bucket_ok_def rate_ok_def del: of_nat_unat)
qed

lemma budget_step:
  assumes "bucket_ok rm" "ConsumeRateToken now rm = (b, rm')" "t0 \<le> unat now" "unat now \<le> t1"
  shows "budget t0 t1 rm' + of_bool b \<le> budget t0 t1 rm + of_int (cap rm) / 2 ^ 52"
proof -
  note s = consume_step [OF assms(1,2)]
  have rate: "refill_rate rm' = refill_rate rm" "cap rm' = cap rm" using s(2) by (simp_all add: refill_rate_def)
  have pos: "0 \<le> refill_rate rm" "(0 :: rat) \<le> of_int (cap rm)"
    using assms(1) by (simp_all add: refill_rate_def bucket_ok_def rate_ok_def)
  have half: "(of_int (cap rm) :: rat) / 2 ^ 53 \<le> of_int (cap rm) / 2 ^ 52" using pos(2) by simp
  define l l' where "l = unat (rm_last_refill_ns rm)" and "l' = unat (rm_last_refill_ns rm')"
  show ?thesis
  proof (cases "l < t0")
    case True
    then have "rm_last_refill_ns rm < now" using assms(3) by (simp add: l_def word_less_nat_alt)
    then have l': "l' = unat now"
      using assms(2) by (auto simp: ConsumeRateToken_def Let_def l'_def split: if_splits)
    have "refill_rate rm * (of_nat t1 - of_nat l') \<le> refill_rate rm * (of_nat t1 - of_nat t0)"
      using assms(3) pos(1) by (intro mult_left_mono) (simp_all add: l' del: of_nat_unat)
    then show ?thesis using True s(5) half l' assms(3) unfolding budget_def rate l_def [symmetric] l'_def [symmetric]
      by simp
  next
    case False
    then have "\<not> l' < t0" using s(3) by (simp add: l_def l'_def)
    then show ?thesis using False s(6) unfolding budget_def rate l_def [symmetric] l'_def [symmetric]
      by (simp add: algebra_simps)
  qed
qed

lemma approved_budget:
  "bucket_ok rm \<Longrightarrow> unat (rm_last_refill_ns rm) \<le> t1 \<Longrightarrow> t0 \<le> t1 \<Longrightarrow>
    \<forall>(now, ord) \<in> set xs. now \<noteq> 0 \<and> t0 \<le> unat now \<and> unat now \<le> t1 \<Longrightarrow>
    of_nat (approved xs rm) \<le> budget t0 t1 rm + of_nat (length xs) * (of_int (cap rm) / 2 ^ 52)"
proof (induction xs arbitrary: rm)
  case Nil
  then show ?case using budget_nonneg by simp
next
  case (Cons x xs)
  obtain now ord where x: "x = (now, ord)" by (cases x)
  define rm0 where "rm0 = RiskManager_set_now now rm"
  have now: "now \<noteq> 0" "t0 \<le> unat now" "unat now \<le> t1" using Cons.prems(4) x by auto
  have same: "bucket_ok rm0" "budget t0 t1 rm0 = budget t0 t1 rm" "rm_last_refill_ns rm0 = rm_last_refill_ns rm"
      "cap rm0 = cap rm" "risk_now (0, 0) rm0 = now"
    using Cons.prems(1) now by (simp_all add: rm0_def RiskManager_set_now_def bucket_ok_def budget_def refill_rate_def risk_now_def)
  define c :: rat where "c = of_int (cap rm) / 2 ^ 52"
  have unit: "0 \<le> c" using Cons.prems(1) by (simp add: c_def bucket_ok_def rate_ok_def)
  have len: "of_nat (length (x # xs)) * c = c + of_nat (length xs) * c" by (simp add: distrib_right)
  have IH: "of_nat (approved xs rm') \<le> budget t0 t1 rm' + of_nat (length xs) * (of_int (cap rm') / 2 ^ 52)"
    if "bucket_ok rm'" "unat (rm_last_refill_ns rm') \<le> t1" for rm'
    using Cons.IH [OF that Cons.prems(3)] Cons.prems(4) by simp
  show ?case
  proof (cases "check ord (0, 0) rm0")
    case None
    then show ?thesis using IH [OF Cons.prems(1,2)] unit len unfolding c_def [symmetric] by (simp add: x rm0_def)
  next
    case (Some a)
    obtain r rm' where a: "a = (r, rm')" by (cases a)
    have "budget t0 t1 rm' + of_bool (r = kApproved) \<le> budget t0 t1 rm + c \<and> bucket_ok rm' \<and> unat (rm_last_refill_ns rm') \<le> t1 \<and> cap rm' = cap rm"
      using check_bucket [OF Some [unfolded a]]
    proof
      assume "r \<notin> {kApproved, kRateLimitExceeded} \<and> rm' = rm0"
      then show ?thesis using same unit Cons.prems(2) by auto
    next
      assume "ConsumeRateToken (risk_now (0, 0) rm0) rm0 = (r = kApproved, rm') \<and> r \<in> {kApproved, kRateLimitExceeded}"
      then have c: "ConsumeRateToken now rm0 = (r = kApproved, rm')" using same(5) by simp
      show ?thesis using budget_step [OF same(1) c now(2,3)] consume_step(1-4) [OF same(1) c] same now Cons.prems(2)
        by (auto simp: c_def)
    qed
    moreover from this have "of_nat (approved xs rm') \<le> budget t0 t1 rm' + of_nat (length xs) * c"
      using IH [of rm'] by (simp add: c_def)
    ultimately show ?thesis using Some len unfolding c_def [symmetric] by (simp add: x a rm0_def)
  qed
qed

subsection \<open>The gate\<close>

lemma smod_zero_dvd: "0 < (b :: int) \<Longrightarrow> a smod b = 0 \<longleftrightarrow> b dvd a"
  using dvd_eq_mod_eq_0 [of b "\<bar>a\<bar>"] by (auto simp: signed_modulo_int_def sgn_0_0)

lemma zdiv_le_iff: "0 < (l :: int) \<Longrightarrow> x div l \<le> m \<longleftrightarrow> x < (m + 1) * l"
proof -
  assume l: "0 < l"
  have x: "x = x div l * l + x mod l" "0 \<le> x mod l" "x mod l < l" using l by simp_all
  show ?thesis
  proof
    assume "x div l \<le> m"
    then have "x div l * l \<le> m * l" using l by (intro mult_right_mono) simp_all
    moreover have "(m + 1) * l = m * l + l" by (simp add: distrib_right)
    ultimately show "x < (m + 1) * l" using x by linarith
  next
    assume lt: "x < (m + 1) * l"
    show "x div l \<le> m"
    proof (rule ccontr)
      assume "\<not> x div l \<le> m"
      then have "(m + 1) * l \<le> x div l * l" using l by (intro mult_right_mono) simp_all
      then show False using lt x by linarith
    qed
  qed
qed

lemma abs_sdiv_le: "0 < (l :: int) \<Longrightarrow> \<bar>p sdiv l\<bar> \<le> m \<longleftrightarrow> \<bar>p\<bar> < (m + 1) * l"
  by (simp add: abs_sdiv zdiv_le_iff)

lemma sdiv_le:
  assumes "0 < (l :: int)" "0 \<le> m"
  shows "p sdiv l \<le> m \<longleftrightarrow> p < (m + 1) * l"
proof (cases "0 \<le> p")
  case True
  then show ?thesis using assms by (simp add: sdiv_nonneg zdiv_le_iff)
next
  case False
  then have "0 \<le> (- p) div l" using assms by (simp add: pos_imp_zdiv_nonneg_iff)
  then have "p sdiv l \<le> m" using False assms by (simp add: sdiv_neg)
  moreover have "0 < (m + 1) * l" using assms by (intro mult_pos_pos) simp_all
  ultimately show ?thesis using False by simp
qed

text \<open>The limits an order has to respect, in the terms of the configuration.\<close>

definition within_limits :: "RiskManager \<Rightarrow> Timestamp \<Rightarrow> Order \<Rightarrow> bool" where
  "within_limits rm now ord \<longleftrightarrow>
     (let cfg = rm_cfg rm; tok = o_token ord; lot = RiskManager_LotSize rm tok;
          ref = (if o_side ord then rm_ref_ask rm else rm_ref_bid rm) (unat tok);
          after = rm_position rm (unat tok) + (if o_side ord then o_qty ord else - o_qty ord)
      in \<not> kill_switch_active rm
         \<and> (is_within_market_hours now \<or> rc_allow_preopen cfg \<and> is_preopen now)
         \<and> 1 \<le> o_qty ord \<and> o_qty ord \<le> rc_max_order_qty cfg
         \<and> (o_segment ord = kSegmentFo \<and> 0 < lot \<longrightarrow> lot dvd o_qty ord)
         \<and> (\<forall>lo hi. RiskManager_PriceBand rm tok = Some (lo, hi) \<longrightarrow> lo \<le> o_price ord \<and> o_price ord \<le> hi)
         \<and> (0 < ref \<longrightarrow> \<bar>o_price ord - ref\<bar> * 100 \<le> ref * rc_price_sanity_pct cfg)
         \<and> \<bar>after\<bar> < (rc_max_token_position_lots cfg + 1) * max 1 lot
         \<and> (o_segment ord = kSegmentCm \<longrightarrow> o_qty ord * o_price ord < (rc_max_cm_notional_inr cfg + 1) * 100))"

lemma PriceSane_limit:
  assumes "unat (o_token ord) < kSymbolTableSize" "ref = (if o_side ord then rm_ref_ask rm else rm_ref_bid rm) (unat (o_token ord))"
  shows "PriceSane rm ord = Some (0 < ref \<longrightarrow> \<bar>o_price ord - ref\<bar> * 100 \<le> ref * rc_price_sanity_pct (rm_cfg rm))"
  using assms by (auto simp: PriceSane_def at_token_def Let_def abs_if)

lemma PositionOk_limit:
  assumes "unat (o_token ord) < kSymbolTableSize" "0 \<le> rc_max_cm_notional_inr (rm_cfg rm)"
    and "after = rm_position rm (unat (o_token ord)) + (if o_side ord then o_qty ord else - o_qty ord)"
  shows "PositionOk rm ord lot = Some (\<bar>after\<bar> < (rc_max_token_position_lots (rm_cfg rm) + 1) * max 1 lot
     \<and> (o_segment ord = kSegmentCm \<longrightarrow> o_qty ord * o_price ord < (rc_max_cm_notional_inr (rm_cfg rm) + 1) * 100))"
proof -
  define l where "l = (if lot > 0 then lot else 1)"
  have l: "0 < l" "max 1 lot = l" by (auto simp: l_def)
  have m: "(let lots = after sdiv l in if lots < 0 then - lots else lots) = \<bar>after sdiv l\<bar>" by (simp add: Let_def)
  have "PositionOk rm ord lot =
      Some (\<not> \<bar>after sdiv l\<bar> > rc_max_token_position_lots (rm_cfg rm)
        \<and> \<not> (o_segment ord = kSegmentCm \<and> (o_qty ord * o_price ord) sdiv 100 > rc_max_cm_notional_inr (rm_cfg rm)))"
    unfolding PositionOk_def at_token_def using assms(1)
    by (simp add: assms(3) [symmetric] l_def [symmetric] m [unfolded Let_def] Let_def)
  then show ?thesis unfolding not_less abs_sdiv_le [OF l(1)] l(2)
    using sdiv_le [OF _ assms(2), of 100 "o_qty ord * o_price ord"] by (simp add: not_less)
qed

lemma check_gate:
  assumes "unat (o_token ord) < kSymbolTableSize" "0 \<le> rc_max_cm_notional_inr (rm_cfg rm)"
    and "now = risk_now wall rm"
  shows "\<exists>r rm'. check ord wall rm = Some (r, rm')
     \<and> (r = kApproved \<longleftrightarrow> within_limits rm now ord \<and> fst (ConsumeRateToken now rm))
     \<and> rm' = rm\<lparr>rm_tokens := rm_tokens rm', rm_last_refill_ns := rm_last_refill_ns rm'\<rparr>"
proof -
  define lot where "lot = RiskManager_LotSize rm (o_token ord)"
  define ref where "ref = (if o_side ord then rm_ref_ask rm else rm_ref_bid rm) (unat (o_token ord))"
  define after where "after = rm_position rm (unat (o_token ord)) + (if o_side ord then o_qty ord else - o_qty ord)"
  define sane where "sane \<longleftrightarrow> (0 < ref \<longrightarrow> \<bar>o_price ord - ref\<bar> * 100 \<le> ref * rc_price_sanity_pct (rm_cfg rm))"
  define pos where "pos \<longleftrightarrow> \<bar>after\<bar> < (rc_max_token_position_lots (rm_cfg rm) + 1) * max 1 lot
     \<and> (o_segment ord = kSegmentCm \<longrightarrow> o_qty ord * o_price ord < (rc_max_cm_notional_inr (rm_cfg rm) + 1) * 100)"
  define lots where "lots \<longleftrightarrow> (o_segment ord = kSegmentFo \<and> 0 < lot \<longrightarrow> lot dvd o_qty ord)"
  define band where "band \<longleftrightarrow>
    (\<forall>lo hi. RiskManager_PriceBand rm (o_token ord) = Some (lo, hi) \<longrightarrow> lo \<le> o_price ord \<and> o_price ord \<le> hi)"
  have ps: "PriceSane rm ord = Some sane" unfolding sane_def by (rule PriceSane_limit [OF assms(1) ref_def])
  have po: "PositionOk rm ord lot = Some pos" unfolding pos_def by (rule PositionOk_limit [OF assms(1,2) after_def])
  have lo: "(o_segment ord = kSegmentFo \<and> lot > 0 \<and> o_qty ord smod lot \<noteq> 0) = (\<not> lots)"
    using smod_zero_dvd [of lot "o_qty ord"] by (auto simp: lots_def)
  have ba: "(case RiskManager_PriceBand rm (o_token ord) of None \<Rightarrow> False
      | Some (band_lo, band_hi) \<Rightarrow> o_price ord < band_lo \<or> o_price ord > band_hi) = (\<not> band)"
    by (auto simp: band_def split: option.splits)
  have wl: "within_limits rm now ord \<longleftrightarrow> \<not> (rm_kill_switch rm \<or> rm_daily_loss_kill rm)
      \<and> \<not> (\<not> is_within_market_hours now \<and> \<not> (rc_allow_preopen (rm_cfg rm) \<and> is_preopen now))
      \<and> \<not> (o_qty ord \<le> 0 \<or> o_qty ord > rc_max_order_qty (rm_cfg rm)) \<and> lots \<and> band \<and> sane \<and> pos"
    unfolding within_limits_def Let_def lots_def band_def sane_def pos_def ref_def after_def lot_def kill_switch_active_def
    by auto
  obtain b rm' where c: "ConsumeRateToken now rm = (b, rm')" by (cases "ConsumeRateToken now rm")
  show ?thesis
    unfolding check_def Let_def assms(3) [symmetric] lot_def [symmetric] lo ba ps po wl c
    using consume_frame [OF c] by (cases b) (auto split: bool.splits)
qed

text \<open>C18 The risk gate decides exactly by its limits: for every order on a listed token, \<open>check\<close>
  returns, and it approves the order if and only if no kill switch is active, the market is open
  (or the pre-open is allowed), the quantity is positive, within the maximum and in whole lots for
  derivatives, the price is inside the circuit band and close enough to the touch, the position
  after the order stays below one lot more than the limit, the cash notional is within its cap, and
  the rate limiter grants a token. A refusal changes nothing but the rate limiter.\<close>

theorem risk_gate_exact:
  assumes "unat (o_token ord) < kSymbolTableSize" "0 \<le> rc_max_cm_notional_inr (rm_cfg rm)"
    and "now = risk_now wall rm"
  shows "\<exists>r rm'. check ord wall rm = Some (r, rm')
     \<and> (r = kApproved \<longleftrightarrow> within_limits rm now ord \<and> fst (ConsumeRateToken now rm))
     \<and> rm' = rm\<lparr>rm_tokens := rm_tokens rm', rm_last_refill_ns := rm_last_refill_ns rm'\<rparr>"
  using check_gate [OF assms] .

definition example_risk :: RiskManager where
  "example_risk = RiskManager_set_now 40000000000000 (RiskManager_init None RiskConfig_default)"

lemma example_hours: "is_within_market_hours 40000000000000"
  by (simp add: is_within_market_hours_def session_offsets ist_midnight_ns_def kNsPerDay_def kNsPerSecond_def)

lemma example_cap: "cap example_risk = 1000"
  by (simp add: example_risk_def RiskManager_set_now_def RiskManager_init_def RiskConfig_default_def)

lemma example_bucket: "bucket_ok example_risk" "rm_last_refill_ns example_risk = 0"
  using bucket_init [of RiskConfig_default None]
  by (simp_all add: example_risk_def RiskManager_set_now_def bucket_ok_def rate_ok_def RiskConfig_default_def RiskManager_init_def)

theorem risk_gate_exact_witness:
  "\<exists>rm'. check example_order (0, 0) example_risk = Some (kApproved, rm')"
proof -
  have "fl 1000 = 1000" using fp.rnd_int [of 1000] by simp
  then have "fst (ConsumeRateToken 40000000000000 example_risk)"
    by (simp add: ConsumeRateToken_def example_risk_def RiskManager_set_now_def RiskManager_init_def RiskConfig_default_def)
  moreover have "within_limits example_risk 40000000000000 example_order"
    using example_hours
    by (simp add: within_limits_def example_risk_def RiskManager_set_now_def RiskManager_init_def RiskConfig_default_def
        kill_switch_active_def example_order_def RiskManager_LotSize_def RiskManager_PriceBand_def kSegmentFo_def kSegmentCm_def)
  moreover have "risk_now (0, 0) example_risk = 40000000000000"
    by (simp add: risk_now_def example_risk_def RiskManager_set_now_def)
  moreover have "unat (o_token example_order) < kSymbolTableSize" "0 \<le> rc_max_cm_notional_inr (rm_cfg example_risk)"
    by (simp_all add: example_order_def kSymbolTableSize_def example_risk_def RiskManager_set_now_def RiskManager_init_def
        RiskConfig_default_def)
  ultimately show ?thesis using risk_gate_exact [of example_order example_risk 40000000000000 "(0, 0)"] by auto
qed

text \<open>C19 The order rate is bounded over every window: whatever the bucket held, of any orders checked
  at times between \<open>t0\<close> and \<open>t1\<close> at most the configured rate per second times (one second plus the
  length of the window) pass, up to the relative rounding error of the refills (one part in
  \<open>2 ^ 50\<close>) and of the calls (one part in \<open>2 ^ 52\<close> of the rate each).\<close>

theorem order_rate_bounded:
  assumes "bucket_ok rm" "unat (rm_last_refill_ns rm) \<le> t1" "t0 \<le> t1"
    and "\<forall>(now, ord) \<in> set xs. now \<noteq> 0 \<and> t0 \<le> unat now \<and> unat now \<le> t1"
  shows "(of_nat (approved xs rm) :: rat) \<le> of_int (cap rm) *
    (1 + (of_nat t1 - of_nat t0) / 10 ^ 9 * (1 + 1 / 2 ^ 50) + of_nat (length xs) / 2 ^ 52)"
proof -
  have "budget t0 t1 rm \<le> of_int (cap rm) + refill_rate rm * (of_nat t1 - of_nat t0)"
  proof (cases "unat (rm_last_refill_ns rm) < t0")
    case False
    then have "refill_rate rm * (of_nat t1 - of_nat (unat (rm_last_refill_ns rm))) \<le> refill_rate rm * (of_nat t1 - of_nat t0)"
      using assms(1) by (intro mult_left_mono) (simp_all add: refill_rate_def bucket_ok_def rate_ok_def del: of_nat_unat)
    then show ?thesis using False assms(1) by (simp add: budget_def bucket_ok_def del: of_nat_unat)
  qed (simp add: budget_def)
  then have "(of_nat (approved xs rm) :: rat) \<le> of_int (cap rm) + refill_rate rm * (of_nat t1 - of_nat t0)
      + of_nat (length xs) * (of_int (cap rm) / 2 ^ 52)"
    using approved_budget [OF assms] by linarith
  also have "\<dots> = of_int (cap rm) * (1 + (of_nat t1 - of_nat t0) / 10 ^ 9 * (1 + 1 / 2 ^ 50) + of_nat (length xs) / 2 ^ 52)"
    unfolding refill_rate_def by (simp only: distrib_left times_divide_eq_left times_divide_eq_right mult_1_right mult.commute mult.left_commute)
  finally show ?thesis .
qed

theorem order_rate_bounded_witness:
  "of_nat (approved (replicate 3000 (40000000000000, example_order)) example_risk) \<le> (1001 :: rat)"
  using order_rate_bounded [OF example_bucket(1), of 40000000000000 40000000000000 "replicate 3000 (40000000000000, example_order)"]
  by (simp add: example_bucket(2) example_cap)

subsection \<open>The kill switch\<close>

datatype risk_op =
    RiskCheck Order timespec
  | RiskFill FillReport
  | RiskKill bool
  | RiskReference Token Price Price
  | RiskNow Timestamp

fun risk_exec :: "risk_op \<Rightarrow> RiskManager \<Rightarrow> RiskManager" where
  "risk_exec (RiskCheck ord wall) rm = (case check ord wall rm of None \<Rightarrow> rm | Some (_, rm') \<Rightarrow> rm')"
| "risk_exec (RiskFill fill) rm = RiskManager_on_fill fill rm"
| "risk_exec (RiskKill on) rm = set_kill_switch on rm"
| "risk_exec (RiskReference token bid ask) rm = update_reference token bid ask rm"
| "risk_exec (RiskNow t) rm = RiskManager_set_now t rm"

lemma check_frame: "check ord wall rm = Some (r, rm') \<Longrightarrow>
    rm' = rm\<lparr>rm_tokens := rm_tokens rm', rm_last_refill_ns := rm_last_refill_ns rm'\<rparr>"
  using check_bucket [of ord wall rm r rm'] consume_frame [of "risk_now wall rm" rm "r = kApproved" rm'] by auto

lemma check_keeps: "check ord wall rm = Some (r, rm') \<Longrightarrow>
    rm_daily_loss_kill rm' = rm_daily_loss_kill rm \<and> rm_cfg rm' = rm_cfg rm \<and> rm_position rm' = rm_position rm
      \<and> rm_cashflow_paisa rm' = rm_cashflow_paisa rm"
  using check_frame [of ord wall rm r rm'] by (metis RiskManager.select_convs(2,3,9,10) RiskManager.surjective RiskManager.update_convs(6,7))

interpretation loss_kill: op_machine risk_exec rm_daily_loss_kill
proof (unfold_locales, goal_cases)
  case (1 rm op)
  then show ?case
    by (cases op) (auto simp: RiskManager_on_fill_def RecomputePnl_def set_kill_switch_def update_reference_def
        RiskManager_set_now_def Let_def dest: check_keeps split: option.splits)
qed

text \<open>C20 The daily-loss kill latches: once a fill has marked the book below the configured loss, every
  order is refused with the kill-switch reason after any further history, including attempts to
  switch the manual kill off and fills that bring the mark back.\<close>

theorem daily_loss_latches:
  assumes "unat (f_token fill) < kSymbolTableSize"
    and "rm_mark_pnl_inr (RiskManager_on_fill fill rm) < - rc_max_daily_loss_inr (rm_cfg rm)"
    and "rm' = fold risk_exec ops (RiskManager_on_fill fill rm)"
  shows "check ord wall rm' = Some (kKillSwitch, rm') \<and> kill_switch_active rm'"
proof -
  have "rm_daily_loss_kill (RiskManager_on_fill fill rm)"
    using assms(1,2) by (auto simp: RiskManager_on_fill_def RecomputePnl_def Let_def)
  then have "rm_daily_loss_kill rm'" unfolding assms(3) by (rule loss_kill.run_inv)
  then show ?thesis by (simp add: check_def kill_switch_active_def)
qed

definition losing_fill :: FillReport where
  "losing_fill = \<lparr>f_exchange_order_no = 900, f_client_order_id = 1, f_token = 7, f_fill_price = 0, f_fill_qty = 1000,
     f_remaining_qty = 0, f_fill_time = 0, f_trade_no = 1, f_side = kSell\<rparr>"

theorem daily_loss_latches_witness:
  "let rm = example_risk\<lparr>rm_position := (\<lambda>_. 1000), rm_cashflow_paisa := - 20000000\<rparr>;
       rm' = fold risk_exec [RiskKill False] (RiskManager_on_fill losing_fill rm)
   in check example_order (0, 0) rm' = Some (kKillSwitch, rm')"
  using daily_loss_latches [of losing_fill "example_risk\<lparr>rm_position := (\<lambda>_. 1000), rm_cashflow_paisa := - 20000000\<rparr>"
      _ "[RiskKill False]" example_order "(0, 0)"]
  by (simp add: losing_fill_def kSymbolTableSize_def RiskManager_on_fill_def RecomputePnl_def example_risk_def
      RiskManager_set_now_def RiskManager_init_def RiskConfig_default_def Let_def to_i32_id in_i32_def)

subsection \<open>Positions and the mark\<close>

definition signed_fill :: "FillReport \<Rightarrow> int" where
  "signed_fill fill = (if f_side fill then f_fill_qty fill else - f_fill_qty fill)"

definition fill_ok :: "FillReport \<Rightarrow> bool" where
  "fill_ok fill \<longleftrightarrow> unat (f_token fill) < kSymbolTableSize \<and> 0 \<le> f_fill_qty fill \<and> f_fill_qty fill < 2 ^ 31"

lemma on_fill_fields:
  assumes "fill_ok fill"
  shows "rm_position (RiskManager_on_fill fill rm) =
      (rm_position rm)(unat (f_token fill) := rm_position rm (unat (f_token fill)) + signed_fill fill)"
    and "rm_cashflow_paisa (RiskManager_on_fill fill rm) = rm_cashflow_paisa rm - signed_fill fill * f_fill_price fill"
    and "rm_mark_pnl_inr (RiskManager_on_fill fill rm) = (rm_cashflow_paisa rm - signed_fill fill * f_fill_price fill
        + (rm_position rm (unat (f_token fill)) + signed_fill fill) * f_fill_price fill) sdiv 100"
proof -
  have "to_i32 (signed_fill fill) = signed_fill fill"
    using assms by (intro to_i32_id) (auto simp: fill_ok_def in_i32_def signed_fill_def)
  then show "rm_position (RiskManager_on_fill fill rm) =
      (rm_position rm)(unat (f_token fill) := rm_position rm (unat (f_token fill)) + signed_fill fill)"
    "rm_cashflow_paisa (RiskManager_on_fill fill rm) = rm_cashflow_paisa rm - signed_fill fill * f_fill_price fill"
    "rm_mark_pnl_inr (RiskManager_on_fill fill rm) = (rm_cashflow_paisa rm - signed_fill fill * f_fill_price fill
        + (rm_position rm (unat (f_token fill)) + signed_fill fill) * f_fill_price fill) sdiv 100"
    using assms unfolding fill_ok_def RiskManager_on_fill_def RecomputePnl_def Let_def
    by (simp_all add: signed_fill_def [symmetric] algebra_simps)
qed

definition net_position :: "Token \<Rightarrow> FillReport list \<Rightarrow> int" where
  "net_position tok fills = sum_list (map signed_fill (filter (\<lambda>fill. f_token fill = tok) fills))"

definition net_cash :: "FillReport list \<Rightarrow> int" where
  "net_cash fills = - sum_list (map (\<lambda>fill. signed_fill fill * f_fill_price fill) fills)"

lemma fills_positions:
  "\<forall>fill \<in> set fills. fill_ok fill \<Longrightarrow>
    rm_position (fold RiskManager_on_fill fills rm) (unat tok) = rm_position rm (unat tok) + net_position tok fills \<and>
    rm_cashflow_paisa (fold RiskManager_on_fill fills rm) = rm_cashflow_paisa rm + net_cash fills"
proof (induction fills arbitrary: rm)
  case (Cons fill fills)
  have eq: "unat tok = unat (f_token fill) \<longleftrightarrow> f_token fill = tok" by (auto simp: word_unat_eq_iff)
  show ?case using Cons on_fill_fields [of fill rm] eq by (simp add: net_position_def net_cash_def)
qed (simp add: net_position_def net_cash_def)

text \<open>Fill bookkeeping: after any fills from a fresh start, the position of a token is the sum of
  its own signed fills, and the marked profit after one more fill is the cash spent and received
  over all tokens plus the value of the position in the filled token alone: what is held in every
  other token is marked at zero.\<close>

theorem mark_after_fills:
  assumes "\<forall>fill \<in> set (fills @ [fill]). fill_ok fill" "rm = fold RiskManager_on_fill (fills @ [fill]) (RiskManager_init symbols cfg)"
  shows "rm_position rm (unat tok) = net_position tok (fills @ [fill])
     \<and> rm_mark_pnl_inr rm = (net_cash (fills @ [fill]) + net_position (f_token fill) (fills @ [fill]) * f_fill_price fill) sdiv 100"
proof -
  define rm0 where "rm0 = fold RiskManager_on_fill fills (RiskManager_init symbols cfg)"
  have rm: "rm = RiskManager_on_fill fill rm0" by (simp add: assms(2) rm0_def)
  have ok: "\<forall>fill \<in> set fills. fill_ok fill" "fill_ok fill" using assms(1) by auto
  have p: "rm_position rm0 (unat t) = net_position t fills" "rm_cashflow_paisa rm0 = net_cash fills" for t
    using fills_positions [OF ok(1), of "RiskManager_init symbols cfg" t]
    by (simp_all add: rm0_def RiskManager_init_def)
  have n: "net_position t (fills @ [fill]) = net_position t fills + (if f_token fill = t then signed_fill fill else 0)"
    "net_cash (fills @ [fill]) = net_cash fills - signed_fill fill * f_fill_price fill" for t
    by (simp_all add: net_position_def net_cash_def)
  have eq: "unat tok = unat (f_token fill) \<longleftrightarrow> f_token fill = tok" by (auto simp: word_unat_eq_iff)
  show ?thesis unfolding rm on_fill_fields [OF ok(2)] n p using eq p by simp
qed

definition buy_fill :: "Token \<Rightarrow> FillReport" where
  "buy_fill tok = losing_fill\<lparr>f_token := tok, f_side := kBuy, f_fill_price := 20000\<rparr>"

theorem mark_after_fills_witness:
  "let rm = fold RiskManager_on_fill ([buy_fill 7] @ [buy_fill 8]) (RiskManager_init None RiskConfig_default)
   in rm_position rm 7 = 1000 \<and> rm_position rm 8 = 1000 \<and> rm_mark_pnl_inr rm = - 200000"
proof -
  have "\<forall>fill \<in> set ([buy_fill 7] @ [buy_fill 8]). fill_ok fill"
    by (simp add: fill_ok_def buy_fill_def losing_fill_def kSymbolTableSize_def)
  note th = mark_after_fills [OF this refl, of None RiskConfig_default]
  have s: "net_cash ([buy_fill 7] @ [buy_fill 8]) = - 40000000" "net_position 7 ([buy_fill 7] @ [buy_fill 8]) = 1000"
    "net_position 8 ([buy_fill 7] @ [buy_fill 8]) = 1000" "f_token (buy_fill 8) = 8" "f_fill_price (buy_fill 8) = 20000"
    by (simp_all add: net_cash_def net_position_def buy_fill_def losing_fill_def signed_fill_def)
  show ?thesis using th [of 7] th [of 8] by (simp only: s Let_def) (simp add: sdiv_neg)
qed

end
