(* ===== verification/Quoting_Math.thy ===== *)
theory Quoting_Math
  imports Prelude
begin

text \<open>
  \<^verbatim>\<open>src/strategy/quoting_math.hpp\<close>: the quoting arithmetic that the market-making strategy and
  the adapter for the external platform share.
\<close>

definition clamp_ticks :: "int \<Rightarrow> int \<Rightarrow> int" where
  "clamp_ticks v lim = (if v > lim then lim else if v < - lim then - lim else v)"

definition inventory_skew_ticks :: "int \<Rightarrow> int \<Rightarrow> int \<Rightarrow> int" where
  "inventory_skew_ticks position_units max_position_units max_skew_ticks =
     (if max_skew_ticks \<le> 0 \<or> max_position_units \<le> 0 then 0
      else clamp_ticks (to_i32 ((position_units * max_skew_ticks) sdiv max_position_units)) max_skew_ticks)"

definition flow_skew_ticks :: "int \<Rightarrow> int \<Rightarrow> int \<Rightarrow> int" where
  "flow_skew_ticks bid_qty ask_qty max_skew_ticks =
     (if max_skew_ticks \<le> 0 then 0
      else let denom = bid_qty + ask_qty
           in if denom \<le> 0 then 0
              else clamp_ticks (to_i32 (((bid_qty - ask_qty) * max_skew_ticks) sdiv denom)) max_skew_ticks)"

record DesiredQuotes =
  dq_bid_price :: int
  dq_ask_price :: int

definition desired_quotes :: "int \<Rightarrow> int \<Rightarrow> int \<Rightarrow> int \<Rightarrow> int \<Rightarrow> int \<Rightarrow> int \<Rightarrow> int \<Rightarrow> int \<Rightarrow> DesiredQuotes" where
  "desired_quotes best_bid best_ask tick bid_qty ask_qty position_units max_position_units max_inv_skew_ticks
     max_flow_skew_ticks =
     (let inv = inventory_skew_ticks position_units max_position_units max_inv_skew_ticks;
          flow = flow_skew_ticks bid_qty ask_qty max_flow_skew_ticks;
          shift = (flow - inv) * tick
      in \<lparr>dq_bid_price = (best_bid - tick) + shift, dq_ask_price = (best_ask + tick) + shift\<rparr>)"

subsection \<open>Skews\<close>

lemma clamp_bound: "0 \<le> lim \<Longrightarrow> \<bar>clamp_ticks v lim\<bar> \<le> lim"
  by (auto simp: clamp_ticks_def)

lemma clamp_id: "\<bar>v\<bar> \<le> lim \<Longrightarrow> clamp_ticks v lim = v"
  by (auto simp: clamp_ticks_def)

lemma inventory_skew_bound: "\<bar>inventory_skew_ticks p m k\<bar> \<le> max 0 k"
  using clamp_bound [of k] by (auto simp: inventory_skew_ticks_def max_def)

lemma flow_skew_bound: "\<bar>flow_skew_ticks b a k\<bar> \<le> max 0 k"
  using clamp_bound [of k] by (auto simp: flow_skew_ticks_def max_def Let_def)

text \<open>A position within its limit leans by the proportional number of ticks, against the position.\<close>

lemma inventory_skew_exact:
  assumes "0 < m" "0 < k" "\<bar>p\<bar> \<le> m" "k < 2 ^ 31"
  shows "inventory_skew_ticks p m k = (p * k) sdiv m"
proof -
  have "\<bar>p * k\<bar> \<le> m * k" using assms by (simp add: abs_mult mult_right_mono)
  then have "\<bar>p * k\<bar> div m \<le> k" using assms by (metis nonzero_mult_div_cancel_left zdiv_mono1 less_irrefl)
  then have "\<bar>(p * k) sdiv m\<bar> \<le> k" using assms by (simp add: abs_sdiv)
  moreover from this have "in_i32 ((p * k) sdiv m)" using assms by (auto simp: in_i32_def)
  ultimately show ?thesis using assms by (simp add: inventory_skew_ticks_def to_i32_id clamp_id)
qed

lemma sdiv_sign: "0 < (m :: int) \<Longrightarrow> 0 \<le> x \<Longrightarrow> 0 \<le> x sdiv m" "0 < m \<Longrightarrow> x \<le> 0 \<Longrightarrow> x sdiv m \<le> 0"
  by (simp_all add: sdiv_nonneg sdiv_neg pos_imp_zdiv_nonneg_iff)

text \<open>The flow skew is the proportional number of ticks as well; it never needs the clamp.\<close>

lemma flow_skew_exact:
  assumes "0 < b + a" "0 \<le> b" "0 \<le> a" "0 \<le> k" "k < 2 ^ 31"
  shows "flow_skew_ticks b a k = ((b - a) * k) sdiv (b + a)"
proof (cases "k = 0")
  case False
  have "inventory_skew_ticks (b - a) (b + a) k = ((b - a) * k) sdiv (b + a)"
    using assms False by (intro inventory_skew_exact) auto
  then show ?thesis using assms False by (simp add: inventory_skew_ticks_def flow_skew_ticks_def)
qed (simp add: flow_skew_ticks_def sdiv_nonneg)

text \<open>A quotient of at least one whole tick, in either direction.\<close>

lemma sdiv_whole: "0 < (m :: int) \<Longrightarrow> m \<le> x \<Longrightarrow> 1 \<le> x sdiv m" "0 < m \<Longrightarrow> x \<le> - m \<Longrightarrow> x sdiv m \<le> - 1"
proof -
  show "1 \<le> x sdiv m" if "0 < m" "m \<le> x" for x :: int
    using that zdiv_mono1 [of m x m] by (simp add: sdiv_nonneg)
  show "x sdiv m \<le> - 1" if "0 < m" "x \<le> - m" for x :: int
    using that zdiv_mono1 [of m "- x" m] by (simp add: sdiv_neg)
qed

text \<open>C22 Quotes stay around the market. Whatever the position and the sizes at the touch, the two quotes are exactly two
  ticks further apart than the touch and their shift is at most the two configured skews together. For a position within its limit and
  sizes that are not negative the shift is exactly the proportional one: the flow skew, rounded towards zero, raises both quotes and the
  inventory skew, rounded towards zero, lowers them. So with the flow skew off a position worth at least one tick of skew
  leans against itself: a long position lowers both quotes by at least one tick and a short one raises them. When the skews together
  are less than the spread plus one tick, neither quote crosses the opposite touch.\<close>

theorem quotes_around_touch:
  assumes "0 < tick" "0 \<le> inv_skew" "0 \<le> flow_skew" "inv_skew < 2 ^ 31" "flow_skew < 2 ^ 31"
    and "q = desired_quotes best_bid best_ask tick bid_qty ask_qty position max_position inv_skew flow_skew"
  shows "dq_ask_price q - dq_bid_price q = best_ask - best_bid + 2 * tick
     \<and> \<bar>dq_bid_price q - (best_bid - tick)\<bar> \<le> (inv_skew + flow_skew) * tick
     \<and> (0 < max_position \<and> \<bar>position\<bar> \<le> max_position \<and> 0 \<le> bid_qty \<and> 0 \<le> ask_qty \<and> 0 < bid_qty + ask_qty \<longrightarrow>
          dq_bid_price q = best_bid - tick
            + (((bid_qty - ask_qty) * flow_skew) sdiv (bid_qty + ask_qty) - (position * inv_skew) sdiv max_position) * tick)
     \<and> (0 < max_position \<and> position \<le> max_position \<and> max_position \<le> position * inv_skew \<and> flow_skew = 0 \<longrightarrow>
          dq_bid_price q \<le> best_bid - 2 * tick \<and> dq_ask_price q \<le> best_ask)
     \<and> (0 < max_position \<and> - max_position \<le> position \<and> position * inv_skew \<le> - max_position \<and> flow_skew = 0 \<longrightarrow>
          best_bid \<le> dq_bid_price q \<and> best_ask + 2 * tick \<le> dq_ask_price q)
     \<and> ((inv_skew + flow_skew) * tick < best_ask - best_bid + tick
        \<longrightarrow> dq_bid_price q < best_ask \<and> best_bid < dq_ask_price q)"
proof -
  define inv where "inv = inventory_skew_ticks position max_position inv_skew"
  define flow where "flow = flow_skew_ticks bid_qty ask_qty flow_skew"
  define shift where "shift = (flow - inv) * tick"
  have q: "dq_bid_price q = best_bid - tick + shift" "dq_ask_price q = best_ask + tick + shift"
    unfolding assms(6) desired_quotes_def Let_def shift_def inv_def flow_def by simp_all
  have b: "\<bar>inv\<bar> \<le> inv_skew" "\<bar>flow\<bar> \<le> flow_skew"
    using inventory_skew_bound [of position max_position inv_skew] flow_skew_bound [of bid_qty ask_qty flow_skew] assms(2,3)
    by (simp_all add: inv_def flow_def)
  then have "\<bar>flow - inv\<bar> * tick \<le> (inv_skew + flow_skew) * tick" using assms(1) by (intro mult_right_mono) auto
  then have s: "\<bar>shift\<bar> \<le> (inv_skew + flow_skew) * tick" using assms(1) by (simp add: shift_def abs_mult)
  have inv: "inv = (position * inv_skew) sdiv max_position" if "\<bar>position\<bar> \<le> max_position" "0 < max_position"
  proof (cases "inv_skew = 0")
    case False
    then show ?thesis using inventory_skew_exact [of max_position inv_skew position] that assms(2,4) by (simp add: inv_def)
  qed (simp add: inv_def inventory_skew_ticks_def sdiv_nonneg)
  have exact: "shift = (((bid_qty - ask_qty) * flow_skew) sdiv (bid_qty + ask_qty) - (position * inv_skew) sdiv max_position) * tick"
    if "0 < max_position" "\<bar>position\<bar> \<le> max_position" "0 \<le> bid_qty" "0 \<le> ask_qty" "0 < bid_qty + ask_qty"
    using that inv flow_skew_exact [of bid_qty ask_qty flow_skew] assms(3,5) by (simp add: shift_def flow_def)
  have f0: "flow = 0" if "flow_skew = 0" using b(2) that by simp
  have down: "shift \<le> - tick" if "0 < max_position" "position \<le> max_position" "max_position \<le> position * inv_skew" "flow_skew = 0"
  proof -
    have "0 < position" using that(1,3) assms(2) by (smt (verit) mult_nonneg_nonpos mult.commute)
    then have "1 \<le> inv" using inv that sdiv_whole(1) [of max_position "position * inv_skew"] by simp
    then show ?thesis using f0 that(4) assms(1) mult_right_mono [of 1 inv tick] by (simp add: shift_def)
  qed
  have up: "tick \<le> shift" if "0 < max_position" "- max_position \<le> position" "position * inv_skew \<le> - max_position" "flow_skew = 0"
  proof -
    have "position < 0" using that(1,3) assms(2) by (smt (verit) mult_nonneg_nonneg)
    then have "inv \<le> - 1" using inv that sdiv_whole(2) [of max_position "position * inv_skew"] by simp
    then show ?thesis using f0 that(4) assms(1) mult_right_mono [of inv "- 1" tick] by (simp add: shift_def)
  qed
  show ?thesis unfolding q using s assms(1) exact down up by auto
qed

theorem quotes_around_touch_witness:
  "let q = desired_quotes 10000 10005 5 300 100 25 50 2 0
   in dq_bid_price q = 10000 - 5 + (((300 - 100) * 0) sdiv (300 + 100) - (25 * 2) sdiv 50) * 5 \<and> dq_bid_price q = 9990
      \<and> dq_bid_price q \<le> 10000 - 2 * 5 \<and> dq_ask_price q \<le> 10005 \<and> dq_ask_price q - dq_bid_price q = 10005 - 10000 + 2 * 5"
  using quotes_around_touch [of 5 2 0 "desired_quotes 10000 10005 5 300 100 25 50 2 0" 10000 10005 300 100 25 50]
  by (simp add: sdiv_nonneg Let_def)

end
