(* ===== verification/Market_Making.thy ===== *)
theory Market_Making
  imports Book_Manager Symbol_Master Time_Utils Quoting_Math
begin

text \<open>
  \<^verbatim>\<open>src/strategy/market_making.hpp\<close>: the market-making strategy, an implementation of the
  interface of \<^verbatim>\<open>src/strategy/strategy_base.hpp\<close>.

  The two fixed buffers of an update, orders to send and ids to cancel, are the lists of their
  filled entries; the bound of 16 is kept. The members of \<^verbatim>\<open>QuoteState\<close> that the code selects by
  side have accessors that take the side. The wall clock is read only when no simulated time is
  set: its reading is an argument of \<open>on_book_update\<close>.
\<close>

subsection \<open>Data\<close>

record MarketMakingConfig =
  mc_segment :: Segment
  mc_max_position_lots :: int
  mc_max_spread_ticks :: int
  mc_quote_ttl_ns :: u64
  mc_quote_lots :: Quantity
  mc_max_inv_skew_ticks :: int
  mc_max_flow_skew_ticks :: int

definition MarketMakingConfig_default :: MarketMakingConfig where
  "MarketMakingConfig_default = \<lparr>mc_segment = kSegmentCm, mc_max_position_lots = 10, mc_max_spread_ticks = 3,
     mc_quote_ttl_ns = 500000, mc_quote_lots = 1, mc_max_inv_skew_ticks = 0, mc_max_flow_skew_ticks = 0\<rparr>"

record QuoteState =
  qs_bid_active :: bool
  qs_ask_active :: bool
  qs_bid_price :: Price
  qs_ask_price :: Price
  qs_bid_ts :: Timestamp
  qs_ask_ts :: Timestamp
  qs_bid_clordid :: ClOrdId
  qs_ask_clordid :: ClOrdId

definition QuoteState_default :: QuoteState where
  "QuoteState_default = \<lparr>qs_bid_active = False, qs_ask_active = False, qs_bid_price = 0, qs_ask_price = 0,
     qs_bid_ts = 0, qs_ask_ts = 0, qs_bid_clordid = 0, qs_ask_clordid = 0\<rparr>"

record MarketMaking =
  mm_symbols :: "SymbolMaster option"
  mm_cfg :: MarketMakingConfig
  mm_quotes :: "nat \<Rightarrow> QuoteState"
  mm_position :: "nat \<Rightarrow> Quantity"
  mm_next_clordid :: ClOrdId
  mm_sim_now_ns :: Timestamp
  mm_pending :: "Order list"
  mm_cancels :: "ClOrdId list"

definition MarketMaking_init :: "SymbolMaster option \<Rightarrow> MarketMakingConfig \<Rightarrow> MarketMaking" where
  "MarketMaking_init symbols cfg = \<lparr>mm_symbols = symbols, mm_cfg = cfg, mm_quotes = (\<lambda>_. QuoteState_default),
     mm_position = (\<lambda>_. 0), mm_next_clordid = 1, mm_sim_now_ns = 0, mm_pending = [], mm_cancels = []\<rparr>"

definition kMaxPending :: nat where
  "kMaxPending = 16"

definition MarketMaking_set_now :: "Timestamp \<Rightarrow> MarketMaking \<Rightarrow> MarketMaking" where
  "MarketMaking_set_now ist_ns mm = mm\<lparr>mm_sim_now_ns := ist_ns\<rparr>"

definition MarketMaking_position :: "MarketMaking \<Rightarrow> Token \<Rightarrow> Quantity" where
  "MarketMaking_position mm token = (if unat token < kMaxTokens then mm_position mm (unat token) else 0)"

subsection \<open>Reference data\<close>

definition TickSize :: "MarketMaking \<Rightarrow> Token \<Rightarrow> Price" where
  "TickSize mm token =
     (let t = (case mm_symbols mm of None \<Rightarrow> 0 | Some sm \<Rightarrow> get_tick_size sm token) in if t > 0 then t else 1)"

definition MarketMaking_LotSize :: "MarketMaking \<Rightarrow> Token \<Rightarrow> Quantity" where
  "MarketMaking_LotSize mm token =
     (let l = (case mm_symbols mm of None \<Rightarrow> 0 | Some sm \<Rightarrow> get_lot_size sm token) in if l > 0 then l else 1)"

definition MarketMaking_PriceBand :: "MarketMaking \<Rightarrow> Token \<Rightarrow> (Price \<times> Price) option" where
  "MarketMaking_PriceBand mm token =
     (case mm_symbols mm of
        None \<Rightarrow> None
      | Some sm \<Rightarrow>
          (case sm_get sm token of
             None \<Rightarrow> None
           | Some inst \<Rightarrow>
               if i_prev_close inst \<le> 0 \<or> i_circuit_pct_x100 inst = 0 then None
               else let delta = (i_prev_close inst * uint (i_circuit_pct_x100 inst)) sdiv 10000
                    in Some (i_prev_close inst - delta, i_prev_close inst + delta)))"

definition ComputeDesired ::
    "MarketMaking \<Rightarrow> PriceLevel \<Rightarrow> PriceLevel \<Rightarrow> Price \<Rightarrow> Quantity \<Rightarrow> Quantity \<Rightarrow> Price \<times> Price" where
  "ComputeDesired mm bb ba tick pos_units max_pos_units =
     (let q = desired_quotes (pl_price bb) (pl_price ba) tick (pl_total_quantity bb) (pl_total_quantity ba) pos_units
                max_pos_units (mc_max_inv_skew_ticks (mm_cfg mm)) (mc_max_flow_skew_ticks (mm_cfg mm))
      in (dq_bid_price q, dq_ask_price q))"

subsection \<open>Quotes\<close>

definition qs_active :: "bool \<Rightarrow> QuoteState \<Rightarrow> bool" where
  "qs_active is_bid q = (if is_bid then qs_bid_active q else qs_ask_active q)"

definition qs_price :: "bool \<Rightarrow> QuoteState \<Rightarrow> Price" where
  "qs_price is_bid q = (if is_bid then qs_bid_price q else qs_ask_price q)"

definition qs_ts :: "bool \<Rightarrow> QuoteState \<Rightarrow> Timestamp" where
  "qs_ts is_bid q = (if is_bid then qs_bid_ts q else qs_ask_ts q)"

definition qs_clordid :: "bool \<Rightarrow> QuoteState \<Rightarrow> ClOrdId" where
  "qs_clordid is_bid q = (if is_bid then qs_bid_clordid q else qs_ask_clordid q)"

definition qs_deactivate :: "bool \<Rightarrow> QuoteState \<Rightarrow> QuoteState" where
  "qs_deactivate is_bid q = (if is_bid then q\<lparr>qs_bid_active := False\<rparr> else q\<lparr>qs_ask_active := False\<rparr>)"

definition qs_activate :: "bool \<Rightarrow> Price \<Rightarrow> Timestamp \<Rightarrow> ClOrdId \<Rightarrow> QuoteState \<Rightarrow> QuoteState" where
  "qs_activate is_bid price ts cid q =
     (if is_bid then q\<lparr>qs_bid_active := True, qs_bid_price := price, qs_bid_ts := ts, qs_bid_clordid := cid\<rparr>
      else q\<lparr>qs_ask_active := True, qs_ask_price := price, qs_ask_ts := ts, qs_ask_clordid := cid\<rparr>)"

definition EmitNew :: "Token \<Rightarrow> bool \<Rightarrow> Price \<Rightarrow> Quantity \<Rightarrow> Timestamp \<Rightarrow> MarketMaking \<Rightarrow> ClOrdId \<times> MarketMaking" where
  "EmitNew token is_bid price qty now mm =
     (if length (mm_pending mm) \<ge> kMaxPending then (0, mm)
      else let ord = \<lparr>o_client_order_id = mm_next_clordid mm, o_exchange_order_no = 0, o_token = token,
                      o_segment = mc_segment (mm_cfg mm), o_price = price, o_qty = qty, o_disclosed_qty = 0,
                      o_side = is_bid, o_order_type = kLimit, o_validity = kDay, o_created_at = now\<rparr>
           in (o_client_order_id ord,
               mm\<lparr>mm_next_clordid := mm_next_clordid mm + 1, mm_pending := mm_pending mm @ [ord]\<rparr>))"

definition EmitCancel :: "ClOrdId \<Rightarrow> MarketMaking \<Rightarrow> MarketMaking" where
  "EmitCancel cid mm =
     (if length (mm_cancels mm) < kMaxPending then mm\<lparr>mm_cancels := mm_cancels mm @ [cid]\<rparr> else mm)"

definition CancelSide :: "Token \<Rightarrow> bool \<Rightarrow> MarketMaking \<Rightarrow> MarketMaking" where
  "CancelSide token bid mm =
     (let t = unat token; q = mm_quotes mm t
      in if qs_active bid q
         then (EmitCancel (qs_clordid bid q) mm)\<lparr>mm_quotes := (mm_quotes mm)(t := qs_deactivate bid q)\<rparr>
         else mm)"

definition QuoteOneSide ::
    "Token \<Rightarrow> bool \<Rightarrow> Price \<Rightarrow> Quantity \<Rightarrow> bool \<Rightarrow> Timestamp \<Rightarrow> MarketMaking \<Rightarrow> MarketMaking" where
  "QuoteOneSide token is_bid desired qty allowed now mm =
     (let t = unat token; q = mm_quotes mm t; active = qs_active is_bid q
      in if \<not> allowed then CancelSide token is_bid mm
         else let stale = (active \<and> now - qs_ts is_bid q > mc_quote_ttl_ns (mm_cfg mm))
              in if active \<and> qs_price is_bid q = desired \<and> \<not> stale then mm
                 else let mm = (if active then CancelSide token is_bid mm else mm);
                          (cid, mm) = EmitNew token is_bid desired qty now mm
                      in mm\<lparr>mm_quotes := (mm_quotes mm)(t := qs_activate is_bid desired now cid (mm_quotes mm t))\<rparr>)"

definition mm_now :: "timespec \<Rightarrow> MarketMaking \<Rightarrow> Timestamp" where
  "mm_now wall mm = (if mm_sim_now_ns mm \<noteq> 0 then mm_sim_now_ns mm else ist_now_ns wall)"

definition on_book_update :: "Token \<Rightarrow> OrderBook \<Rightarrow> timespec \<Rightarrow> MarketMaking \<Rightarrow> MarketMaking" where
  "on_book_update token book wall mm =
     (let mm = mm\<lparr>mm_pending := [], mm_cancels := []\<rparr>
      in if unat token \<ge> kMaxTokens then mm
         else let now = mm_now wall mm
         in if now \<ge> preclose_cancel_ns now then CancelSide token False (CancelSide token True mm)
            else if \<not> is_within_market_hours now then mm
            else (case (best_bid book, best_ask book) of
                    (Some bid, Some ask) \<Rightarrow>
                      (let tick = TickSize mm token; spread = pl_price ask - pl_price bid
                       in if tick \<le> 0 then mm
                          else if spread > mc_max_spread_ticks (mm_cfg mm) * tick then mm
                          else let lot = MarketMaking_LotSize mm token;
                                   qty = mc_quote_lots (mm_cfg mm) * lot;
                                   pos = mm_position mm (unat token);
                                   net_lots = (if lot > 0 then pos sdiv lot else pos);
                                   band = MarketMaking_PriceBand mm token;
                                   in_band = (\<lambda>p. case band of None \<Rightarrow> True | Some (lo, hi) \<Rightarrow> p \<ge> lo \<and> p \<le> hi);
                                   max_pos_units = mc_max_position_lots (mm_cfg mm) * lot;
                                   (desired_bid, desired_ask) = ComputeDesired mm bid ask tick pos max_pos_units;
                                   bid_ok = (net_lots < mc_max_position_lots (mm_cfg mm) \<and> in_band desired_bid);
                                   ask_ok = (net_lots > - mc_max_position_lots (mm_cfg mm) \<and> in_band desired_ask)
                               in QuoteOneSide token False desired_ask qty ask_ok now
                                    (QuoteOneSide token True desired_bid qty bid_ok now mm))
                  | _ \<Rightarrow> mm))"

definition MarketMaking_on_fill :: "FillReport \<Rightarrow> MarketMaking \<Rightarrow> MarketMaking" where
  "MarketMaking_on_fill fill mm =
     (if unat (f_token fill) \<ge> kMaxTokens then mm
      else let t = unat (f_token fill); q = mm_quotes mm t;
               q = (if f_client_order_id fill = qs_bid_clordid q \<and> f_remaining_qty fill = 0
                    then q\<lparr>qs_bid_active := False\<rparr> else q);
               q = (if f_client_order_id fill = qs_ask_clordid q \<and> f_remaining_qty fill = 0
                    then q\<lparr>qs_ask_active := False\<rparr> else q)
           in mm\<lparr>mm_position := (mm_position mm)
                    (t := mm_position mm t + (if f_side fill = kBuy then f_fill_qty fill else - f_fill_qty fill)),
                 mm_quotes := (mm_quotes mm)(t := q)\<rparr>)"

text \<open>The scan of \<open>on_cancel\<close> over the tokens still to visit.\<close>

fun on_cancel_scan :: "ClOrdId \<Rightarrow> nat list \<Rightarrow> MarketMaking \<Rightarrow> MarketMaking" where
  "on_cancel_scan cid [] mm = mm"
| "on_cancel_scan cid (t # ts) mm =
     (let q = mm_quotes mm t
      in if qs_bid_active q \<and> qs_bid_clordid q = cid then mm\<lparr>mm_quotes := (mm_quotes mm)(t := q\<lparr>qs_bid_active := False\<rparr>)\<rparr>
         else if qs_ask_active q \<and> qs_ask_clordid q = cid
         then mm\<lparr>mm_quotes := (mm_quotes mm)(t := q\<lparr>qs_ask_active := False\<rparr>)\<rparr>
         else on_cancel_scan cid ts mm)"

definition on_cancel :: "ClOrdId \<Rightarrow> u8 \<Rightarrow> MarketMaking \<Rightarrow> MarketMaking" where
  "on_cancel cid reason_code mm = on_cancel_scan cid [0 ..< kMaxTokens] mm"

subsection \<open>Working quotes\<close>

lemma qs_deactivate [simp]:
  "qs_active s (qs_deactivate s' q) \<longleftrightarrow> qs_active s q \<and> s \<noteq> s'"
  "qs_price s (qs_deactivate s' q) = qs_price s q" "qs_clordid s (qs_deactivate s' q) = qs_clordid s q"
  "qs_ts s (qs_deactivate s' q) = qs_ts s q"
  by (auto simp: qs_active_def qs_deactivate_def qs_price_def qs_clordid_def qs_ts_def)

lemma qs_activate [simp]:
  "qs_active s (qs_activate s' p ts cid q) \<longleftrightarrow> s = s' \<or> qs_active s q"
  "qs_price s (qs_activate s' p ts cid q) = (if s = s' then p else qs_price s q)"
  "qs_clordid s (qs_activate s' p ts cid q) = (if s = s' then cid else qs_clordid s q)"
  "qs_ts s (qs_activate s' p ts cid q) = (if s = s' then ts else qs_ts s q)"
  by (auto simp: qs_active_def qs_activate_def qs_price_def qs_clordid_def qs_ts_def)

lemma qs_fields: "qs_bid_active q = qs_active True q" "qs_ask_active q = qs_active False q"
  "qs_bid_clordid q = qs_clordid True q" "qs_ask_clordid q = qs_clordid False q"
  by (simp_all add: qs_active_def qs_clordid_def)

lemma qs_off: "q\<lparr>qs_bid_active := False\<rparr> = qs_deactivate True q" "q\<lparr>qs_ask_active := False\<rparr> = qs_deactivate False q"
  by (simp_all add: qs_deactivate_def)

type_synonym ledger = "(nat \<times> Side \<times> ClOrdId \<times> Price) set"

text \<open>The quotes the strategy believes to be resting: token, side, id and price.\<close>

definition working :: "MarketMaking \<Rightarrow> ledger" where
  "working mm = {(t, s, cid, p). let q = mm_quotes mm t in qs_active s q \<and> qs_clordid s q = cid \<and> qs_price s q = p}"

lemma in_working: "(t, s, cid, p) \<in> working mm \<longleftrightarrow>
    qs_active s (mm_quotes mm t) \<and> qs_clordid s (mm_quotes mm t) = cid \<and> qs_price s (mm_quotes mm t) = p"
  by (simp add: working_def Let_def)

lemma working_cong: "mm_quotes mm = mm_quotes mm' \<Longrightarrow> working mm = working mm'"
  by (simp add: working_def)

text \<open>Ids of working quotes have been assigned and are never shared; tokens are those of the table.\<close>

definition mm_inv :: "MarketMaking \<Rightarrow> bool" where
  "mm_inv mm \<longleftrightarrow> 0 < mm_next_clordid mm
     \<and> (\<forall>t s cid p. (t, s, cid, p) \<in> working mm \<longrightarrow> t < kMaxTokens \<and> 0 < cid \<and> cid < mm_next_clordid mm)
     \<and> (\<forall>cid t s p t' s' p'. (t, s, cid, p) \<in> working mm \<longrightarrow> (t', s', cid, p') \<in> working mm \<longrightarrow> t = t' \<and> s = s')"

lemma mm_invD:
  assumes "mm_inv mm" "(t, s, cid, p) \<in> working mm"
  shows "t < kMaxTokens" "0 < cid" "cid < mm_next_clordid mm" "(t', s', cid, p') \<in> working mm \<Longrightarrow> t' = t \<and> s' = s \<and> p' = p"
proof -
  show "t < kMaxTokens" "0 < cid" "cid < mm_next_clordid mm" using assms unfolding mm_inv_def by blast+
  assume w: "(t', s', cid, p') \<in> working mm"
  then have "t = t' \<and> s = s'" using assms unfolding mm_inv_def by blast
  then show "t' = t \<and> s' = s \<and> p' = p" using w assms(2) by (auto simp: in_working)
qed

lemma mm_inv_init: "mm_inv (MarketMaking_init symbols cfg)"
  by (simp add: mm_inv_def MarketMaking_init_def working_def QuoteState_default_def qs_active_def)

lemma mm_inv_shrink:
  assumes "mm_inv mm" "working mm' \<subseteq> working mm" "mm_next_clordid mm' = mm_next_clordid mm"
  shows "mm_inv mm'"
  using assms(1,3) subsetD [OF assms(2)] unfolding mm_inv_def by (metis (no_types))

definition order_entry :: "Order \<Rightarrow> nat \<times> Side \<times> ClOrdId \<times> Price" where
  "order_entry ord = (unat (o_token ord), o_side ord, o_client_order_id ord, o_price ord)"

abbreviation entry_id :: "nat \<times> Side \<times> ClOrdId \<times> Price \<Rightarrow> ClOrdId" where
  "entry_id e \<equiv> fst (snd (snd e))"

text \<open>What the outputs of an update say about the quotes resting at the exchange.\<close>

definition after_messages :: "Order list \<Rightarrow> ClOrdId list \<Rightarrow> ledger \<Rightarrow> ledger" where
  "after_messages orders cancels L = {e \<in> L. entry_id e \<notin> set cancels} \<union> order_entry ` set orders"

text \<open>One side's step, seen from outside: at most one cancel, of the quote working on that side, and at
  most one order, with a fresh id; the working quotes change accordingly.\<close>

definition side_step :: "nat \<Rightarrow> bool \<Rightarrow> MarketMaking \<Rightarrow> MarketMaking \<Rightarrow> Order list \<Rightarrow> ClOrdId list \<Rightarrow> bool" where
  "side_step t s mm mm' ps cs \<longleftrightarrow>
     mm_pending mm' = mm_pending mm @ ps \<and> mm_cancels mm' = mm_cancels mm @ cs \<and> length ps \<le> 1 \<and> length cs \<le> 1
     \<and> working mm' = after_messages ps cs (working mm)
     \<and> (\<forall>c \<in> set cs. \<exists>p. (t, s, c, p) \<in> working mm) \<and> (\<forall>ord \<in> set ps. unat (o_token ord) = t \<and> o_side ord = s)
     \<and> mm_inv mm' \<and> mm_cfg mm' = mm_cfg mm \<and> mm_symbols mm' = mm_symbols mm \<and> mm_position mm' = mm_position mm
     \<and> mm_sim_now_ns mm' = mm_sim_now_ns mm"

lemma after_messages_none [simp]: "after_messages [] [] L = L"
  by (simp add: after_messages_def)

lemma side_step_same: "mm_inv mm \<Longrightarrow> side_step t s mm mm [] []"
  by (simp add: side_step_def)

lemma CancelSide_step:
  assumes "mm_inv mm" "length (mm_cancels mm) < kMaxPending"
  shows "\<exists>cs. side_step (unat token) s mm (CancelSide token s mm) [] cs
    \<and> mm_next_clordid (CancelSide token s mm) = mm_next_clordid mm
    \<and> \<not> qs_active s (mm_quotes (CancelSide token s mm) (unat token))"
proof (cases "qs_active s (mm_quotes mm (unat token))")
  case False
  then show ?thesis using side_step_same [OF assms(1)] by (auto simp: CancelSide_def Let_def)
next
  case True
  define t where "t = unat token"
  define q where "q = mm_quotes mm t"
  have w: "(t, s, qs_clordid s q, qs_price s q) \<in> working mm" using True by (simp add: in_working t_def q_def)
  define mm' where "mm' = CancelSide token s mm"
  have mm': "mm' = mm\<lparr>mm_cancels := mm_cancels mm @ [qs_clordid s q], mm_quotes := (mm_quotes mm)(t := qs_deactivate s q)\<rparr>"
    using True assms(2) by (simp add: mm'_def CancelSide_def EmitCancel_def t_def q_def Let_def)
  then have fields: "mm_quotes mm' = (mm_quotes mm)(t := qs_deactivate s q)" "mm_next_clordid mm' = mm_next_clordid mm"
    by simp_all
  have work: "working mm' = working mm - {(t, s, qs_clordid s q, qs_price s q)}"
  proof (rule set_eqI, clarify)
    fix t' s' c p
    show "(t', s', c, p) \<in> working mm' \<longleftrightarrow> (t', s', c, p) \<in> working mm - {(t, s, qs_clordid s q, qs_price s q)}"
      by (cases "t' = t"; cases s; cases s') (auto simp: in_working q_def fields(1))
  qed
  have "entry_id e = qs_clordid s q \<longleftrightarrow> e = (t, s, qs_clordid s q, qs_price s q)" if "e \<in> working mm" for e
    using mm_invD(4) [OF assms(1) w, of "fst e" "fst (snd e)" "snd (snd (snd e))"] that by (cases e) auto
  then have after: "working mm' = after_messages [] [qs_clordid s q] (working mm)"
    unfolding work after_messages_def by (simp add: set_diff_eq cong: conj_cong)
  have inv: "mm_inv mm'" by (rule mm_inv_shrink [OF assms(1) _ fields(2)]) (simp add: work)
  have "side_step t s mm mm' [] [qs_clordid s q]"
    unfolding side_step_def after using inv exI [of "\<lambda>p. (t, s, qs_clordid s q, p) \<in> working mm", OF w]
    by (simp add: mm')
  moreover have "\<not> qs_active s (mm_quotes mm' t)" by (simp add: fields(1))
  ultimately show ?thesis using fields(2) unfolding mm'_def [symmetric] t_def [symmetric] by blast
qed

definition quote_order :: "Token \<Rightarrow> bool \<Rightarrow> Price \<Rightarrow> Quantity \<Rightarrow> Timestamp \<Rightarrow> MarketMaking \<Rightarrow> Order" where
  "quote_order token is_bid price qty now mm =
     \<lparr>o_client_order_id = mm_next_clordid mm, o_exchange_order_no = 0, o_token = token,
      o_segment = mc_segment (mm_cfg mm), o_price = price, o_qty = qty, o_disclosed_qty = 0,
      o_side = is_bid, o_order_type = kLimit, o_validity = kDay, o_created_at = now\<rparr>"

definition placed :: "Token \<Rightarrow> bool \<Rightarrow> Price \<Rightarrow> Quantity \<Rightarrow> Timestamp \<Rightarrow> MarketMaking \<Rightarrow> MarketMaking" where
  "placed token is_bid price qty now mm =
     (let t = unat token
      in mm\<lparr>mm_next_clordid := mm_next_clordid mm + 1,
            mm_pending := mm_pending mm @ [quote_order token is_bid price qty now mm],
            mm_quotes := (mm_quotes mm)(t := qs_activate is_bid price now (mm_next_clordid mm) (mm_quotes mm t))\<rparr>)"

text \<open>The three outcomes of \<open>QuoteOneSide\<close> when the order buffer has room: pull, hold, or (re)place.\<close>

lemma QuoteOneSide_cases:
  assumes "length (mm_pending mm) < kMaxPending"
  shows "QuoteOneSide token s desired qty allowed now mm =
    (let q = mm_quotes mm (unat token)
     in if \<not> allowed then CancelSide token s mm
        else if qs_active s q \<and> qs_price s q = desired \<and> \<not> now - qs_ts s q > mc_quote_ttl_ns (mm_cfg mm) then mm
        else placed token s desired qty now (if qs_active s q then CancelSide token s mm else mm))"
proof -
  have "length (mm_pending (CancelSide token s mm)) < kMaxPending"
    using assms by (simp add: CancelSide_def EmitCancel_def Let_def)
  then show ?thesis using assms
    by (simp add: QuoteOneSide_def EmitNew_def placed_def quote_order_def Let_def not_le)
qed

lemma placed_quotes: "mm_quotes (placed token s price qty now mm) =
    (mm_quotes mm)(unat token := qs_activate s price now (mm_next_clordid mm) (mm_quotes mm (unat token)))"
  by (simp add: placed_def Let_def)

lemma placed_working:
  assumes "\<not> qs_active s (mm_quotes mm (unat token))"
  shows "working (placed token s price qty now mm) =
    insert (order_entry (quote_order token s price qty now mm)) (working mm)"
proof (rule set_eqI, clarify)
  fix t' s' c p
  show "(t', s', c, p) \<in> working (placed token s price qty now mm) \<longleftrightarrow>
      (t', s', c, p) \<in> insert (order_entry (quote_order token s price qty now mm)) (working mm)"
    using assms by (cases "t' = unat token"; cases s; cases s') (auto simp: in_working placed_quotes order_entry_def quote_order_def)
qed

lemma placed_step:
  assumes "mm_inv mm" "\<not> qs_active s (mm_quotes mm (unat token))" "unat token < kMaxTokens"
  shows "side_step (unat token) s mm (placed token s price qty now mm) [quote_order token s price qty now mm] []"
proof -
  define mm' where "mm' = placed token s price qty now mm"
  define e where "e = order_entry (quote_order token s price qty now mm)"
  have w: "working mm' = insert e (working mm)" unfolding mm'_def e_def by (rule placed_working [OF assms(2)])
  have e: "e = (unat token, s, mm_next_clordid mm, price)" by (simp add: e_def order_entry_def quote_order_def)
  have nx: "mm_next_clordid mm' = mm_next_clordid mm + 1" by (simp add: mm'_def placed_def Let_def)
  have "mm_inv mm'"
    unfolding mm_inv_def w nx
  proof (intro conjI allI impI)
    show "0 < mm_next_clordid mm + 1" using assms(1) by (simp add: mm_inv_def)
  next
    fix t s c p assume "(t, s, c, p) \<in> insert e (working mm)"
    then show "t < kMaxTokens" "0 < c" "c < mm_next_clordid mm + 1"
      using mm_invD(1-3) [OF assms(1)] assms(1,3) by (fastforce simp: e mm_inv_def)+
  next
    fix c t s p t' s' p'
    assume "(t, s, c, p) \<in> insert e (working mm)" "(t', s', c, p') \<in> insert e (working mm)"
    then show "t = t'" "s = s'"
      using mm_invD(3,4) [OF assms(1)] unfolding e by (metis insert_iff less_irrefl prod.inject)+
  qed
  then show ?thesis unfolding side_step_def mm'_def [symmetric] w after_messages_def
    by (simp add: mm'_def placed_def Let_def e_def) (simp add: quote_order_def)
qed

lemma side_step_then_place:
  assumes "side_step t s mm mm1 [] cs" "side_step t s mm1 mm2 ps []"
  shows "side_step t s mm mm2 ps cs"
  using assms by (simp add: side_step_def after_messages_def)

text \<open>One side, seen from outside, with what is known of the order it may place.\<close>

lemma QuoteOneSide_step:
  assumes "mm_inv mm" "length (mm_pending mm) < kMaxPending" "length (mm_cancels mm) < kMaxPending" "unat token < kMaxTokens"
  shows "\<exists>ps cs. side_step (unat token) s mm (QuoteOneSide token s desired qty allowed now mm) ps cs
    \<and> (\<forall>ord \<in> set ps. allowed \<and> o_token ord = token \<and> o_side ord = s \<and> o_price ord = desired \<and> o_qty ord = qty)"
proof -
  define mm1 where "mm1 = (if qs_active s (mm_quotes mm (unat token)) then CancelSide token s mm else mm)"
  obtain cs where cs: "side_step (unat token) s mm (CancelSide token s mm) [] cs"
      "\<not> qs_active s (mm_quotes (CancelSide token s mm) (unat token))"
    using CancelSide_step [OF assms(1,3)] by blast
  obtain cs1 where cs1: "side_step (unat token) s mm mm1 [] cs1" "\<not> qs_active s (mm_quotes mm1 (unat token))"
  proof (cases "qs_active s (mm_quotes mm (unat token))")
    case True
    then show thesis using that [of cs] cs by (simp add: mm1_def)
  next
    case False
    then show thesis using that [of "[]"] side_step_same [OF assms(1)] by (simp add: mm1_def)
  qed
  then have "mm_inv mm1" by (simp add: side_step_def)
  note place = side_step_then_place [OF cs1(1) placed_step [OF this cs1(2) assms(4)]]
  define hold where "hold \<longleftrightarrow> qs_active s (mm_quotes mm (unat token)) \<and> qs_price s (mm_quotes mm (unat token)) = desired
    \<and> \<not> now - qs_ts s (mm_quotes mm (unat token)) > mc_quote_ttl_ns (mm_cfg mm)"
  have eq: "QuoteOneSide token s desired qty allowed now mm =
      (if \<not> allowed then CancelSide token s mm else if hold then mm else placed token s desired qty now mm1)"
    unfolding QuoteOneSide_cases [OF assms(2)] mm1_def hold_def Let_def ..
  consider "\<not> allowed" | "allowed" "hold" | "allowed" "\<not> hold" by blast
  then show ?thesis
  proof cases
    case 1
    then show ?thesis unfolding eq by (intro exI [of _ "[]"] exI [of _ cs]) (simp add: cs(1))
  next
    case 2
    then show ?thesis unfolding eq by (intro exI [of _ "[]"]) (simp add: side_step_same [OF assms(1)])
  next
    case 3
    then show ?thesis unfolding eq
      by (intro exI [of _ "[quote_order token s desired qty now mm1]"] exI [of _ cs1]) (simp add: place, simp add: quote_order_def)
  qed
qed

lemma after_messages_compose:
  assumes "\<forall>e \<in> order_entry ` set ps1. entry_id e \<notin> set cs2"
  shows "after_messages ps2 cs2 (after_messages ps1 cs1 L) = after_messages (ps1 @ ps2) (cs1 @ cs2) L"
  using assms by (auto simp: after_messages_def)

definition update_effect :: "MarketMaking \<Rightarrow> MarketMaking \<Rightarrow> bool" where
  "update_effect mm mm' \<longleftrightarrow> mm_inv mm' \<and> working mm' = after_messages (mm_pending mm') (mm_cancels mm') (working mm)
     \<and> length (mm_pending mm') \<le> 2 \<and> length (mm_cancels mm') \<le> 2 \<and> mm_position mm' = mm_position mm"

lemma two_sides:
  assumes "mm_pending mm = []" "mm_cancels mm = []"
    and 1: "side_step t True mm mm1 ps1 cs1" and 2: "side_step t False mm1 mm2 ps2 cs2"
  shows "update_effect mm mm2" and "mm_pending mm2 = ps1 @ ps2" and "mm_cancels mm2 = cs1 @ cs2"
proof -
  have inv: "mm_inv mm1" using 1 by (simp add: side_step_def)
  have "entry_id e \<notin> set cs2" if e: "e \<in> order_entry ` set ps1" for e
  proof
    assume "entry_id e \<in> set cs2"
    then obtain p where p: "(t, False, entry_id e, p) \<in> working mm1" using 2 unfolding side_step_def by blast
    from e obtain ord where ord: "ord \<in> set ps1" "e = order_entry ord" by blast
    have "e \<in> working mm1" using 1 e by (simp add: side_step_def after_messages_def)
    moreover have "e = (t, True, entry_id e, o_price ord)" using 1 ord by (simp add: side_step_def order_entry_def)
    ultimately have "(t, True, entry_id e, o_price ord) \<in> working mm1" by simp
    from mm_invD(4) [OF inv p this] show False by simp
  qed
  then have "working mm2 = after_messages (ps1 @ ps2) (cs1 @ cs2) (working mm)"
    using 1 2 after_messages_compose [of ps1 cs2 ps2 cs1 "working mm"] by (simp add: side_step_def)
  then show "update_effect mm mm2" "mm_pending mm2 = ps1 @ ps2" "mm_cancels mm2 = cs1 @ cs2"
    using 1 2 assms(1,2) by (simp_all add: side_step_def update_effect_def)
qed

text \<open>The time and book conditions under which an update reaches the quoting code, and its inputs.\<close>

definition quoting_inputs :: "Token \<Rightarrow> OrderBook \<Rightarrow> Timestamp \<Rightarrow> MarketMaking \<Rightarrow> (PriceLevel \<times> PriceLevel) option" where
  "quoting_inputs token book now mm =
     (if unat token < kMaxTokens \<and> now < preclose_cancel_ns now \<and> is_within_market_hours now
      then (case (best_bid book, best_ask book) of
              (Some bid, Some ask) \<Rightarrow>
                if pl_price ask - pl_price bid \<le> mc_max_spread_ticks (mm_cfg mm) * TickSize mm token then Some (bid, ask) else None
            | _ \<Rightarrow> None)
      else None)"

definition side_allowed :: "MarketMaking \<Rightarrow> Token \<Rightarrow> bool \<Rightarrow> Price \<Rightarrow> bool" where
  "side_allowed mm token s price \<longleftrightarrow>
     (let net_lots = mm_position mm (unat token) sdiv MarketMaking_LotSize mm token; m = mc_max_position_lots (mm_cfg mm)
      in (if s then net_lots < m else - m < net_lots)
         \<and> (case MarketMaking_PriceBand mm token of None \<Rightarrow> True | Some (lo, hi) \<Rightarrow> lo \<le> price \<and> price \<le> hi))"

definition desired_price :: "MarketMaking \<Rightarrow> Token \<Rightarrow> PriceLevel \<times> PriceLevel \<Rightarrow> bool \<Rightarrow> Price" where
  "desired_price mm token touch s =
     (let d = ComputeDesired mm (fst touch) (snd touch) (TickSize mm token) (mm_position mm (unat token))
            (mc_max_position_lots (mm_cfg mm) * MarketMaking_LotSize mm token)
      in if s then fst d else snd d)"

lemma LotSize_pos: "0 < MarketMaking_LotSize mm token" "0 < TickSize mm token"
  by (simp_all add: MarketMaking_LotSize_def TickSize_def Let_def)

lemma on_book_update_quotes:
  assumes "mm0 = mm\<lparr>mm_pending := [], mm_cancels := []\<rparr>" "now = mm_now wall mm" "quoting_inputs token book now mm = Some touch"
  shows "on_book_update token book wall mm =
    (let q = mc_quote_lots (mm_cfg mm) * MarketMaking_LotSize mm token; b = desired_price mm token touch True; a = desired_price mm token touch False
     in QuoteOneSide token False a q (side_allowed mm token False a) now
          (QuoteOneSide token True b q (side_allowed mm token True b) now mm0))"
proof -
  obtain bid ask where touch: "touch = (bid, ask)" by (cases touch)
  have same: "TickSize mm0 token = TickSize mm token" "MarketMaking_LotSize mm0 token = MarketMaking_LotSize mm token"
    "MarketMaking_PriceBand mm0 token = MarketMaking_PriceBand mm token" "mm_now wall mm0 = mm_now wall mm"
    "ComputeDesired mm0 = ComputeDesired mm" "mm_cfg mm0 = mm_cfg mm" "mm_position mm0 = mm_position mm"
    by (simp_all add: assms(1) TickSize_def MarketMaking_LotSize_def MarketMaking_PriceBand_def mm_now_def ComputeDesired_def fun_eq_iff)
  have in_hours: "unat token < kMaxTokens" "now < preclose_cancel_ns now" "is_within_market_hours now"
    "best_bid book = Some bid" "best_ask book = Some ask" "pl_price ask - pl_price bid \<le> mc_max_spread_ticks (mm_cfg mm) * TickSize mm token"
    using assms(3) by (auto simp: quoting_inputs_def touch split: if_splits option.splits)
  show ?thesis
    unfolding on_book_update_def assms(1) [symmetric] Let_def same assms(2) [symmetric]
    using in_hours LotSize_pos [of mm token]
    by (simp add: not_le [symmetric] desired_price_def side_allowed_def touch Let_def case_prod_unfold)
qed

lemma on_book_update_idle:
  assumes "mm0 = mm\<lparr>mm_pending := [], mm_cancels := []\<rparr>" "now = mm_now wall mm" "quoting_inputs token book now mm = None"
  shows "on_book_update token book wall mm =
    (if unat token < kMaxTokens \<and> preclose_cancel_ns now \<le> now then CancelSide token False (CancelSide token True mm0) else mm0)"
proof -
  have same: "TickSize mm0 token = TickSize mm token" "mm_now wall mm0 = mm_now wall mm" "mm_cfg mm0 = mm_cfg mm"
    by (simp_all add: assms(1) TickSize_def mm_now_def)
  have hours: "\<not> (unat token < kMaxTokens \<and> now < preclose_cancel_ns now \<and> is_within_market_hours now
      \<and> best_bid book = Some bid \<and> best_ask book = Some ask
      \<and> pl_price ask - pl_price bid \<le> mc_max_spread_ticks (mm_cfg mm) * TickSize mm token)" for bid ask
    using assms(3) by (auto simp: quoting_inputs_def)
  show ?thesis
    unfolding on_book_update_def assms(1) [symmetric] Let_def same assms(2) [symmetric]
    using LotSize_pos(2) [of mm token] hours [of "the (best_bid book)" "the (best_ask book)"]
    by (cases "best_bid book"; cases "best_ask book") (auto simp: not_le not_less)
qed

lemma cleared:
  assumes "mm_inv mm" "mm0 = mm\<lparr>mm_pending := [], mm_cancels := []\<rparr>"
  shows "mm_inv mm0" "working mm0 = working mm" "mm_pending mm0 = []" "mm_cancels mm0 = []" "mm_position mm0 = mm_position mm"
  using assms by (simp_all add: mm_inv_def working_def)

lemma buffer_room: "(0 :: nat) < kMaxPending" "n \<le> 1 \<Longrightarrow> n < kMaxPending"
  by (simp_all add: kMaxPending_def)

text \<open>An update that reaches the quoting code is a step of the bid side and then one of the ask side.\<close>

lemma on_book_update_sides:
  assumes "mm_inv mm" "mm0 = mm\<lparr>mm_pending := [], mm_cancels := []\<rparr>" "now = mm_now wall mm"
    and "quoting_inputs token book now mm = Some touch"
    and "P = (\<lambda>ord. o_token ord = token \<and> o_price ord = desired_price mm token touch (o_side ord)
      \<and> side_allowed mm token (o_side ord) (o_price ord) \<and> o_qty ord = mc_quote_lots (mm_cfg mm) * MarketMaking_LotSize mm token)"
  shows "\<exists>mm1 ps1 cs1 ps2 cs2. side_step (unat token) True mm0 mm1 ps1 cs1
    \<and> side_step (unat token) False mm1 (on_book_update token book wall mm) ps2 cs2 \<and> (\<forall>ord \<in> set (ps1 @ ps2). P ord)"
proof -
  note c = cleared [OF assms(1,2)]
  have t: "unat token < kMaxTokens" using assms(4) by (auto simp: quoting_inputs_def split: if_splits)
  define q where "q = mc_quote_lots (mm_cfg mm) * MarketMaking_LotSize mm token"
  define dp where "dp s = desired_price mm token touch s" for s
  define step where "step s m = QuoteOneSide token s (dp s) q (side_allowed mm token s (dp s)) now m" for s m
  have one: "\<exists>ps cs. side_step (unat token) s m (step s m) ps cs \<and> (\<forall>ord \<in> set ps. P ord)"
    if m: "mm_inv m" "length (mm_pending m) \<le> 1" "length (mm_cancels m) \<le> 1" for s m
  proof -
    obtain ps cs where sd: "side_step (unat token) s m (step s m) ps cs"
      and ps: "\<forall>ord \<in> set ps. side_allowed mm token s (dp s) \<and> o_token ord = token \<and> o_side ord = s \<and> o_price ord = dp s \<and> o_qty ord = q"
      using QuoteOneSide_step [OF m(1) buffer_room(2) [OF m(2)] buffer_room(2) [OF m(3)] t] unfolding step_def by blast
    have "\<forall>ord \<in> set ps. P ord" using ps by (auto simp: assms(5) q_def dp_def)
    then show ?thesis using sd by blast
  qed
  obtain ps1 cs1 where 1: "side_step (unat token) True mm0 (step True mm0) ps1 cs1" "\<forall>ord \<in> set ps1. P ord"
    using one [OF c(1), of True] c by auto
  then have "mm_inv (step True mm0)" "length (mm_pending (step True mm0)) \<le> 1" "length (mm_cancels (step True mm0)) \<le> 1"
    using c by (simp_all add: side_step_def)
  then obtain ps2 cs2 where 2: "side_step (unat token) False (step True mm0) (step False (step True mm0)) ps2 cs2" "\<forall>ord \<in> set ps2. P ord"
    using one [of "step True mm0" False] by blast
  have "on_book_update token book wall mm = step False (step True mm0)"
    using on_book_update_quotes [OF assms(2-4)] by (simp add: step_def q_def dp_def Let_def)
  then show ?thesis using 1 2 by (metis Un_iff set_append)
qed

lemma on_book_update_sweeps:
  assumes "mm_inv mm" "mm0 = mm\<lparr>mm_pending := [], mm_cancels := []\<rparr>"
  shows "\<exists>mm1 cs1 cs2. side_step (unat token) True mm0 mm1 [] cs1
    \<and> side_step (unat token) False mm1 (CancelSide token False (CancelSide token True mm0)) [] cs2
    \<and> \<not> qs_active True (mm_quotes mm1 (unat token))
    \<and> \<not> qs_active False (mm_quotes (CancelSide token False (CancelSide token True mm0)) (unat token))"
proof -
  note c = cleared [OF assms]
  obtain cs1 where 1: "side_step (unat token) True mm0 (CancelSide token True mm0) [] cs1"
      "\<not> qs_active True (mm_quotes (CancelSide token True mm0) (unat token))"
    using CancelSide_step [OF c(1), of token True] c buffer_room by auto
  then have m: "mm_inv (CancelSide token True mm0)" "length (mm_cancels (CancelSide token True mm0)) \<le> 1"
    using c by (simp_all add: side_step_def)
  show ?thesis using 1 CancelSide_step [OF m(1) buffer_room(2) [OF m(2)], of token False] by blast
qed

lemma on_book_update_effect:
  assumes "mm_inv mm"
  shows "update_effect mm (on_book_update token book wall mm)"
proof -
  define mm0 where "mm0 = mm\<lparr>mm_pending := [], mm_cancels := []\<rparr>"
  note c = cleared [OF assms mm0_def]
  have "update_effect mm0 (on_book_update token book wall mm)"
  proof (cases "quoting_inputs token book (mm_now wall mm) mm")
    case None
    note idle = on_book_update_idle [OF mm0_def refl None]
    have "update_effect mm0 mm0" using c by (simp add: update_effect_def)
    moreover have "update_effect mm0 (CancelSide token False (CancelSide token True mm0))"
      using on_book_update_sweeps [OF assms mm0_def, of token] two_sides(1) [OF c(3,4)] by blast
    ultimately show ?thesis unfolding idle by (simp split: if_split)
  next
    case (Some touch)
    then show ?thesis using on_book_update_sides [OF assms mm0_def refl Some refl] two_sides(1) [OF c(3,4)] by blast
  qed
  then show ?thesis using c by (simp add: update_effect_def)
qed

text \<open>What is true of every order an update emits.\<close>

lemma on_book_update_orders:
  assumes "mm_inv mm" "ord \<in> set (mm_pending (on_book_update token book wall mm))"
  shows "\<exists>touch. quoting_inputs token book (mm_now wall mm) mm = Some touch \<and> o_token ord = token
    \<and> o_price ord = desired_price mm token touch (o_side ord) \<and> side_allowed mm token (o_side ord) (o_price ord)
    \<and> o_qty ord = mc_quote_lots (mm_cfg mm) * MarketMaking_LotSize mm token"
proof -
  define mm0 where "mm0 = mm\<lparr>mm_pending := [], mm_cancels := []\<rparr>"
  note c = cleared [OF assms(1) mm0_def]
  show ?thesis
  proof (cases "quoting_inputs token book (mm_now wall mm) mm")
    case None
    have "mm_pending (CancelSide token s m) = mm_pending m" for s m by (simp add: CancelSide_def EmitCancel_def Let_def)
    then show ?thesis using assms(2) c(3) on_book_update_idle [OF mm0_def refl None] by (auto split: if_splits)
  next
    case (Some touch)
    obtain mm1 ps1 cs1 ps2 cs2 where s: "side_step (unat token) True mm0 mm1 ps1 cs1"
        "side_step (unat token) False mm1 (on_book_update token book wall mm) ps2 cs2"
      and P: "\<forall>ord \<in> set (ps1 @ ps2). o_token ord = token \<and> o_price ord = desired_price mm token touch (o_side ord)
        \<and> side_allowed mm token (o_side ord) (o_price ord) \<and> o_qty ord = mc_quote_lots (mm_cfg mm) * MarketMaking_LotSize mm token"
      using on_book_update_sides [OF assms(1) mm0_def refl Some refl] by blast
    have "ord \<in> set (ps1 @ ps2)" using assms(2) two_sides(2) [OF c(3,4) s] by simp
    from bspec [OF P this] Some show ?thesis by blast
  qed
qed

subsection \<open>Fills and cancels\<close>

lemma on_fill_working:
  assumes "mm_inv mm"
  shows "mm_inv (MarketMaking_on_fill fill mm)"
    and "working (MarketMaking_on_fill fill mm) = (if f_remaining_qty fill = 0
      then {e \<in> working mm. \<not> (fst e = unat (f_token fill) \<and> entry_id e = f_client_order_id fill)} else working mm)"
proof -
  define t where "t = unat (f_token fill)"
  define mm' where "mm' = MarketMaking_on_fill fill mm"
  have nx: "mm_next_clordid mm' = mm_next_clordid mm" by (simp add: mm'_def MarketMaking_on_fill_def Let_def)
  have "(t', s, c, p) \<in> working mm' \<longleftrightarrow> (t', s, c, p) \<in> (if f_remaining_qty fill = 0
      then {e \<in> working mm. \<not> (fst e = t \<and> entry_id e = f_client_order_id fill)} else working mm)" for t' s c p
  proof (cases "t < kMaxTokens")
    case True
    then have "mm_quotes mm' = (mm_quotes mm)(t :=
        (let q = mm_quotes mm t; q = (if f_client_order_id fill = qs_clordid True q \<and> f_remaining_qty fill = 0 then qs_deactivate True q else q)
         in if f_client_order_id fill = qs_clordid False q \<and> f_remaining_qty fill = 0 then qs_deactivate False q else q))"
      by (auto simp: mm'_def MarketMaking_on_fill_def t_def qs_fields qs_off Let_def)
    then show ?thesis by (cases "t' = t"; cases s) (auto simp: in_working Let_def)
  next
    case False
    then have "mm' = mm" by (simp add: mm'_def MarketMaking_on_fill_def t_def)
    moreover have "t' \<noteq> t" if "(t', s, c, p) \<in> working mm" using mm_invD(1) [OF assms that] False by auto
    ultimately show ?thesis by auto
  qed
  then show w: "working (MarketMaking_on_fill fill mm) = (if f_remaining_qty fill = 0
      then {e \<in> working mm. \<not> (fst e = unat (f_token fill) \<and> entry_id e = f_client_order_id fill)} else working mm)"
    unfolding mm'_def t_def set_eq_iff split_paired_All by (intro allI)
  then show "mm_inv (MarketMaking_on_fill fill mm)"
    using nx by (intro mm_inv_shrink [OF assms]) (auto simp: mm'_def)
qed

lemma on_cancel_scan_working:
  assumes "mm_inv mm" "\<forall>e \<in> working mm. entry_id e = cid \<longrightarrow> fst e \<in> set ts"
  shows "working (on_cancel_scan cid ts mm) = {e \<in> working mm. entry_id e \<noteq> cid}"
    and "mm_next_clordid (on_cancel_scan cid ts mm) = mm_next_clordid mm"
    and "mm_pending (on_cancel_scan cid ts mm) = mm_pending mm"
proof -
  have "working (on_cancel_scan cid ts mm) = {e \<in> working mm. entry_id e \<noteq> cid}
    \<and> mm_next_clordid (on_cancel_scan cid ts mm) = mm_next_clordid mm \<and> mm_pending (on_cancel_scan cid ts mm) = mm_pending mm"
    using assms(2)
  proof (induction ts)
    case Nil
    then have "{e \<in> working mm. entry_id e \<noteq> cid} = working mm" by auto
    then show ?case by simp
  next
    case (Cons t ts)
    have hit: "working (mm\<lparr>mm_quotes := (mm_quotes mm)(t := qs_deactivate s (mm_quotes mm t))\<rparr>) = {e \<in> working mm. entry_id e \<noteq> cid}"
      if h: "qs_active s (mm_quotes mm t)" "qs_clordid s (mm_quotes mm t) = cid" for s
    proof (rule set_eqI, clarify)
      fix t' s' c p
      have w: "(t, s, cid, qs_price s (mm_quotes mm t)) \<in> working mm" using h by (simp add: in_working)
      have "c \<noteq> cid" if "(t', s', c, p) \<in> working mm" "(t', s') \<noteq> (t, s)"
        using mm_invD(4) [OF assms(1) w, of t' s' p] that by auto
      then show "(t', s', c, p) \<in> working (mm\<lparr>mm_quotes := (mm_quotes mm)(t := qs_deactivate s (mm_quotes mm t))\<rparr>) \<longleftrightarrow>
          (t', s', c, p) \<in> {e \<in> working mm. entry_id e \<noteq> cid}"
        using h by (cases "t' = t"; cases "s' = s") (auto simp: in_working)
    qed
    show ?case
    proof (cases "\<exists>s. qs_active s (mm_quotes mm t) \<and> qs_clordid s (mm_quotes mm t) = cid")
      case True
      then consider "qs_active True (mm_quotes mm t) \<and> qs_clordid True (mm_quotes mm t) = cid"
        | "\<not> (qs_active True (mm_quotes mm t) \<and> qs_clordid True (mm_quotes mm t) = cid)"
          "qs_active False (mm_quotes mm t) \<and> qs_clordid False (mm_quotes mm t) = cid"
        by (metis (full_types))
      then show ?thesis by cases (use hit [of True] hit [of False] in \<open>auto simp: qs_fields qs_off Let_def simp del: Collect_conj_eq\<close>)
    next
      case False
      then have "\<forall>e \<in> working mm. entry_id e = cid \<longrightarrow> fst e \<in> set ts"
        using Cons.prems by (auto simp: in_working)
      moreover have "on_cancel_scan cid (t # ts) mm = on_cancel_scan cid ts mm" using False by (auto simp: qs_fields Let_def)
      ultimately show ?thesis using Cons.IH by simp
    qed
  qed
  then show "working (on_cancel_scan cid ts mm) = {e \<in> working mm. entry_id e \<noteq> cid}"
    "mm_next_clordid (on_cancel_scan cid ts mm) = mm_next_clordid mm" "mm_pending (on_cancel_scan cid ts mm) = mm_pending mm" by blast+
qed

lemma on_cancel_working:
  assumes "mm_inv mm"
  shows "mm_inv (on_cancel cid r mm)" and "working (on_cancel cid r mm) = {e \<in> working mm. entry_id e \<noteq> cid}"
proof -
  have "\<forall>e \<in> working mm. entry_id e = cid \<longrightarrow> fst e \<in> set [0 ..< kMaxTokens]"
    using mm_invD(1) [OF assms] by auto
  note scan = on_cancel_scan_working [OF assms this]
  show "working (on_cancel cid r mm) = {e \<in> working mm. entry_id e \<noteq> cid}" unfolding on_cancel_def by (rule scan(1))
  show "mm_inv (on_cancel cid r mm)" unfolding on_cancel_def
    by (rule mm_inv_shrink [OF assms]) (simp_all only: scan(1,2), blast)
qed

subsection \<open>The ledger of an observer\<close>

datatype mm_op =
    MmUpdate Token OrderBook timespec
  | MmFill FillReport
  | MmCancel ClOrdId u8
  | MmNow Timestamp

fun mm_exec :: "mm_op \<Rightarrow> MarketMaking \<Rightarrow> MarketMaking" where
  "mm_exec (MmUpdate token book wall) mm = on_book_update token book wall mm"
| "mm_exec (MmFill fill) mm = MarketMaking_on_fill fill mm"
| "mm_exec (MmCancel cid r) mm = on_cancel cid r mm"
| "mm_exec (MmNow t) mm = MarketMaking_set_now t mm"

text \<open>What an observer of the strategy's messages records: every order it sends is resting until the
  strategy cancels it, it is filled completely, or the exchange reports it cancelled. The state of the
  strategy is consulted only for its two output buffers.\<close>

fun observe :: "mm_op \<Rightarrow> MarketMaking \<Rightarrow> ledger \<Rightarrow> ledger" where
  "observe (MmUpdate token book wall) mm' L = after_messages (mm_pending mm') (mm_cancels mm') L"
| "observe (MmFill fill) mm' L = (if f_remaining_qty fill = 0
     then {e \<in> L. \<not> (fst e = unat (f_token fill) \<and> entry_id e = f_client_order_id fill)} else L)"
| "observe (MmCancel cid r) mm' L = {e \<in> L. entry_id e \<noteq> cid}"
| "observe (MmNow t) mm' L = L"

fun observed :: "mm_op list \<Rightarrow> MarketMaking \<Rightarrow> ledger \<Rightarrow> ledger" where
  "observed [] mm L = L"
| "observed (op # ops) mm L = observed ops (mm_exec op mm) (observe op (mm_exec op mm) L)"

lemma mm_exec_step: "mm_inv mm \<Longrightarrow> mm_inv (mm_exec op mm) \<and> working (mm_exec op mm) = observe op (mm_exec op mm) (working mm)"
proof (cases op)
  case (MmUpdate token book wall)
  assume "mm_inv mm"
  then show ?thesis using on_book_update_effect [of mm token book wall] by (simp add: MmUpdate update_effect_def)
next
  case (MmFill fill)
  assume "mm_inv mm"
  then show ?thesis using on_fill_working [of mm fill] by (simp add: MmFill)
next
  case (MmCancel cid r)
  assume "mm_inv mm"
  then show ?thesis using on_cancel_working [of mm cid r] by (simp add: MmCancel)
next
  case (MmNow t)
  assume "mm_inv mm"
  then show ?thesis by (simp add: MmNow MarketMaking_set_now_def mm_inv_def working_def)
qed

interpretation mm: op_machine mm_exec mm_inv
  by unfold_locales (simp add: mm_exec_step)

lemma observed_working: "mm_inv mm \<Longrightarrow> observed ops mm (working mm) = working (fold mm_exec ops mm)"
proof (induction ops arbitrary: mm)
  case (Cons op ops)
  then show ?case using mm_exec_step [OF Cons.prems, of op] Cons.IH [of "mm_exec op mm"] by simp
qed simp

subsection \<open>Properties\<close>

lemma reachable_inv: "mm = fold mm_exec ops (MarketMaking_init symbols cfg) \<Longrightarrow> mm_inv mm"
  using mm.run_inv [OF mm_inv_init] by blast

lemma working_init: "working (MarketMaking_init symbols cfg) = {}"
  by (auto simp: in_working MarketMaking_init_def QuoteState_default_def qs_active_def split: if_splits)

text \<open>C23 At most one quote rests per instrument and side. An observer who records what the strategy
  sends and cancels, and the fills and cancellations it is told of, finds after every history
  exactly the quotes the strategy believes to be resting, and never two of them on the same side of
  the same token.\<close>

theorem one_quote_per_side:
  "observed ops (MarketMaking_init symbols cfg) {} = working (fold mm_exec ops (MarketMaking_init symbols cfg)) \<and>
   (\<exists>e. {e' \<in> observed ops (MarketMaking_init symbols cfg) {}. fst e' = t \<and> fst (snd e') = s} \<subseteq> {e})"
proof -
  define mm where "mm = fold mm_exec ops (MarketMaking_init symbols cfg)"
  have "{e \<in> working mm. fst e = t \<and> fst (snd e) = s} \<subseteq> {(t, s, qs_clordid s (mm_quotes mm t), qs_price s (mm_quotes mm t))}"
    by (auto simp: in_working)
  then show ?thesis using observed_working [OF mm_inv_init, of ops symbols cfg] unfolding working_init mm_def by blast
qed

text \<open>C24 Every order the strategy emits respects its rules: it is emitted within market hours and
  before 15:25, on a two-sided book whose spread is within the configured ticks, for the
  configured number of lots at the price the quoting arithmetic gives, inside the circuit band, and
  only on a side where the net position in lots has not reached its limit.\<close>

theorem quoting_discipline:
  assumes "mm = fold mm_exec ops (MarketMaking_init symbols cfg)" "now = mm_now wall mm"
    and "ord \<in> set (mm_pending (on_book_update token book wall mm))"
  shows "is_within_market_hours now \<and> now < preclose_cancel_ns now
     \<and> (\<exists>bid ask. best_bid book = Some bid \<and> best_ask book = Some ask
          \<and> pl_price ask - pl_price bid \<le> mc_max_spread_ticks (mm_cfg mm) * TickSize mm token
          \<and> o_price ord = desired_price mm token (bid, ask) (o_side ord))
     \<and> o_token ord = token \<and> o_qty ord = mc_quote_lots (mm_cfg mm) * MarketMaking_LotSize mm token
     \<and> side_allowed mm token (o_side ord) (o_price ord)"
proof -
  obtain touch where t: "quoting_inputs token book now mm = Some touch" "o_token ord = token"
      "o_price ord = desired_price mm token touch (o_side ord)" "side_allowed mm token (o_side ord) (o_price ord)"
      "o_qty ord = mc_quote_lots (mm_cfg mm) * MarketMaking_LotSize mm token"
    using on_book_update_orders [OF reachable_inv [OF assms(1)] assms(3)] assms(2) by blast
  then show ?thesis by (cases touch) (auto simp: quoting_inputs_def split: if_splits option.splits)
qed

lemma sweep_effect:
  assumes inv: "mm_inv mm" and "preclose_cancel_ns (mm_now wall mm) \<le> mm_now wall mm"
    and "unat token < kMaxTokens" "mm' = on_book_update token book wall mm"
  shows "mm_pending mm' = [] \<and> {e \<in> working mm'. fst e = unat token} = {}
     \<and> entry_id ` {e \<in> working mm. fst e = unat token} \<subseteq> set (mm_cancels mm')"
proof -
  define mm0 where "mm0 = mm\<lparr>mm_pending := [], mm_cancels := []\<rparr>"
  note c = cleared [OF inv mm0_def]
  have "quoting_inputs token book (mm_now wall mm) mm = None" using assms(2) by (auto simp: quoting_inputs_def)
  then have eq: "mm' = CancelSide token False (CancelSide token True mm0)"
    using on_book_update_idle [OF mm0_def refl] assms(2-4) by simp
  obtain mm1 cs1 cs2 where s: "side_step (unat token) True mm0 mm1 [] cs1" "side_step (unat token) False mm1 mm' [] cs2"
      and off: "\<not> qs_active True (mm_quotes mm1 (unat token))" "\<not> qs_active False (mm_quotes mm' (unat token))"
    using on_book_update_sweeps [OF inv mm0_def] unfolding eq by blast
  have sub: "working mm' \<subseteq> working mm1" using s(2) by (auto simp: side_step_def after_messages_def)
  have gone: "(unat token, sd, cid, p) \<notin> working mm'" for sd cid p
  proof
    assume e: "(unat token, sd, cid, p) \<in> working mm'"
    then have "(unat token, sd, cid, p) \<in> working mm1" by (rule subsetD [OF sub])
    then have "qs_active sd (mm_quotes mm1 (unat token))" "qs_active sd (mm_quotes mm' (unat token))"
      using e unfolding in_working by simp_all
    then show False using off by (cases sd) simp_all
  qed
  have p: "mm_pending mm' = []" using two_sides(2) [OF c(3,4) s] by simp
  have w: "working mm' = {e \<in> working mm. entry_id e \<notin> set (mm_cancels mm')}"
    using two_sides(1) [OF c(3,4) s] p c(2) by (simp add: update_effect_def after_messages_def)
  have none: "{e \<in> working mm'. fst e = unat token} = {}" using gone by auto
  then have "entry_id e \<in> set (mm_cancels mm')" if "e \<in> working mm" "fst e = unat token" for e
    using that w by blast
  then show ?thesis using p none by blast
qed

text \<open>The pre-close sweep empties the market: an update at or after 15:25 sends no order, cancels
  what rests on the token, and leaves no quote working there.\<close>

theorem preclose_sweep:
  assumes "mm = fold mm_exec ops (MarketMaking_init symbols cfg)" "preclose_cancel_ns (mm_now wall mm) \<le> mm_now wall mm"
    and "unat token < kMaxTokens" "mm' = on_book_update token book wall mm"
  shows "mm_pending mm' = [] \<and> {e \<in> working mm'. fst e = unat token} = {}
     \<and> entry_id ` {e \<in> working mm. fst e = unat token} \<subseteq> set (mm_cancels mm')"
  using sweep_effect [OF reachable_inv [OF assms(1)] assms(2-4)] .

definition example_book :: OrderBook where
  "example_book = \<lparr>ob_token = 7, ob_tick_size = 1, ob_order_mask = 3, ob_orders = (\<lambda>_. OrderRecord_default),
     ob_bids = (\<lambda>_. \<lparr>pl_price = 10000, pl_total_quantity = 50, pl_order_count = 1\<rparr>),
     ob_asks = (\<lambda>_. \<lparr>pl_price = 10002, pl_total_quantity = 50, pl_order_count = 1\<rparr>),
     ob_bid_count = 1, ob_ask_count = 1, ob_expected_seq = 0, ob_stale = False, ob_gap_count = 0\<rparr>"

definition example_maker :: MarketMaking where
  "example_maker = fold mm_exec [MmNow 40000000000000] (MarketMaking_init None MarketMakingConfig_default)"

lemma example_maker_fields:
  "mm_symbols example_maker = None" "mm_cfg example_maker = MarketMakingConfig_default"
  "mm_quotes example_maker = (\<lambda>_. QuoteState_default)" "mm_position example_maker = (\<lambda>_. 0)"
  "mm_next_clordid example_maker = 1" "mm_now (0, 0) example_maker = 40000000000000" "mm_pending example_maker = []"
  by (simp_all add: example_maker_def MarketMaking_init_def MarketMaking_set_now_def mm_now_def)

lemma example_session:
  "is_within_market_hours 40000000000000" "preclose_cancel_ns 40000000000000 = 55500000000000"
  by (simp_all add: is_within_market_hours_def session_offsets ist_midnight_ns_def kNsPerDay_def kNsPerSecond_def)

lemma example_quotes:
  "mm_pending (on_book_update 7 example_book (0, 0) example_maker) =
     [quote_order 7 True 9999 1 40000000000000 example_maker,
      quote_order 7 False 10003 1 40000000000000 (example_maker\<lparr>mm_next_clordid := 2\<rparr>)]"
proof -
  let ?touch = "(\<lparr>pl_price = 10000, pl_total_quantity = 50, pl_order_count = 1\<rparr>, \<lparr>pl_price = 10002, pl_total_quantity = 50, pl_order_count = 1\<rparr>)"
  have "quoting_inputs 7 example_book 40000000000000 example_maker = Some ?touch"
    using example_session by (simp add: quoting_inputs_def kMaxTokens_def best_bid_def best_ask_def example_book_def TickSize_def
        example_maker_fields MarketMakingConfig_default_def)
  note upd = on_book_update_quotes [OF refl example_maker_fields(6) [symmetric] this]
  have "desired_price example_maker 7 ?touch True = 9999" "desired_price example_maker 7 ?touch False = 10003"
    "MarketMaking_LotSize example_maker 7 = 1" "mc_quote_lots (mm_cfg example_maker) = 1"
    "side_allowed example_maker 7 True 9999" "side_allowed example_maker 7 False 10003"
    by (simp_all add: desired_price_def ComputeDesired_def desired_quotes_def inventory_skew_ticks_def flow_skew_ticks_def
        side_allowed_def TickSize_def MarketMaking_LotSize_def MarketMaking_PriceBand_def example_maker_fields MarketMakingConfig_default_def)
  then show ?thesis unfolding upd
    by (simp add: QuoteOneSide_def EmitNew_def quote_order_def kMaxPending_def example_maker_fields QuoteState_default_def
        qs_active_def qs_activate_def Let_def)
qed

lemma example_update:
  "quote_order 7 True 9999 1 40000000000000 example_maker \<in> set (mm_pending (on_book_update 7 example_book (0, 0) example_maker))"
  by (simp add: example_quotes)

theorem quoting_discipline_witness:
  "let ord = quote_order 7 True 9999 1 40000000000000 example_maker
   in ord \<in> set (mm_pending (on_book_update 7 example_book (0, 0) example_maker))
      \<and> side_allowed example_maker 7 True (o_price ord) \<and> o_qty ord = 1"
proof -
  have "o_qty (quote_order 7 True 9999 1 40000000000000 example_maker) = 1"
    "o_side (quote_order 7 True 9999 1 40000000000000 example_maker)" by (simp_all add: quote_order_def)
  then show ?thesis
    using quoting_discipline [OF example_maker_def example_maker_fields(6) [symmetric] example_update] example_update by (simp add: Let_def)
qed

theorem one_quote_per_side_witness:
  "let ops = [MmNow 40000000000000, MmUpdate 7 example_book (0, 0)]; L = observed ops (MarketMaking_init None MarketMakingConfig_default) {}
   in (7, True, 1, 9999) \<in> L \<and> (7, False, 2, 10003) \<in> L \<and> L = working (fold mm_exec ops (MarketMaking_init None MarketMakingConfig_default))"
proof -
  let ?ops = "[MmNow 40000000000000, MmUpdate 7 example_book (0, 0)]"
  have "order_entry (quote_order 7 True 9999 1 40000000000000 example_maker) = (7, True, 1, 9999)"
    "order_entry (quote_order 7 False 10003 1 40000000000000 (example_maker\<lparr>mm_next_clordid := 2\<rparr>)) = (7, False, 2, 10003)"
    by (simp_all add: order_entry_def quote_order_def example_maker_fields)
  then have "(7, True, 1, 9999) \<in> observed ?ops (MarketMaking_init None MarketMakingConfig_default) {}"
    "(7, False, 2, 10003) \<in> observed ?ops (MarketMaking_init None MarketMakingConfig_default) {}"
    using example_quotes by (auto simp: after_messages_def example_maker_def)
  then show ?thesis using one_quote_per_side [of ?ops None MarketMakingConfig_default] by (simp only: Let_def simp_thms)
qed

theorem preclose_sweep_witness:
  "let mm = fold mm_exec [MmNow 40000000000000, MmUpdate 7 example_book (0, 0), MmNow 55500000000000]
         (MarketMaking_init None MarketMakingConfig_default);
       mm' = on_book_update 7 example_book (0, 0) mm
   in preclose_cancel_ns (mm_now (0, 0) mm) \<le> mm_now (0, 0) mm \<and> mm_pending mm' = [] \<and> {e \<in> working mm'. fst e = 7} = {}"
proof -
  let ?mm = "fold mm_exec [MmNow 40000000000000, MmUpdate 7 example_book (0, 0), MmNow 55500000000000]
      (MarketMaking_init None MarketMakingConfig_default)"
  have "mm_now (0, 0) ?mm = 55500000000000" by (simp add: MarketMaking_set_now_def mm_now_def)
  then have late: "preclose_cancel_ns (mm_now (0, 0) ?mm) \<le> mm_now (0, 0) ?mm"
    by (simp add: session_offsets ist_midnight_ns_def kNsPerDay_def kNsPerSecond_def)
  then show ?thesis using preclose_sweep [OF refl late, of 7 _ example_book] by (simp add: kMaxTokens_def Let_def)
qed

end
