(* ===== verification/Pipeline.thy ===== *)
theory Pipeline
  imports Market_Making Risk_Manager Order_Manager
begin

text \<open>
  \<^verbatim>\<open>src/pipeline.hpp\<close>: the tick-to-trade path. One event goes through the token's book, the strategy,
  the risk manager and the order manager, whose models the pipeline's state contains: the four
  pointers of the class are the four objects themselves.

  The counters and clocks of the machine are arguments: a call of \<open>process\<close> may read the real-time
  clock several times, so \<open>ck_wall\<close> gives each reading by its number, the first being the strategy's
  and then two for every order, of the risk check and of the time stamp. The message buffer keeps
  the bytes of the last encoded order; \<open>pp_sent_orders\<close> is the filled part of the array of sent orders.
\<close>

subsection \<open>Data\<close>

record PipelineStats =
  ps_events :: u64
  ps_orders_generated :: u64
  ps_orders_approved :: u64
  ps_orders_rejected :: u64
  ps_orders_sent :: u64

definition PipelineStats_default :: PipelineStats where
  "PipelineStats_default = \<lparr>ps_events = 0, ps_orders_generated = 0, ps_orders_approved = 0, ps_orders_rejected = 0,
     ps_orders_sent = 0\<rparr>"

record Pipeline =
  pp_books :: BookManager
  pp_strat :: MarketMaking
  pp_risk :: RiskManager
  pp_om :: OrderManager
  pp_tick_to_trade :: LatencyTracker
  pp_stats :: PipelineStats
  pp_now_ns :: Timestamp
  pp_msg_buf :: "u8 list"
  pp_last_msg_len :: nat
  pp_sent_orders :: "Order list"

definition kMaxSent :: nat where
  "kMaxSent = 16"

definition Pipeline_init :: "BookManager \<Rightarrow> MarketMaking \<Rightarrow> RiskManager \<Rightarrow> OrderManager \<Rightarrow> u8 list \<Rightarrow> Pipeline" where
  "Pipeline_init books strat risk om memory = \<lparr>pp_books = books, pp_strat = strat, pp_risk = risk, pp_om = om,
     pp_tick_to_trade = LatencyTracker_init 1000000, pp_stats = PipelineStats_default, pp_now_ns = 0,
     pp_msg_buf = memory, pp_last_msg_len = 0, pp_sent_orders = []\<rparr>"

record Clocks =
  ck_wall :: "nat \<Rightarrow> timespec"
  ck_t0 :: u64
  ck_t5 :: u64
  ck_ticks_per_ns :: rat

subsection \<open>Operations\<close>

definition Pipeline_set_now :: "Timestamp \<Rightarrow> Pipeline \<Rightarrow> Pipeline" where
  "Pipeline_set_now ist_ns p = p\<lparr>pp_now_ns := ist_ns, pp_strat := MarketMaking_set_now ist_ns (pp_strat p),
     pp_risk := RiskManager_set_now ist_ns (pp_risk p)\<rparr>"

definition send_stamp :: "timespec \<Rightarrow> Pipeline \<Rightarrow> Timestamp" where
  "send_stamp wall p = (if pp_now_ns p \<noteq> 0 then pp_now_ns p else ist_now_ns wall)"

text \<open>One round of the loop over the strategy's orders: the check, the counters and the order manager.\<close>

definition send_one :: "timespec \<Rightarrow> timespec \<Rightarrow> Order \<Rightarrow> nat \<times> Pipeline \<Rightarrow> (nat \<times> Pipeline) option" where
  "send_one wall1 wall2 ord = (\<lambda>(sent, p).
     do { (reason, risk) \<leftarrow> check ord wall1 (pp_risk p);
          let p = p\<lparr>pp_risk := risk\<rparr>;
          if reason \<noteq> kApproved
          then Some (sent, p\<lparr>pp_stats := (pp_stats p)\<lparr>ps_orders_rejected := ps_orders_rejected (pp_stats p) + 1\<rparr>\<rparr>)
          else do { let p = p\<lparr>pp_stats := (pp_stats p)\<lparr>ps_orders_approved := ps_orders_approved (pp_stats p) + 1\<rparr>\<rparr>;
                    (len, ord, buf, om) \<leftarrow> new_order (pp_om p) ord (pp_msg_buf p) (send_stamp wall2 p) 79;
                    let p = p\<lparr>pp_om := om, pp_msg_buf := buf\<rparr>;
                    if len > 0
                    then Some (sent + 1, p\<lparr>
                      pp_stats := (pp_stats p)\<lparr>ps_orders_sent := ps_orders_sent (pp_stats p) + 1\<rparr>,
                      pp_last_msg_len := len,
                      pp_sent_orders := (if length (pp_sent_orders p) < kMaxSent then pp_sent_orders p @ [ord]
                                         else pp_sent_orders p)\<rparr>)
                    else Some (sent, p) } })"

fun send_orders :: "(nat \<Rightarrow> timespec) \<Rightarrow> nat \<Rightarrow> Order list \<Rightarrow> nat \<times> Pipeline \<Rightarrow> (nat \<times> Pipeline) option" where
  "send_orders wall k [] s = Some s"
| "send_orders wall k (ord # ords) s =
     do { s' \<leftarrow> send_one (wall k) (wall (k + 1)) ord s; send_orders wall (k + 2) ords s' }"

definition touch_price :: "PriceLevel option \<Rightarrow> Price" where
  "touch_price l = (case l of None \<Rightarrow> 0 | Some l \<Rightarrow> pl_price l)"

definition process :: "Clocks \<Rightarrow> MarketEvent \<Rightarrow> Pipeline \<Rightarrow> (nat \<times> Pipeline) option" where
  "process ck ev p =
     (let p = p\<lparr>pp_stats := (pp_stats p)\<lparr>ps_events := ps_events (pp_stats p) + 1\<rparr>\<rparr>
      in case get_book (me_token ev) (pp_books p) of
           None \<Rightarrow> Some (0, p)
         | Some b \<Rightarrow>
             do { (res, book) \<leftarrow> apply_event ev b;
                  let p = p\<lparr>pp_books := (pp_books p)\<lparr>bm_slots := (bm_slots (pp_books p))(unat (me_token ev) \<mapsto> book)\<rparr>,
                            pp_risk := update_reference (me_token ev) (touch_price (best_bid book))
                              (touch_price (best_ask book)) (pp_risk p),
                            pp_strat := on_book_update (me_token ev) book (ck_wall ck 0) (pp_strat p)\<rparr>;
                  let orders = mm_pending (pp_strat p);
                  if orders = [] then Some (0, p)
                  else do { let p = p\<lparr>pp_stats := (pp_stats p)\<lparr>ps_orders_generated :=
                                        ps_orders_generated (pp_stats p) + of_nat (length orders)\<rparr>,
                                      pp_sent_orders := []\<rparr>;
                            (sent, p) \<leftarrow> send_orders (ck_wall ck) 1 orders (0, p);
                            if sent > 0
                            then Some (sent, p\<lparr>pp_tick_to_trade :=
                              record_sample (to_ns (ck_ticks_per_ns ck) (ck_t5 ck - ck_t0 ck)) (pp_tick_to_trade p)\<rparr>)
                            else Some (sent, p) } })"

definition Pipeline_on_fill :: "FillReport \<Rightarrow> Pipeline \<Rightarrow> Pipeline" where
  "Pipeline_on_fill fill p = p\<lparr>pp_strat := MarketMaking_on_fill fill (pp_strat p),
     pp_risk := RiskManager_on_fill fill (pp_risk p), pp_om := snd (OrderManager_on_fill fill (pp_om p))\<rparr>"

definition last_sent :: "Pipeline \<Rightarrow> Order list" where
  "last_sent p = pp_sent_orders p"

text \<open>The operations of the pipeline and those its clients call on the objects it shares.\<close>

datatype pipe_op =
    PipeNow Timestamp
  | PipeEvent Clocks MarketEvent
  | PipeFill FillReport
  | PipeReply om_op
  | PipeCancelled ClOrdId u8
  | PipeKill bool

fun pipe_exec :: "pipe_op \<Rightarrow> Pipeline \<Rightarrow> Pipeline" where
  "pipe_exec (PipeNow t) p = Pipeline_set_now t p"
| "pipe_exec (PipeEvent ck ev) p = (case process ck ev p of None \<Rightarrow> p | Some (n, p') \<Rightarrow> p')"
| "pipe_exec (PipeFill fill) p = Pipeline_on_fill fill p"
| "pipe_exec (PipeReply op) p = p\<lparr>pp_om := om_exec op (pp_om p)\<rparr>"
| "pipe_exec (PipeCancelled c r) p = p\<lparr>pp_strat := on_cancel c r (pp_strat p)\<rparr>"
| "pipe_exec (PipeKill on) p = p\<lparr>pp_risk := set_kill_switch on (pp_risk p)\<rparr>"

subsection \<open>The loop over the orders\<close>

definition limiter_frame :: "RiskManager \<Rightarrow> RiskManager \<Rightarrow> bool" where
  "limiter_frame rm rm' \<longleftrightarrow> (\<exists>n t. rm' = rm\<lparr>rm_tokens := n, rm_last_refill_ns := t\<rparr>)"

lemma limiter_frame_refl: "limiter_frame rm rm"
  unfolding limiter_frame_def by (intro exI [of _ "rm_tokens rm"] exI [of _ "rm_last_refill_ns rm"]) simp

lemma limiter_frame_fields:
  assumes "limiter_frame rm rm'"
  shows "rm_cfg rm' = rm_cfg rm" "rm_position rm' = rm_position rm" "rm_ref_bid rm' = rm_ref_bid rm" "rm_ref_ask rm' = rm_ref_ask rm"
    "rm_sim_now_ns rm' = rm_sim_now_ns rm" "kill_switch_active rm' = kill_switch_active rm" "risk_now wall rm' = risk_now wall rm"
    "within_limits rm' now ord = within_limits rm now ord" "rm_symbols rm' = rm_symbols rm" "rm_cashflow_paisa rm' = rm_cashflow_paisa rm"
  using assms by (auto simp: limiter_frame_def kill_switch_active_def risk_now_def within_limits_def
      RiskManager_LotSize_def RiskManager_PriceBand_def)

lemma limiter_frame_trans: "limiter_frame rm rm' \<Longrightarrow> limiter_frame rm' rm'' \<Longrightarrow> limiter_frame rm rm''"
  unfolding limiter_frame_def by (elim exE) (simp, blast)

lemma check_approves:
  assumes "unat (o_token ord) < kSymbolTableSize" "0 \<le> rc_max_cm_notional_inr (rm_cfg rm)"
  shows "\<exists>r rm'. check ord wall rm = Some (r, rm') \<and> limiter_frame rm rm'
    \<and> (r = kApproved \<longrightarrow> within_limits rm (risk_now wall rm) ord \<and> \<not> kill_switch_active rm)"
proof -
  obtain r rm' where c: "check ord wall rm = Some (r, rm')" "r = kApproved \<longrightarrow> within_limits rm (risk_now wall rm) ord"
    using check_gate [OF assms refl] by blast
  have "limiter_frame rm rm'" unfolding limiter_frame_def using check_frame [OF c(1)] by blast
  then show ?thesis using c by (auto simp: within_limits_def Let_def)
qed

text \<open>The state of the loop after the orders \<open>done\<close>, from the state \<open>p0\<close> before it: what was sent
  passed the risk check and is recorded as pending, what was live before stays, and every order is
  counted as approved or rejected.\<close>

definition order_gated :: "Pipeline \<Rightarrow> (nat \<Rightarrow> timespec) \<Rightarrow> Order \<Rightarrow> bool" where
  "order_gated p wall ord \<longleftrightarrow> (\<exists>k. within_limits (pp_risk p) (risk_now (wall k) (pp_risk p)) ord)
     \<and> om_get (pp_om p) (o_client_order_id ord) = Some (pending ord)"

definition tables_kept :: "OrderManager \<Rightarrow> OrderManager \<Rightarrow> bool" where
  "tables_kept om om' \<longleftrightarrow> om_inv om' \<and> om_encoder om' = om_encoder om
     \<and> (\<forall>i. lo_occupied (om_table om i) \<longrightarrow> om_table om' i = om_table om i)"

definition counted :: "nat \<Rightarrow> nat \<Rightarrow> PipelineStats \<Rightarrow> PipelineStats \<Rightarrow> bool" where
  "counted n sent st st' \<longleftrightarrow> (\<exists>a \<le> n. sent \<le> a \<and> st' = st\<lparr>ps_orders_approved := ps_orders_approved st + of_nat a,
     ps_orders_rejected := ps_orders_rejected st + of_nat (n - a), ps_orders_sent := ps_orders_sent st + of_nat sent\<rparr>)"

definition sending :: "Pipeline \<Rightarrow> (nat \<Rightarrow> timespec) \<Rightarrow> Order list \<Rightarrow> nat \<times> Pipeline \<Rightarrow> bool" where
  "sending p0 wall done s \<longleftrightarrow> (case s of (sent, p) \<Rightarrow>
     pp_books p = pp_books p0 \<and> pp_strat p = pp_strat p0 \<and> pp_now_ns p = pp_now_ns p0 \<and> limiter_frame (pp_risk p0) (pp_risk p)
     \<and> tables_kept (pp_om p0) (pp_om p) \<and> length (pp_msg_buf p) = kNnfMaxMsg
     \<and> length (pp_sent_orders p) = sent \<and> set (pp_sent_orders p) \<subseteq> set done
     \<and> (\<forall>ord \<in> set (pp_sent_orders p). order_gated p wall ord)
     \<and> counted (length done) sent (pp_stats p0) (pp_stats p)
     \<and> (kill_switch_active (pp_risk p0) \<longrightarrow> sent = 0 \<and> pp_om p = pp_om p0 \<and> pp_msg_buf p = pp_msg_buf p0))"

lemma counted_reject: "counted n sent st st' \<Longrightarrow>
    counted (Suc n) sent st (st'\<lparr>ps_orders_rejected := ps_orders_rejected st' + 1\<rparr>)"
  unfolding counted_def by (elim exE conjE) (rule_tac x = a in exI, simp add: Suc_diff_le)

lemma counted_approve: "counted n sent st st' \<Longrightarrow> k \<le> 1 \<Longrightarrow>
    counted (Suc n) (sent + k) st (st'\<lparr>ps_orders_approved := ps_orders_approved st' + 1, ps_orders_sent := ps_orders_sent st' + of_nat k\<rparr>)"
  unfolding counted_def by (elim exE conjE) (rule_tac x = "Suc a" in exI, simp)

lemma tables_kept_trans: "tables_kept om om' \<Longrightarrow> tables_kept om' om'' \<Longrightarrow> tables_kept om om''"
  unfolding tables_kept_def by metis

lemma new_order_outcome:
  assumes "om_inv om" "encoder_ok (om_encoder om)" "length buf = kNnfMaxMsg" "0 < o_client_order_id ord"
  shows "\<exists>n buf' om'. new_order om ord buf t oc = Some (n, ord, buf', om') \<and> length buf' = kNnfMaxMsg
    \<and> tables_kept om om' \<and> (n > 0 \<longrightarrow> om_get om' (o_client_order_id ord) = Some (pending ord))"
proof -
  define i where "i = Index (o_client_order_id ord)"
  obtain n buf' om' where eq: "new_order om ord buf t oc = Some (n, ord, buf', om')"
    using encode_new_order_returns [OF assms(2), of buf ord t oc] assms(3,4)
    by (fastforce simp: new_order_def kNnfMaxMsg_def Let_def)
  note c = new_order_cases [OF assms(1) eq] and inv = om_inv_new [OF assms(1) eq]
  show ?thesis
  proof (cases "lo_occupied (om_table om i)")
    case True
    then have "tables_kept om om'" "n = 0" "buf' = buf" using c inv by (simp_all add: i_def tables_kept_def)
    then show ?thesis using eq assms(3) by simp
  next
    case False
    then have t: "om_table om' = (om_table om)(i := pending ord)" "om_encoder om' = om_encoder om"
        "encode_new_order (om_encoder om) buf ord t oc = Some (n, buf')" using c by (simp_all add: i_def)
    then have "length buf' = kNnfMaxMsg"
      using encode_new_order_returns [OF assms(2), of buf ord t oc] assms(3) by (simp add: kNnfMaxMsg_def)
    moreover have "tables_kept om om'" using False inv by (simp add: tables_kept_def t)
    moreover have "om_get om' (o_client_order_id ord) = Some (pending ord)"
      unfolding om_get_Some by (simp add: t i_def [symmetric] pending_def)
    ultimately show ?thesis using eq by blast
  qed
qed

lemma order_gated_step:
  assumes "order_gated p wall ord" "limiter_frame (pp_risk p) (pp_risk p')" "tables_kept (pp_om p) (pp_om p')"
  shows "order_gated p' wall ord"
proof -
  have "om_table (pp_om p) (Index (o_client_order_id ord)) = pending ord"
    using assms(1) unfolding order_gated_def om_get_Some by simp
  then have "om_table (pp_om p') (Index (o_client_order_id ord)) = pending ord"
    using assms(3) by (simp add: tables_kept_def pending_def)
  then have "om_get (pp_om p') (o_client_order_id ord) = Some (pending ord)" unfolding om_get_Some by (simp add: pending_def)
  then show ?thesis using assms(1) limiter_frame_fields [OF assms(2)] by (simp add: order_gated_def)
qed

lemma send_stamp_upd [simp]:
  "send_stamp w (p\<lparr>pp_risk := rm\<rparr>) = send_stamp w p" "send_stamp w (p\<lparr>pp_stats := st\<rparr>) = send_stamp w p"
  by (simp_all add: send_stamp_def)

lemma send_one_cases:
  assumes "check ord w1 (pp_risk p) = Some (r, rm)" "new_order (pp_om p) ord (pp_msg_buf p) (send_stamp w2 p) 79 = Some (n, ord', buf, om)"
  shows "send_one w1 w2 ord (sent, p) = Some (
    if r \<noteq> kApproved
    then (sent, p\<lparr>pp_risk := rm, pp_stats := (pp_stats p)\<lparr>ps_orders_rejected := ps_orders_rejected (pp_stats p) + 1\<rparr>\<rparr>)
    else if n = 0
    then (sent, p\<lparr>pp_risk := rm, pp_om := om, pp_msg_buf := buf,
      pp_stats := (pp_stats p)\<lparr>ps_orders_approved := ps_orders_approved (pp_stats p) + 1\<rparr>\<rparr>)
    else (sent + 1, p\<lparr>pp_risk := rm, pp_om := om, pp_msg_buf := buf, pp_last_msg_len := n,
      pp_stats := (pp_stats p)\<lparr>ps_orders_approved := ps_orders_approved (pp_stats p) + 1, ps_orders_sent := ps_orders_sent (pp_stats p) + 1\<rparr>,
      pp_sent_orders := (if length (pp_sent_orders p) < kMaxSent then pp_sent_orders p @ [ord'] else pp_sent_orders p)\<rparr>))"
  using assms by (simp add: send_one_def Let_def)

lemma sending_step:
  assumes "sending p0 wall done (sent, p)" "0 < o_client_order_id ord" "unat (o_token ord) < kSymbolTableSize"
    and "0 \<le> rc_max_cm_notional_inr (rm_cfg (pp_risk p0))" "encoder_ok (om_encoder (pp_om p0))" "length done < kMaxSent"
  shows "\<exists>s. send_one (wall k) w2 ord (sent, p) = Some s \<and> sending p0 wall (done @ [ord]) s"
proof -
  note I = assms(1) [unfolded sending_def split_conv]
  have fr: "limiter_frame (pp_risk p0) (pp_risk p)" and kept: "tables_kept (pp_om p0) (pp_om p)"
    and buf: "length (pp_msg_buf p) = kNnfMaxMsg" and cnt: "counted (length done) sent (pp_stats p0) (pp_stats p)"
    and len: "length (pp_sent_orders p) = sent" using I by simp_all
  note ff = limiter_frame_fields [OF fr]
  obtain r rm where c: "check ord (wall k) (pp_risk p) = Some (r, rm)" "limiter_frame (pp_risk p) rm"
      "r = kApproved \<longrightarrow> within_limits (pp_risk p) (risk_now (wall k) (pp_risk p)) ord \<and> \<not> kill_switch_active (pp_risk p)"
    using check_approves [OF assms(3), of "pp_risk p" "wall k"] assms(4) ff(1) by auto
  obtain n buf' om where o: "new_order (pp_om p) ord (pp_msg_buf p) (send_stamp w2 p) 79 = Some (n, ord, buf', om)"
      "length buf' = kNnfMaxMsg" "tables_kept (pp_om p) om" "n > 0 \<longrightarrow> om_get om (o_client_order_id ord) = Some (pending ord)"
    using new_order_outcome [of "pp_om p" "pp_msg_buf p" ord "send_stamp w2 p" 79] kept assms(2,5) buf
    by (auto simp: tables_kept_def)
  note fr' = limiter_frame_trans [OF fr c(2)] and kept' = tables_kept_trans [OF kept o(3)]
  have sub: "sent \<le> length done" using cnt by (auto simp: counted_def)
  have g: "order_gated p' wall x" if "x \<in> set (pp_sent_orders p)" "pp_risk p' = rm" "pp_om p' = om \<or> pp_om p' = pp_om p" for x p'
    using I that order_gated_step [of p wall x p'] c(2) o(3) kept by (auto simp: tables_kept_def)
  have g': "order_gated p' wall ord" if "r = kApproved" "n > 0" "pp_risk p' = rm" "pp_om p' = om" for p'
    using c(3) o(4) that limiter_frame_fields [OF c(2)] unfolding order_gated_def by auto
  consider "r \<noteq> kApproved" | "r = kApproved" "n = 0" | "r = kApproved" "n > 0" by auto
  then show ?thesis
  proof cases
    case 1
    then show ?thesis unfolding send_one_cases [OF c(1) o(1)] sending_def
      using I fr' g counted_reject [OF cnt] by auto
  next
    case 2
    then show ?thesis unfolding send_one_cases [OF c(1) o(1)] sending_def
      using I fr' kept' g o(2) c(3) ff(6) counted_approve [OF cnt, of 0] by auto
  next
    case 3
    then show ?thesis unfolding send_one_cases [OF c(1) o(1)] sending_def
      using I fr' kept' g g' o(2) c(3) ff(6) counted_approve [OF cnt, of 1] sub assms(6) by auto
  qed
qed

lemma sending_all:
  assumes "sending p0 wall done s" "\<forall>ord \<in> set ords. 0 < o_client_order_id ord \<and> unat (o_token ord) < kSymbolTableSize"
    and "0 \<le> rc_max_cm_notional_inr (rm_cfg (pp_risk p0))" "encoder_ok (om_encoder (pp_om p0))" "length (done @ ords) \<le> kMaxSent"
  shows "\<exists>s'. send_orders wall k ords s = Some s' \<and> sending p0 wall (done @ ords) s'"
  using assms(1,2,5)
proof (induction ords arbitrary: k s "done")
  case (Cons ord ords)
  obtain sent p where s: "s = (sent, p)" by (cases s)
  obtain s1 where s1: "send_one (wall k) (wall (k + 1)) ord s = Some s1" "sending p0 wall (done @ [ord]) s1"
    using sending_step [OF Cons.prems(1) [unfolded s] _ _ assms(3,4), of ord k "wall (k + 1)"] Cons.prems(2,3) s by auto
  then show ?case using Cons.IH [OF s1(2), of "k + 2"] Cons.prems(2,3) by simp
qed simp

subsection \<open>One event\<close>

definition pipe_inv :: "Pipeline \<Rightarrow> bool" where
  "pipe_inv p \<longleftrightarrow> mm_inv (pp_strat p) \<and> om_inv (pp_om p) \<and> encoder_ok (om_encoder (pp_om p))
     \<and> length (pp_msg_buf p) = kNnfMaxMsg \<and> 0 \<le> rc_max_cm_notional_inr (rm_cfg (pp_risk p))
     \<and> mm_sim_now_ns (pp_strat p) = pp_now_ns p \<and> rm_sim_now_ns (pp_risk p) = pp_now_ns p"

text \<open>The pipeline after the book, the price references and the strategy have seen the event.\<close>

definition updated :: "Clocks \<Rightarrow> MarketEvent \<Rightarrow> OrderBook \<Rightarrow> Pipeline \<Rightarrow> Pipeline" where
  "updated ck ev book p = p\<lparr>
     pp_stats := (pp_stats p)\<lparr>ps_events := ps_events (pp_stats p) + 1\<rparr>,
     pp_books := (pp_books p)\<lparr>bm_slots := (bm_slots (pp_books p))(unat (me_token ev) \<mapsto> book)\<rparr>,
     pp_risk := update_reference (me_token ev) (touch_price (best_bid book)) (touch_price (best_ask book)) (pp_risk p),
     pp_strat := on_book_update (me_token ev) book (ck_wall ck 0) (pp_strat p)\<rparr>"

definition with_orders :: "Pipeline \<Rightarrow> Pipeline" where
  "with_orders p = p\<lparr>pp_stats := (pp_stats p)\<lparr>ps_orders_generated :=
       ps_orders_generated (pp_stats p) + of_nat (length (mm_pending (pp_strat p)))\<rparr>, pp_sent_orders := []\<rparr>"

lemma process_watched:
  assumes "get_book (me_token ev) (pp_books p) = Some b" "apply_event ev b = Some (res, book)" "p1 = updated ck ev book p"
  shows "process ck ev p =
    (if mm_pending (pp_strat p1) = [] then Some (0, p1)
     else do { (sent, p2) \<leftarrow> send_orders (ck_wall ck) 1 (mm_pending (pp_strat p1)) (0, with_orders p1);
               if sent > 0 then Some (sent, p2\<lparr>pp_tick_to_trade :=
                   record_sample (to_ns (ck_ticks_per_ns ck) (ck_t5 ck - ck_t0 ck)) (pp_tick_to_trade p2)\<rparr>)
               else Some (sent, p2) })"
  using assms by (simp add: process_def updated_def with_orders_def Let_def)

lemma process_unwatched: "get_book (me_token ev) (pp_books p) = None \<Longrightarrow>
    process ck ev p = Some (0, p\<lparr>pp_stats := (pp_stats p)\<lparr>ps_events := ps_events (pp_stats p) + 1\<rparr>\<rparr>)"
  by (simp add: process_def Let_def)

lemma process_stuck: "get_book (me_token ev) (pp_books p) = Some b \<Longrightarrow> apply_event ev b = None \<Longrightarrow> process ck ev p = None"
  by (simp add: process_def Let_def)

text \<open>What the rest of the pipeline does with the updated state.\<close>

definition event_effect :: "Clocks \<Rightarrow> Pipeline \<Rightarrow> nat \<Rightarrow> Pipeline \<Rightarrow> bool" where
  "event_effect ck p1 n p' \<longleftrightarrow> pp_books p' = pp_books p1 \<and> pp_strat p' = pp_strat p1 \<and> pp_now_ns p' = pp_now_ns p1
     \<and> limiter_frame (pp_risk p1) (pp_risk p') \<and> tables_kept (pp_om p1) (pp_om p') \<and> length (pp_msg_buf p') = kNnfMaxMsg
     \<and> (if mm_pending (pp_strat p1) = [] then last_sent p' = last_sent p1
        else length (last_sent p') = n \<and> (\<forall>ord \<in> set (last_sent p'). ord \<in> set (mm_pending (pp_strat p1))
          \<and> order_gated p' (ck_wall ck) ord))
     \<and> counted (length (mm_pending (pp_strat p1))) n (pp_stats (with_orders p1)) (pp_stats p')
     \<and> (mm_pending (pp_strat p1) = [] \<or> kill_switch_active (pp_risk p1) \<longrightarrow>
          n = 0 \<and> pp_om p' = pp_om p1 \<and> pp_msg_buf p' = pp_msg_buf p1)"

lemma updated_fields [simp]:
  "pp_om (updated ck ev book p) = pp_om p" "pp_msg_buf (updated ck ev book p) = pp_msg_buf p"
  "pp_now_ns (updated ck ev book p) = pp_now_ns p"
  "pp_strat (updated ck ev book p) = on_book_update (me_token ev) book (ck_wall ck 0) (pp_strat p)"
  "rm_cfg (pp_risk (updated ck ev book p)) = rm_cfg (pp_risk p)"
  "rm_position (pp_risk (updated ck ev book p)) = rm_position (pp_risk p)"
  "rm_sim_now_ns (pp_risk (updated ck ev book p)) = rm_sim_now_ns (pp_risk p)"
  "kill_switch_active (pp_risk (updated ck ev book p)) = kill_switch_active (pp_risk p)"
  by (simp_all add: updated_def update_reference_def kill_switch_active_def)

lemma pending_orders_ok:
  assumes "mm_inv mm" "ord \<in> set (mm_pending (on_book_update token book wall mm))"
  shows "0 < o_client_order_id ord \<and> unat (o_token ord) < kSymbolTableSize"
proof -
  let ?mm = "on_book_update token book wall mm"
  have e: "update_effect mm ?mm" by (rule on_book_update_effect [OF assms(1)])
  then have inv: "mm_inv ?mm" by (simp add: update_effect_def)
  have "order_entry ord \<in> working ?mm" using e assms(2) by (simp add: update_effect_def after_messages_def)
  then have "(unat (o_token ord), o_side ord, o_client_order_id ord, o_price ord) \<in> working ?mm" by (simp add: order_entry_def)
  from mm_invD(1,2) [OF inv this] show ?thesis by (simp add: kMaxTokens_def kSymbolTableSize_def)
qed

lemma process_effect:
  assumes "pipe_inv p" "get_book (me_token ev) (pp_books p) = Some b" "apply_event ev b = Some (res, book)"
    and p1: "p1 = updated ck ev book p"
  shows "\<exists>n p'. process ck ev p = Some (n, p') \<and> event_effect ck p1 n p'"
proof -
  let ?ords = "mm_pending (pp_strat p1)"
  have ok: "\<forall>ord \<in> set ?ords. 0 < o_client_order_id ord \<and> unat (o_token ord) < kSymbolTableSize"
    using pending_orders_ok [of "pp_strat p"] assms(1) by (auto simp: p1 pipe_inv_def)
  have two: "length ?ords \<le> 2"
    using on_book_update_effect [of "pp_strat p"] assms(1) by (simp add: p1 pipe_inv_def update_effect_def)
  have start: "sending (with_orders p1) (ck_wall ck) [] (0, with_orders p1)"
    using assms(1) by (simp add: sending_def p1 pipe_inv_def with_orders_def limiter_frame_refl tables_kept_def counted_def)
  obtain sent p2 where r: "send_orders (ck_wall ck) 1 ?ords (0, with_orders p1) = Some (sent, p2)"
      "sending (with_orders p1) (ck_wall ck) ?ords (sent, p2)"
    using sending_all [OF start ok, of 1] assms(1) two by (auto simp: p1 pipe_inv_def with_orders_def kMaxSent_def)
  have w: "pp_risk (with_orders p1) = pp_risk p1" "pp_om (with_orders p1) = pp_om p1" "pp_books (with_orders p1) = pp_books p1"
    "pp_strat (with_orders p1) = pp_strat p1" "pp_now_ns (with_orders p1) = pp_now_ns p1" "pp_msg_buf (with_orders p1) = pp_msg_buf p1"
    by (simp_all add: with_orders_def)
  note eq = process_watched [OF assms(2,3) p1]
  show ?thesis
  proof (cases "?ords = []")
    case True
    then have "counted 0 0 (pp_stats (with_orders p1)) (pp_stats p1)" by (simp add: counted_def with_orders_def)
    then have "event_effect ck p1 0 p1"
      using True assms(1) by (simp add: event_effect_def limiter_frame_refl tables_kept_def p1 pipe_inv_def)
    then show ?thesis using True by (simp add: eq)
  next
    case False
    let ?p' = "if sent > 0 then p2\<lparr>pp_tick_to_trade := record_sample (to_ns (ck_ticks_per_ns ck) (ck_t5 ck - ck_t0 ck)) (pp_tick_to_trade p2)\<rparr> else p2"
    have "process ck ev p = Some (sent, ?p')" unfolding eq using False r(1) by simp
    moreover have "event_effect ck p1 sent ?p'" using r(2) False
      by (auto simp: sending_def event_effect_def w last_sent_def order_gated_def)
    ultimately show ?thesis by blast
  qed
qed

subsection \<open>The invariant of the pipeline\<close>

text \<open>The strategy's parts that an event, a fill or a cancel leaves alone.\<close>

definition mm_fixed :: "MarketMaking \<Rightarrow> MarketMaking \<Rightarrow> bool" where
  "mm_fixed mm mm' \<longleftrightarrow> mm_sim_now_ns mm' = mm_sim_now_ns mm \<and> mm_cfg mm' = mm_cfg mm \<and> mm_symbols mm' = mm_symbols mm"

lemma mm_fixed_steps:
  "mm_fixed mm0 mm \<Longrightarrow> mm_fixed mm0 (CancelSide token s mm)"
  "mm_fixed mm0 mm \<Longrightarrow> mm_fixed mm0 (QuoteOneSide token s desired qty allowed now mm)"
proof -
  show c: "mm_fixed mm0 (CancelSide token s mm)" if "mm_fixed mm0 mm" for mm
    using that by (simp add: mm_fixed_def CancelSide_def EmitCancel_def Let_def)
  show "mm_fixed mm0 (QuoteOneSide token s desired qty allowed now mm)" if "mm_fixed mm0 mm"
    using that c [OF that] by (simp add: QuoteOneSide_def EmitNew_def Let_def) (simp add: mm_fixed_def)
qed

lemma mm_fixed_update: "mm_fixed mm (on_book_update token book wall mm)"
proof -
  have "mm_fixed mm (mm\<lparr>mm_pending := [], mm_cancels := []\<rparr>)" by (simp add: mm_fixed_def)
  note s = mm_fixed_steps [OF this]
  show ?thesis unfolding on_book_update_def Let_def
    by (simp add: s mm_fixed_steps split: option.splits prod.splits) (simp add: mm_fixed_def)
qed

lemma mm_fixed_cancel_scan: "mm_fixed mm (on_cancel_scan c ts mm) \<and> mm_position (on_cancel_scan c ts mm) = mm_position mm"
  by (induction c ts mm rule: on_cancel_scan.induct) (simp_all add: mm_fixed_def Let_def)

lemma mm_fixed_ops: "mm_fixed mm (MarketMaking_on_fill fill mm)" "mm_fixed mm (on_cancel c r mm)"
  "mm_position (on_cancel c r mm) = mm_position mm"
  using mm_fixed_cancel_scan [of mm c "[0 ..< kMaxTokens]"]
  by (simp_all add: mm_fixed_def MarketMaking_on_fill_def on_cancel_def Let_def)

lemma om_exec_encoder: "om_encoder (om_exec op om) = om_encoder om"
  by (cases op) (auto simp: new_order_def next_clordid_def on_ack_def OrderManager_on_fill_def on_cancel_ack_def on_reject_def
      Release_def om_put_def Let_def bind_eq_Some_conv split: option.splits if_splits)

lemma risk_fill_fixed: "rm_cfg (RiskManager_on_fill fill rm) = rm_cfg rm" "rm_sim_now_ns (RiskManager_on_fill fill rm) = rm_sim_now_ns rm"
  by (simp_all add: RiskManager_on_fill_def RecomputePnl_def Let_def)

lemma process_inv:
  assumes "pipe_inv p" "process ck ev p = Some (n, p')"
  shows "pipe_inv p'"
proof (cases "get_book (me_token ev) (pp_books p)")
  case None
  then show ?thesis using assms process_unwatched [OF None, of ck] by (auto simp: pipe_inv_def)
next
  case (Some b)
  then obtain res book where b: "apply_event ev b = Some (res, book)"
    using assms(2) process_stuck [OF Some, of ck] by (cases "apply_event ev b") auto
  have e: "event_effect ck (updated ck ev book p) n p'" using process_effect [OF assms(1) Some b refl, of ck] assms(2) by auto
  then have fr: "limiter_frame (pp_risk (updated ck ev book p)) (pp_risk p')" by (simp add: event_effect_def)
  show ?thesis
    using e assms(1) limiter_frame_fields(1,5) [OF fr] on_book_update_effect [of "pp_strat p"] mm_fixed_update
    unfolding pipe_inv_def event_effect_def tables_kept_def update_effect_def mm_fixed_def by simp
qed

interpretation pipe: op_machine pipe_exec pipe_inv
proof (unfold_locales, goal_cases)
  case (1 p op)
  then show ?case
  proof (cases op)
    case (PipeNow t)
    then show ?thesis using 1 mm_exec_step [of "pp_strat p" "MmNow t"]
      by (simp add: pipe_inv_def Pipeline_set_now_def MarketMaking_set_now_def RiskManager_set_now_def)
  next
    case (PipeEvent ck ev)
    then show ?thesis using 1 process_inv [OF 1, of ck ev] by (auto split: option.splits)
  next
    case (PipeFill fill)
    then show ?thesis using 1 on_fill_working(1) [of "pp_strat p" fill] mm_fixed_ops(1) [of "pp_strat p" fill]
        om_inv_exec [of "pp_om p" "OpFill fill"] om_exec_encoder [of "OpFill fill" "pp_om p"]
      by (simp add: pipe_inv_def Pipeline_on_fill_def risk_fill_fixed mm_fixed_def)
  next
    case (PipeReply op')
    then show ?thesis using 1 om_inv_exec [of "pp_om p" op'] by (simp add: pipe_inv_def om_exec_encoder)
  next
    case (PipeCancelled c r)
    then show ?thesis using 1 on_cancel_working(1) [of "pp_strat p" c r] mm_fixed_ops(2) [of "pp_strat p" c r]
      by (simp add: pipe_inv_def mm_fixed_def)
  next
    case (PipeKill on)
    then show ?thesis using 1 by (simp add: pipe_inv_def set_kill_switch_def)
  qed
qed

text \<open>A pipeline on fresh components, and one that has run a sequence of operations.\<close>

definition fresh_pipeline :: "BookManager \<Rightarrow> SymbolMaster option \<Rightarrow> MarketMakingConfig \<Rightarrow> RiskConfig \<Rightarrow> (nat \<Rightarrow> Order) \<Rightarrow> u8 list \<Rightarrow> Pipeline" where
  "fresh_pipeline books symbols cfg rcfg memory buf =
     Pipeline_init books (MarketMaking_init symbols cfg) (RiskManager_init symbols rcfg) (OrderManager_init memory) buf"

lemma fresh_inv:
  assumes "0 \<le> rc_max_cm_notional_inr rcfg" "length buf = kNnfMaxMsg"
  shows "pipe_inv (fresh_pipeline books symbols cfg rcfg memory buf)"
  using assms mm_inv_init om_inv_init encoder_ok_set(2) [OF encoder_ok_init, of 32 32]
  by (simp add: pipe_inv_def fresh_pipeline_def Pipeline_init_def MarketMaking_init_def RiskManager_init_def OrderManager_init_def)

lemmas pipeline_reachable = pipe.run_inv [OF fresh_inv]

subsection \<open>Counters\<close>

lemma process_stats:
  assumes "pipe_inv p" "process ck ev p = Some (n, p')"
  shows "\<exists>m a s. m \<le> 2 \<and> a \<le> m \<and> s \<le> a \<and> pp_stats p' = \<lparr>ps_events = ps_events (pp_stats p) + 1,
    ps_orders_generated = ps_orders_generated (pp_stats p) + of_nat m, ps_orders_approved = ps_orders_approved (pp_stats p) + of_nat a,
    ps_orders_rejected = ps_orders_rejected (pp_stats p) + of_nat (m - a), ps_orders_sent = ps_orders_sent (pp_stats p) + of_nat s\<rparr>"
proof (cases "get_book (me_token ev) (pp_books p)")
  case None
  then have "pp_stats p' = (pp_stats p)\<lparr>ps_events := ps_events (pp_stats p) + 1\<rparr>"
    using assms(2) process_unwatched [OF None, of ck] by auto
  then show ?thesis by (intro exI [of _ 0]) (cases "pp_stats p", simp)
next
  case (Some b)
  then obtain res book where b: "apply_event ev b = Some (res, book)"
    using assms(2) process_stuck [OF Some, of ck] by (cases "apply_event ev b") auto
  let ?p1 = "updated ck ev book p"
  define m where "m = length (mm_pending (pp_strat ?p1))"
  have "event_effect ck ?p1 n p'" using process_effect [OF assms(1) Some b refl, of ck] assms(2) by auto
  then have "counted m n (pp_stats (with_orders ?p1)) (pp_stats p')" by (simp add: event_effect_def m_def)
  then obtain a where a: "a \<le> m" "n \<le> a" "pp_stats p' = (pp_stats (with_orders ?p1))\<lparr>
      ps_orders_approved := ps_orders_approved (pp_stats (with_orders ?p1)) + of_nat a,
      ps_orders_rejected := ps_orders_rejected (pp_stats (with_orders ?p1)) + of_nat (m - a),
      ps_orders_sent := ps_orders_sent (pp_stats (with_orders ?p1)) + of_nat n\<rparr>"
    by (auto simp: counted_def)
  have "m \<le> 2" using on_book_update_effect [of "pp_strat p"] assms(1) by (simp add: m_def pipe_inv_def update_effect_def)
  moreover have "pp_stats (with_orders ?p1) = (pp_stats p)\<lparr>ps_events := ps_events (pp_stats p) + 1,
      ps_orders_generated := ps_orders_generated (pp_stats p) + of_nat m\<rparr>"
    by (simp add: with_orders_def m_def) (simp add: updated_def)
  ultimately show ?thesis using a by (intro exI [of _ m] exI [of _ a] exI [of _ n]) (cases "pp_stats p", simp)
qed

definition stats_ok :: "nat \<Rightarrow> PipelineStats \<Rightarrow> bool" where
  "stats_ok k st \<longleftrightarrow> unat (ps_orders_generated st) = unat (ps_orders_approved st) + unat (ps_orders_rejected st)
     \<and> unat (ps_orders_sent st) \<le> unat (ps_orders_approved st) \<and> unat (ps_orders_generated st) \<le> 2 * unat (ps_events st)
     \<and> unat (ps_events st) \<le> k"

lemma unat_add_small: "unat w + n < 2 ^ 64 \<Longrightarrow> unat (w + of_nat n) = unat w + n" for w :: u64
proof -
  assume a: "unat w + n < 2 ^ 64"
  then have "unat (of_nat n :: u64) = n" by (simp add: unsigned_of_nat take_bit_nat_eq_self)
  then show ?thesis using a by (subst unat_add_lem [THEN iffD1]) simp_all
qed

lemma stats_step:
  assumes "stats_ok k (pp_stats p)" "pipe_inv p" "k < 2 ^ 62"
  shows "stats_ok (Suc k) (pp_stats (pipe_exec op p))"
proof -
  have keep: "stats_ok (Suc k) (pp_stats p)" using assms(1) by (auto simp: stats_ok_def)
  show ?thesis
  proof (cases op)
    case (PipeEvent ck ev)
    show ?thesis
    proof (cases "process ck ev p")
      case None
      then show ?thesis using keep PipeEvent by simp
    next
      case (Some r)
      obtain n p' where r: "r = (n, p')" by (cases r)
      obtain m a s where st: "m \<le> 2" "a \<le> m" "s \<le> a" "pp_stats p' = \<lparr>ps_events = ps_events (pp_stats p) + of_nat 1,
          ps_orders_generated = ps_orders_generated (pp_stats p) + of_nat m, ps_orders_approved = ps_orders_approved (pp_stats p) + of_nat a,
          ps_orders_rejected = ps_orders_rejected (pp_stats p) + of_nat (m - a), ps_orders_sent = ps_orders_sent (pp_stats p) + of_nat s\<rparr>"
        using process_stats [OF assms(2) Some [unfolded r]] unfolding of_nat_1 by blast
      have e: "pp_stats (pipe_exec op p) = pp_stats p'" using Some PipeEvent r by simp
      have I: "unat (ps_orders_generated (pp_stats p)) = unat (ps_orders_approved (pp_stats p)) + unat (ps_orders_rejected (pp_stats p))"
        "unat (ps_orders_sent (pp_stats p)) \<le> unat (ps_orders_approved (pp_stats p))"
        "unat (ps_orders_generated (pp_stats p)) \<le> 2 * unat (ps_events (pp_stats p))" "unat (ps_events (pp_stats p)) \<le> k"
        using assms(1) by (simp_all add: stats_ok_def)
      define r where "r = m - a"
      have m: "m = a + r" using st(2) by (simp add: r_def)
      have "unat (ps_events (pp_stats p) + of_nat 1) = unat (ps_events (pp_stats p)) + 1"
        "unat (ps_orders_generated (pp_stats p) + of_nat m) = unat (ps_orders_generated (pp_stats p)) + m"
        "unat (ps_orders_approved (pp_stats p) + of_nat a) = unat (ps_orders_approved (pp_stats p)) + a"
        "unat (ps_orders_rejected (pp_stats p) + of_nat r) = unat (ps_orders_rejected (pp_stats p)) + r"
        "unat (ps_orders_sent (pp_stats p) + of_nat s) = unat (ps_orders_sent (pp_stats p)) + s"
        by (rule unat_add_small, use I st(1-3) m assms(3) in simp)+
      then show ?thesis unfolding e st(4) r_def [symmetric] stats_ok_def using I st(1-3) m by simp
    qed
  qed (use keep in \<open>simp_all add: Pipeline_set_now_def Pipeline_on_fill_def\<close>)
qed

lemma stats_run:
  assumes "pipe_inv p" "stats_ok 0 (pp_stats p)" "length ops < 2 ^ 62"
  shows "stats_ok (length ops) (pp_stats (fold pipe_exec ops p))"
  using assms(3)
proof (induction ops rule: rev_induct)
  case Nil
  then show ?case using assms(2) by simp
next
  case (snoc op ops)
  then show ?case using stats_step [OF _ pipe.run_inv [OF assms(1)], of "length ops" ops op] by simp
qed

subsection \<open>Positions\<close>

fun fills_in :: "pipe_op list \<Rightarrow> FillReport list" where
  "fills_in [] = []"
| "fills_in (PipeFill fill # ops) = fill # fills_in ops"
| "fills_in (op # ops) = fills_in ops"

definition positions :: "Pipeline \<Rightarrow> (nat \<Rightarrow> int) \<times> (nat \<Rightarrow> int)" where
  "positions p = (mm_position (pp_strat p), rm_position (pp_risk p))"

lemma process_positions:
  assumes "pipe_inv p" "process ck ev p = Some (n, p')"
  shows "positions p' = positions p"
proof (cases "get_book (me_token ev) (pp_books p)")
  case None
  then show ?thesis using assms process_unwatched [OF None, of ck] by (auto simp: positions_def)
next
  case (Some b)
  then obtain res book where b: "apply_event ev b = Some (res, book)"
    using assms(2) process_stuck [OF Some, of ck] by (cases "apply_event ev b") auto
  have e: "event_effect ck (updated ck ev book p) n p'" using process_effect [OF assms(1) Some b refl, of ck] assms(2) by auto
  then have fr: "limiter_frame (pp_risk (updated ck ev book p)) (pp_risk p')" by (simp add: event_effect_def)
  have "update_effect (pp_strat p) (on_book_update (me_token ev) book (ck_wall ck 0) (pp_strat p))"
    using assms(1) by (intro on_book_update_effect) (simp add: pipe_inv_def)
  then show ?thesis using e limiter_frame_fields(2) [OF fr] by (simp add: positions_def event_effect_def update_effect_def)
qed

lemma mm_fill_position: "fill_ok fill \<Longrightarrow> mm_position (MarketMaking_on_fill fill mm) =
    (mm_position mm)(unat (f_token fill) := mm_position mm (unat (f_token fill)) + signed_fill fill)"
  by (simp add: fill_ok_def MarketMaking_on_fill_def signed_fill_def kMaxTokens_def kSymbolTableSize_def Let_def)

lemma position_run:
  assumes "pipe_inv p" "\<forall>fill. PipeFill fill \<in> set ops \<longrightarrow> fill_ok fill"
  shows "mm_position (pp_strat (fold pipe_exec ops p)) (unat token) = mm_position (pp_strat p) (unat token) + net_position token (fills_in ops)"
    and "rm_position (pp_risk (fold pipe_exec ops p)) (unat token) = rm_position (pp_risk p) (unat token) + net_position token (fills_in ops)"
proof -
  have "mm_position (pp_strat (fold pipe_exec ops p)) (unat token) = mm_position (pp_strat p) (unat token) + net_position token (fills_in ops)
    \<and> rm_position (pp_risk (fold pipe_exec ops p)) (unat token) = rm_position (pp_risk p) (unat token) + net_position token (fills_in ops)"
    using assms
  proof (induction ops arbitrary: p)
    case (Cons op ops)
    have IH: "mm_position (pp_strat (fold pipe_exec (op # ops) p)) (unat token) = mm_position (pp_strat (pipe_exec op p)) (unat token) + net_position token (fills_in ops)
        \<and> rm_position (pp_risk (fold pipe_exec (op # ops) p)) (unat token) = rm_position (pp_risk (pipe_exec op p)) (unat token) + net_position token (fills_in ops)"
      using Cons.IH [OF pipe.exec_inv [OF Cons.prems(1)], of op] Cons.prems(2) by simp
    show ?case
    proof (cases op)
      case (PipeEvent ck ev)
      then have "positions (pipe_exec op p) = positions p"
        using process_positions [OF Cons.prems(1), of ck ev] by (cases "process ck ev p") auto
      then show ?thesis using IH PipeEvent by (simp add: positions_def)
    next
      case (PipeFill fill)
      then have ok: "fill_ok fill" using Cons.prems(2) by simp
      show ?thesis unfolding IH [THEN conjunct1] IH [THEN conjunct2]
        by (auto simp: PipeFill Pipeline_on_fill_def mm_fill_position [OF ok] on_fill_fields(1) [OF ok] net_position_def word_unat_eq_iff)
    qed (use IH in \<open>simp_all add: Pipeline_set_now_def MarketMaking_set_now_def RiskManager_set_now_def mm_fixed_ops set_kill_switch_def\<close>)
  qed (simp add: net_position_def)
  then show "mm_position (pp_strat (fold pipe_exec ops p)) (unat token) = mm_position (pp_strat p) (unat token) + net_position token (fills_in ops)"
    "rm_position (pp_risk (fold pipe_exec ops p)) (unat token) = rm_position (pp_risk p) (unat token) + net_position token (fills_in ops)" by blast+
qed

lemma fresh_positions:
  "mm_position (pp_strat (fresh_pipeline books symbols cfg rcfg memory buf)) t = 0"
  "rm_position (pp_risk (fresh_pipeline books symbols cfg rcfg memory buf)) t = 0"
  by (simp_all add: fresh_pipeline_def Pipeline_init_def MarketMaking_init_def RiskManager_init_def)

subsection \<open>An order that passes is sent\<close>

lemma send_one_mono: "send_one w1 w2 ord (sent, p) = Some (sent', p') \<Longrightarrow> sent \<le> sent'"
proof -
  assume a: "send_one w1 w2 ord (sent, p) = Some (sent', p')"
  then obtain r rm where c: "check ord w1 (pp_risk p) = Some (r, rm)"
    by (cases "check ord w1 (pp_risk p)") (auto simp: send_one_def)
  show ?thesis
  proof (cases "new_order (pp_om p) ord (pp_msg_buf p) (send_stamp w2 p) 79")
    case None
    then show ?thesis using a c by (simp add: send_one_def Let_def split: if_splits)
  next
    case (Some x)
    obtain n ord' buf om where "x = (n, ord', buf, om)" by (cases x)
    then have "fst (the (send_one w1 w2 ord (sent, p))) \<in> {sent, sent + 1}"
      unfolding send_one_cases [OF c Some [unfolded \<open>x = _\<close>]] by simp
    then show ?thesis using a by auto
  qed
qed

lemma send_orders_mono: "send_orders wall k ords (sent, p) = Some (sent', p') \<Longrightarrow> sent \<le> sent'"
proof (induction ords arbitrary: k sent p)
  case (Cons ord ords)
  then obtain s1 p1 where s: "send_one (wall k) (wall (k + 1)) ord (sent, p) = Some (s1, p1)"
      "send_orders wall (k + 2) ords (s1, p1) = Some (sent', p')" by (auto simp: bind_eq_Some_conv)
  then show ?case using send_one_mono [OF s(1)] Cons.IH [OF s(2)] by simp
qed simp

lemma first_order_sent:
  assumes "pipe_inv p" "get_book (me_token ev) (pp_books p) = Some b" "apply_event ev b = Some (res, book)"
    and p1: "p1 = updated ck ev book p" and ords: "mm_pending (pp_strat p1) = ord # ords"
    and "within_limits (pp_risk p1) (risk_now (ck_wall ck 1) (pp_risk p1)) ord"
    and "fst (ConsumeRateToken (risk_now (ck_wall ck 1) (pp_risk p1)) (pp_risk p1))"
    and free: "\<not> lo_occupied (om_table (pp_om p) (Index (o_client_order_id ord)))"
  shows "\<exists>n p'. process ck ev p = Some (n, p') \<and> 0 < n"
proof -
  have ok: "0 < o_client_order_id ord" "unat (o_token ord) < kSymbolTableSize"
    using pending_orders_ok [of "pp_strat p" ord "me_token ev" book "ck_wall ck 0"] assms(1) ords by (simp_all add: p1 pipe_inv_def)
  have w: "pp_risk (with_orders p1) = pp_risk p1" "pp_om (with_orders p1) = pp_om p" "pp_msg_buf (with_orders p1) = pp_msg_buf p"
    by (simp_all add: with_orders_def p1)
  obtain rm' where c: "check ord (ck_wall ck 1) (pp_risk p1) = Some (kApproved, rm')"
    using check_gate [OF ok(2) _ refl, of "pp_risk p1" "ck_wall ck 1"] assms(1,6,7) by (auto simp: p1 pipe_inv_def)
  obtain n buf om where o: "new_order (pp_om p) ord (pp_msg_buf p) (send_stamp (ck_wall ck 2) (with_orders p1)) 79 = Some (n, ord, buf, om)"
    using new_order_outcome [of "pp_om p" "pp_msg_buf p" ord "send_stamp (ck_wall ck 2) (with_orders p1)" 79] assms(1) ok
    unfolding pipe_inv_def by blast
  have i: "om_inv (pp_om p)" "encoder_ok (om_encoder (pp_om p))" "80 \<le> length (pp_msg_buf p)"
    using assms(1) by (simp_all add: pipe_inv_def kNnfMaxMsg_def)
  have "n = 80" using new_order_cases [OF i(1) o] free
      encode_new_order_returns [OF i(2,3), of ord "send_stamp (ck_wall ck 2) (with_orders p1)" 79] by auto
  then obtain p2 where s: "send_one (ck_wall ck 1) (ck_wall ck 2) ord (0, with_orders p1) = Some (1, p2)"
    using send_one_cases [of ord "ck_wall ck 1" "with_orders p1" kApproved rm' "ck_wall ck 2" n ord buf om 0, unfolded w, OF c o]
    by simp
  obtain m p' where e: "process ck ev p = Some (m, p')" using process_effect [OF assms(1-4)] by blast
  have "send_orders (ck_wall ck) 1 (ord # ords) (0, with_orders p1) = send_orders (ck_wall ck) 3 ords (1, p2)"
    using s by (simp add: numeral_eq_Suc)
  then obtain p3 where "send_orders (ck_wall ck) 3 ords (1, p2) = Some (m, p3)"
    using e unfolding process_watched [OF assms(2,3) p1] ords by (auto simp: bind_eq_Some_conv simp del: send_orders.simps split: if_splits)
  from send_orders_mono [OF this] e show ?thesis by auto
qed

subsection \<open>Examples\<close>

text \<open>A pipeline at 11:06 IST that watches one token, whose book quotes 10000 to 10002.\<close>

definition example_books :: BookManager where
  "example_books = BookManager_init\<lparr>bm_slots := [7 \<mapsto> example_book], bm_watched := 1\<rparr>"

definition example_clocks :: Clocks where
  "example_clocks = \<lparr>ck_wall = (\<lambda>_. (0, 0)), ck_t0 = 100, ck_t5 = 900, ck_ticks_per_ns = 2\<rparr>"

definition example_beat :: MarketEvent where
  "example_beat = zero_event\<lparr>me_type := kHeartbeat, me_token := 7\<rparr>"

definition example_start :: Pipeline where
  "example_start = fresh_pipeline example_books None MarketMakingConfig_default RiskConfig_default (\<lambda>_. example_order) (replicate kNnfMaxMsg 0)"

definition example_pipe :: "pipe_op list \<Rightarrow> Pipeline" where
  "example_pipe ops = fold pipe_exec ops example_start"

lemma example_side: "0 \<le> rc_max_cm_notional_inr RiskConfig_default" "length (replicate kNnfMaxMsg (0 :: u8)) = kNnfMaxMsg"
  by (simp_all add: RiskConfig_default_def)

lemmas example_pipe_fold = example_pipe_def [unfolded example_start_def]

lemma example_beat_run: "apply_event example_beat example_book = Some (kOk, example_book)"
  by (simp add: example_beat_def apply_event_def check_seq_def dispatch_def zero_event_def mtbt_codes example_book_def)

lemma example_watch: "get_book (me_token example_beat) (pp_books (example_pipe [PipeNow t])) = Some example_book"
  "get_book (me_token example_beat) (pp_books (example_pipe [PipeNow t, PipeKill True])) = Some example_book"
  by (simp_all add: example_pipe_fold fresh_pipeline_def Pipeline_init_def Pipeline_set_now_def example_books_def get_book_def
      example_beat_def kMaxTokens_def)

lemma example_parts:
  "pp_strat (example_pipe [PipeNow 40000000000000]) = example_maker" "pp_risk (example_pipe [PipeNow 40000000000000]) = example_risk"
  "pp_om (example_pipe [PipeNow 40000000000000]) = OrderManager_init (\<lambda>_. example_order)"
  by (simp_all add: example_pipe_fold fresh_pipeline_def Pipeline_init_def Pipeline_set_now_def example_maker_def example_risk_def)

lemma example_inv: "pipe_inv (example_pipe ops)"
  unfolding example_pipe_fold by (rule pipeline_reachable [OF example_side])

lemma example_quiet:
  "mm_pending (on_book_update 7 example_book (0, 0) (on_book_update 7 example_book (0, 0) example_maker)) = []"
proof -
  let ?touch = "(\<lparr>pl_price = 10000, pl_total_quantity = 50, pl_order_count = 1\<rparr>, \<lparr>pl_price = 10002, pl_total_quantity = 50, pl_order_count = 1\<rparr>)"
  define mm where "mm = on_book_update 7 example_book (0, 0) example_maker"
  have fixed: "mm_fixed example_maker mm" unfolding mm_def by (rule mm_fixed_update)
  have "update_effect example_maker mm" unfolding mm_def by (rule on_book_update_effect [OF reachable_inv [OF example_maker_def]])
  then have pos: "mm_position mm = (\<lambda>_. 0)" by (simp add: update_effect_def example_maker_fields)
  have now: "mm_now (0, 0) mm = 40000000000000" using fixed example_maker_fields(6) by (auto simp: mm_now_def mm_fixed_def split: if_splits)
  have f: "mm_symbols mm = None" "mm_cfg mm = MarketMakingConfig_default" using fixed by (simp_all add: mm_fixed_def example_maker_fields)
  have in1: "quoting_inputs 7 example_book 40000000000000 example_maker = Some ?touch" 
    and in2: "quoting_inputs 7 example_book 40000000000000 mm = Some ?touch"
    using example_session by (simp_all add: quoting_inputs_def kMaxTokens_def best_bid_def best_ask_def example_book_def TickSize_def
        f example_maker_fields MarketMakingConfig_default_def)
  note upd = on_book_update_quotes [OF refl example_maker_fields(6) [symmetric] in1]
    and upd2 = on_book_update_quotes [OF refl now [symmetric] in2]
  have d: "desired_price m 7 ?touch True = 9999 \<and> desired_price m 7 ?touch False = 10003 \<and>
    MarketMaking_LotSize m 7 = 1 \<and> mc_quote_lots (mm_cfg m) = 1 \<and> side_allowed m 7 True 9999 \<and> side_allowed m 7 False 10003"
    if "mm_symbols m = None" "mm_cfg m = MarketMakingConfig_default" "mm_position m = (\<lambda>_. 0)" for m
    using that by (simp add: desired_price_def ComputeDesired_def desired_quotes_def inventory_skew_ticks_def flow_skew_ticks_def
        side_allowed_def TickSize_def MarketMaking_LotSize_def MarketMaking_PriceBand_def MarketMakingConfig_default_def)
  note d1 = d [OF example_maker_fields(1,2,4)] and d2 = d [OF f pos]
  have q: "mm_quotes mm 7 = \<lparr>qs_bid_active = True, qs_ask_active = True, qs_bid_price = 9999, qs_ask_price = 10003,
      qs_bid_ts = 40000000000000, qs_ask_ts = 40000000000000, qs_bid_clordid = 1, qs_ask_clordid = 2\<rparr>"
    unfolding mm_def upd using d1
    by (simp add: QuoteOneSide_def EmitNew_def kMaxPending_def example_maker_fields QuoteState_default_def qs_active_def qs_activate_def Let_def)
  show ?thesis unfolding mm_def [symmetric] upd2 using d2
    by (simp add: QuoteOneSide_def q qs_active_def qs_price_def qs_ts_def f MarketMakingConfig_default_def Let_def)
qed

lemma example_first_order:
  "\<exists>n p'. process example_clocks example_beat (example_pipe [PipeNow 40000000000000]) = Some (n, p') \<and> 0 < n"
proof (rule first_order_sent [OF example_inv example_watch(1) example_beat_run refl])
  let ?p1 = "updated example_clocks example_beat example_book (example_pipe [PipeNow 40000000000000])"
  let ?ord = "quote_order 7 True 9999 1 40000000000000 example_maker"
  show "mm_pending (pp_strat ?p1) = [?ord, quote_order 7 False 10003 1 40000000000000 (example_maker\<lparr>mm_next_clordid := 2\<rparr>)]"
    using example_quotes by (simp add: example_parts example_clocks_def example_beat_def)
  have r: "pp_risk ?p1 = update_reference 7 10000 10002 example_risk"
    by (simp add: updated_def example_parts example_beat_def touch_price_def best_bid_def best_ask_def example_book_def)
  have now: "risk_now (ck_wall example_clocks 1) (pp_risk ?p1) = 40000000000000"
    by (simp add: r risk_now_def update_reference_def example_risk_def RiskManager_set_now_def)
  show "within_limits (pp_risk ?p1) (risk_now (ck_wall example_clocks 1) (pp_risk ?p1)) ?ord"
    unfolding now unfolding r using example_hours
    by (simp add: within_limits_def update_reference_def example_risk_def RiskManager_set_now_def RiskManager_init_def RiskConfig_default_def
        kill_switch_active_def quote_order_def example_maker_fields MarketMakingConfig_default_def RiskManager_LotSize_def
        RiskManager_PriceBand_def kSegmentFo_def kSegmentCm_def kSymbolTableSize_def)
  have "fl 1000 = 1000" using fp.rnd_int [of 1000] by simp
  then show "fst (ConsumeRateToken (risk_now (ck_wall example_clocks 1) (pp_risk ?p1)) (pp_risk ?p1))" unfolding now unfolding r
    by (simp add: ConsumeRateToken_def update_reference_def example_risk_def RiskManager_set_now_def RiskManager_init_def RiskConfig_default_def)
  show "\<not> lo_occupied (om_table (pp_om (example_pipe [PipeNow 40000000000000])) (Index (o_client_order_id ?ord)))"
    by (simp add: example_parts OrderManager_init_def LiveOrder_default_def)
qed

lemma example_live:
  "\<exists>ord. om_get (pp_om (example_pipe [PipeNow 40000000000000, PipeEvent example_clocks example_beat])) (o_client_order_id ord) = Some (pending ord)"
  "get_book (me_token example_beat) (pp_books (example_pipe [PipeNow 40000000000000, PipeEvent example_clocks example_beat])) = Some example_book"
proof -
  let ?p = "example_pipe [PipeNow 40000000000000]"
  obtain n p' where e: "process example_clocks example_beat ?p = Some (n, p')" "0 < n"
      "event_effect example_clocks (updated example_clocks example_beat example_book ?p) n p'"
    using example_first_order process_effect [OF example_inv example_watch(1) [of 40000000000000] example_beat_run refl, of example_clocks] by auto
  have p': "example_pipe [PipeNow 40000000000000, PipeEvent example_clocks example_beat] = p'"
    using e(1) by (simp add: example_pipe_def)
  have "last_sent p' \<noteq> []" "\<forall>ord \<in> set (last_sent p'). order_gated p' (ck_wall example_clocks) ord"
    using e(2,3) by (auto simp: event_effect_def split: if_splits)
  then have "order_gated p' (ck_wall example_clocks) (hd (last_sent p'))" by simp
  then show "\<exists>ord. om_get (pp_om (example_pipe [PipeNow 40000000000000, PipeEvent example_clocks example_beat])) (o_client_order_id ord) = Some (pending ord)"
    unfolding p' order_gated_def by blast
  show "get_book (me_token example_beat) (pp_books (example_pipe [PipeNow 40000000000000, PipeEvent example_clocks example_beat])) = Some example_book"
    unfolding p' using e(3) by (simp add: event_effect_def updated_def get_book_def example_beat_def kMaxTokens_def)
qed

lemma example_later: "example_pipe [op1, op2, PipeNow t] = Pipeline_set_now t (example_pipe [op1, op2])"
  "pp_om (Pipeline_set_now t p) = pp_om p" "pp_books (Pipeline_set_now t p) = pp_books p"
  "pp_strat (Pipeline_set_now t p) = MarketMaking_set_now t (pp_strat p)"
  by (simp_all add: example_pipe_def Pipeline_set_now_def)

subsection \<open>Properties\<close>

text \<open>C25 No order leaves the pipeline unchecked. For every event on a watched token whose book returns,
  after any history, \<open>process\<close> returns; the orders it reports as sent are exactly \<open>n\<close> of those
  the strategy emitted on the book as updated by this event; each of them was within every limit
  of the risk manager, whose price references are the touch of that same book; and each is recorded
  in the order manager as pending. Orders that were live before stay as they were.\<close>

theorem pipeline_orders_gated:
  assumes "p = fold pipe_exec ops (fresh_pipeline books symbols cfg rcfg memory buf)"
    and "0 \<le> rc_max_cm_notional_inr rcfg" "length buf = kNnfMaxMsg"
    and "get_book (me_token ev) (pp_books p) = Some b" "apply_event ev b = Some (res, book)"
  shows "\<exists>n p'. process ck ev p = Some (n, p') \<and> get_book (me_token ev) (pp_books p') = Some book
     \<and> pp_strat p' = on_book_update (me_token ev) book (ck_wall ck 0) (pp_strat p)
     \<and> rm_ref_bid (pp_risk p') (unat (me_token ev)) = touch_price (best_bid book)
     \<and> rm_ref_ask (pp_risk p') (unat (me_token ev)) = touch_price (best_ask book)
     \<and> (0 < n \<longrightarrow> length (last_sent p') = n \<and> (\<forall>ord \<in> set (last_sent p'). ord \<in> set (mm_pending (pp_strat p'))
          \<and> (\<exists>k. within_limits (pp_risk p') (risk_now (ck_wall ck k) (pp_risk p')) ord)
          \<and> om_get (pp_om p') (o_client_order_id ord) = Some (pending ord)))
     \<and> (\<forall>c lo. om_get (pp_om p) c = Some lo \<and> lo_occupied lo \<longrightarrow> om_get (pp_om p') c = Some lo)"
proof -
  have inv: "pipe_inv p" unfolding assms(1) by (rule pipeline_reachable [OF assms(2,3)])
  obtain n p' where e: "process ck ev p = Some (n, p')" "event_effect ck (updated ck ev book p) n p'"
    using process_effect [OF inv assms(4,5) refl] by blast
  have lt: "unat (me_token ev) < kMaxTokens" using assms(4) by (auto simp: get_book_def split: if_splits)
  then have lt': "unat (me_token ev) < kSymbolTableSize" by (simp add: kMaxTokens_def kSymbolTableSize_def)
  have fr: "limiter_frame (pp_risk (updated ck ev book p)) (pp_risk p')" using e(2) by (simp add: event_effect_def)
  have "get_book (me_token ev) (pp_books p') = Some book"
    using e(2) get_book_upd [OF lt, of "me_token ev" "pp_books p" book] by (simp add: event_effect_def updated_def)
  moreover have "rm_ref_bid (pp_risk p') (unat (me_token ev)) = touch_price (best_bid book)"
    "rm_ref_ask (pp_risk p') (unat (me_token ev)) = touch_price (best_ask book)"
    unfolding limiter_frame_fields(3,4) [OF fr] using lt' by (simp_all add: updated_def update_reference_def)
  moreover have "om_get (pp_om p') c = Some lo" if "om_get (pp_om p) c = Some lo" "lo_occupied lo" for c lo
    using that e(2) unfolding om_get_Some by (auto simp: event_effect_def tables_kept_def)
  moreover have "length (last_sent p') = n \<and> (\<forall>ord \<in> set (last_sent p'). ord \<in> set (mm_pending (pp_strat p'))
      \<and> (\<exists>k. within_limits (pp_risk p') (risk_now (ck_wall ck k) (pp_risk p')) ord)
      \<and> om_get (pp_om p') (o_client_order_id ord) = Some (pending ord))" if "0 < n"
    using e(2) that by (auto simp: event_effect_def order_gated_def split: if_splits)
  ultimately show ?thesis using e by (auto simp: event_effect_def)
qed

text \<open>The counters add up: over fewer than \<open>2 ^ 62\<close> operations on a fresh pipeline, every generated
  order is either approved or rejected, an order is sent only if it was approved, and an event
  generates at most two orders.\<close>

theorem pipeline_accounting:
  assumes "p = fold pipe_exec ops (fresh_pipeline books symbols cfg rcfg memory buf)"
    and "0 \<le> rc_max_cm_notional_inr rcfg" "length buf = kNnfMaxMsg" "length ops < 2 ^ 62" "st = pp_stats p"
  shows "unat (ps_orders_generated st) = unat (ps_orders_approved st) + unat (ps_orders_rejected st)
     \<and> ps_orders_sent st \<le> ps_orders_approved st \<and> unat (ps_orders_generated st) \<le> 2 * unat (ps_events st)
     \<and> unat (ps_events st) \<le> length ops"
proof -
  have "stats_ok 0 (pp_stats (fresh_pipeline books symbols cfg rcfg memory buf))"
    by (simp add: stats_ok_def fresh_pipeline_def Pipeline_init_def PipelineStats_default_def)
  from stats_run [OF fresh_inv [OF assms(2,3)] this assms(4)] show ?thesis
    unfolding assms(1,5) stats_ok_def word_le_nat_alt by simp
qed

text \<open>C26 Strategy and risk manager agree on the position: after any history in which every fill has a
  listed token and a quantity of its type, both hold, for every token, the net of the fills of that token.\<close>

theorem pipeline_positions_agree:
  assumes "p = fold pipe_exec ops (fresh_pipeline books symbols cfg rcfg memory buf)"
    and "\<forall>fill. PipeFill fill \<in> set ops \<longrightarrow> fill_ok fill" "0 \<le> rc_max_cm_notional_inr rcfg" "length buf = kNnfMaxMsg"
    and "unat token < kMaxTokens"
  shows "MarketMaking_position (pp_strat p) token = net_position token (fills_in ops)
     \<and> RiskManager_position (pp_risk p) token = net_position token (fills_in ops)"
  using position_run [OF fresh_inv [OF assms(3,4)] assms(2)] assms(5)
  by (simp add: assms(1) MarketMaking_position_def RiskManager_position_def kMaxTokens_def kSymbolTableSize_def fresh_positions)

text \<open>Cancel requests never leave the pipeline. After 15:25, an event on a watched token makes the
  strategy drop every quote of the token and ask for the cancel of each, but nothing is sent: the
  order manager is unchanged, so the orders stay live there, and no message is encoded.\<close>

theorem preclose_cancels_not_sent:
  assumes "p = fold pipe_exec ops (fresh_pipeline books symbols cfg rcfg memory buf)"
    and "0 \<le> rc_max_cm_notional_inr rcfg" "length buf = kNnfMaxMsg"
    and "get_book (me_token ev) (pp_books p) = Some b" "apply_event ev b = Some (res, book)"
    and "preclose_cancel_ns (mm_now (ck_wall ck 0) (pp_strat p)) \<le> mm_now (ck_wall ck 0) (pp_strat p)"
  shows "\<exists>p'. process ck ev p = Some (0, p') \<and> {e \<in> working (pp_strat p'). fst e = unat (me_token ev)} = {}
     \<and> entry_id ` {e \<in> working (pp_strat p). fst e = unat (me_token ev)} \<subseteq> set (mm_cancels (pp_strat p'))
     \<and> pp_om p' = pp_om p \<and> pp_msg_buf p' = pp_msg_buf p"
proof -
  have inv: "pipe_inv p" unfolding assms(1) by (rule pipeline_reachable [OF assms(2,3)])
  then have mi: "mm_inv (pp_strat p)" by (simp add: pipe_inv_def)
  have lt: "unat (me_token ev) < kMaxTokens" using assms(4) by (auto simp: get_book_def split: if_splits)
  obtain n p' where e: "process ck ev p = Some (n, p')" "event_effect ck (updated ck ev book p) n p'"
    using process_effect [OF inv assms(4,5) refl] by blast
  note sw = sweep_effect [OF mi assms(6) lt refl, of book]
  then show ?thesis using e by (auto simp: event_effect_def)
qed

text \<open>The strategy does not learn that an order was refused. While the kill switch is active, every
  order it emits is rejected and nothing reaches the order manager, yet it counts each of these
  orders as a working quote.\<close>

theorem rejected_quote_believed_working:
  assumes "p = fold pipe_exec ops (fresh_pipeline books symbols cfg rcfg memory buf)"
    and "0 \<le> rc_max_cm_notional_inr rcfg" "length buf = kNnfMaxMsg" "kill_switch_active (pp_risk p)"
    and "get_book (me_token ev) (pp_books p) = Some b" "apply_event ev b = Some (res, book)"
  shows "\<exists>p'. process ck ev p = Some (0, p') \<and> pp_om p' = pp_om p
     \<and> pp_strat p' = on_book_update (me_token ev) book (ck_wall ck 0) (pp_strat p)
     \<and> order_entry ` set (mm_pending (pp_strat p')) \<subseteq> working (pp_strat p')"
proof -
  have inv: "pipe_inv p" unfolding assms(1) by (rule pipeline_reachable [OF assms(2,3)])
  then have mi: "mm_inv (pp_strat p)" by (simp add: pipe_inv_def)
  obtain n p' where e: "process ck ev p = Some (n, p')" "event_effect ck (updated ck ev book p) n p'"
    using process_effect [OF inv assms(5,6) refl] by blast
  then show ?thesis using assms(4) on_book_update_effect [OF mi, of "me_token ev" book "ck_wall ck 0"]
    by (auto simp: event_effect_def update_effect_def after_messages_def)
qed

theorem pipeline_orders_gated_witness:
  "\<exists>n p'. process example_clocks example_beat (example_pipe [PipeNow 40000000000000]) = Some (n, p') \<and> 0 < n
     \<and> length (last_sent p') = n \<and> (\<forall>ord \<in> set (last_sent p'). om_get (pp_om p') (o_client_order_id ord) = Some (pending ord))"
  using pipeline_orders_gated [OF example_pipe_fold example_side example_watch(1) example_beat_run, of example_clocks] example_first_order
  by fastforce

theorem pipeline_accounting_witness:
  "let st = pp_stats (example_pipe [PipeNow 40000000000000, PipeEvent example_clocks example_beat])
   in ps_orders_sent st \<le> ps_orders_approved st \<and> unat (ps_events st) \<le> 2"
  using pipeline_accounting [OF example_pipe_fold example_side _ refl, of "[PipeNow 40000000000000, PipeEvent example_clocks example_beat]"]
  by (simp add: Let_def)

theorem pipeline_positions_agree_witness:
  "let p = example_pipe [PipeFill (buy_fill 7), PipeFill (buy_fill 7)]
   in MarketMaking_position (pp_strat p) 7 = 2000 \<and> RiskManager_position (pp_risk p) 7 = 2000"
proof -
  let ?ops = "[PipeFill (buy_fill 7), PipeFill (buy_fill 7)]"
  have "\<forall>fill. PipeFill fill \<in> set ?ops \<longrightarrow> fill_ok fill" by (auto simp: fill_ok_def buy_fill_def losing_fill_def kSymbolTableSize_def)
  moreover have "net_position 7 (fills_in ?ops) = 2000" by (simp add: net_position_def signed_fill_def buy_fill_def losing_fill_def)
  ultimately show ?thesis
    using pipeline_positions_agree [OF example_pipe_fold _ example_side, of ?ops 7] by (simp add: Let_def kMaxTokens_def)
qed

theorem preclose_cancels_not_sent_witness:
  "let p = example_pipe [PipeNow 40000000000000, PipeEvent example_clocks example_beat, PipeNow 55500000000000]
   in \<exists>p' ord. process example_clocks example_beat p = Some (0, p') \<and> {e \<in> working (pp_strat p'). fst e = 7} = {}
     \<and> om_get (pp_om p') (o_client_order_id ord) = Some (pending ord)"
proof -
  let ?p = "example_pipe [PipeNow 40000000000000, PipeEvent example_clocks example_beat, PipeNow 55500000000000]"
  obtain ord where l: "om_get (pp_om ?p) (o_client_order_id ord) = Some (pending ord)" "get_book (me_token example_beat) (pp_books ?p) = Some example_book"
    using example_live by (auto simp: example_later)
  have "mm_now (ck_wall example_clocks 0) (pp_strat ?p) = 55500000000000"
    by (simp add: example_later MarketMaking_set_now_def mm_now_def)
  then have "preclose_cancel_ns (mm_now (ck_wall example_clocks 0) (pp_strat ?p)) \<le> mm_now (ck_wall example_clocks 0) (pp_strat ?p)"
    by (simp add: session_offsets ist_midnight_ns_def kNsPerDay_def kNsPerSecond_def)
  from preclose_cancels_not_sent [OF example_pipe_fold example_side l(2) example_beat_run this] show ?thesis
    using l(1) by (fastforce simp: Let_def example_beat_def)
qed

theorem rejected_quote_believed_working_witness:
  "let p = example_pipe [PipeNow 40000000000000, PipeKill True]
   in \<exists>p' q. process example_clocks example_beat p = Some (0, p') \<and> pp_om p' = pp_om p \<and> (7, True, 1, q) \<in> working (pp_strat p')"
proof -
  let ?p = "example_pipe [PipeNow 40000000000000, PipeKill True]"
  have k: "kill_switch_active (pp_risk ?p)" by (simp add: example_pipe_fold set_kill_switch_def kill_switch_active_def)
  have s: "pp_strat ?p = example_maker" using example_parts(1) by (simp add: example_pipe_def)
  obtain p' where p': "process example_clocks example_beat ?p = Some (0, p')" "pp_om p' = pp_om ?p"
      "pp_strat p' = on_book_update 7 example_book (0, 0) example_maker"
      "order_entry ` set (mm_pending (pp_strat p')) \<subseteq> working (pp_strat p')"
    using rejected_quote_believed_working [OF example_pipe_fold example_side k example_watch(2) example_beat_run, of example_clocks]
    unfolding s by (auto simp: example_beat_def example_clocks_def)
  have "order_entry (quote_order 7 True 9999 1 40000000000000 example_maker) \<in> working (pp_strat p')"
    using p'(4) example_update unfolding p'(3) by blast
  then have "(7, True, 1, 9999) \<in> working (pp_strat p')"
    by (simp add: order_entry_def quote_order_def example_maker_fields)
  then show ?thesis using p'(1,2) by (auto simp: Let_def)
qed

end
