(* ===== verification/Fill_Simulator.thy ===== *)
theory Fill_Simulator
  imports Types
begin

text \<open>
  \<^verbatim>\<open>src/sim/fill_simulator.hpp\<close> and \<^verbatim>\<open>src/sim/fee_model.hpp\<close>: the queue-aware fill model of the
  backtester and the transaction costs. The callback that receives the fills is the list of the
  fills in the order of the calls. The two vectors have \<open>kSimMaxTokens\<close> entries and are functions
  from their indices.
\<close>

subsection \<open>The simulator\<close>

definition kSimMaxTokens :: nat where
  "kSimMaxTokens = 65536"

record SimQuote =
  sq_active :: bool
  sq_price :: Price
  sq_remaining :: Quantity
  sq_queue_ahead :: Quantity
  sq_id :: ClOrdId
  sq_token :: Token

definition SimQuote_default :: SimQuote where
  "SimQuote_default = \<lparr>sq_active = False, sq_price = 0, sq_remaining = 0, sq_queue_ahead = 0, sq_id = 0, sq_token = 0\<rparr>"

record FillSimulator =
  fs_bid :: "nat \<Rightarrow> SimQuote"
  fs_ask :: "nat \<Rightarrow> SimQuote"
  fs_fills :: u64
  fs_next_trade_no :: int

definition FillSimulator_init :: FillSimulator where
  "FillSimulator_init = \<lparr>fs_bid = (\<lambda>_. SimQuote_default), fs_ask = (\<lambda>_. SimQuote_default), fs_fills = 0, fs_next_trade_no = 1\<rparr>"

definition register_order :: "Order \<Rightarrow> Quantity \<Rightarrow> FillSimulator \<Rightarrow> FillSimulator" where
  "register_order ord queue_ahead fs =
     (if unat (o_token ord) \<ge> kSimMaxTokens then fs
      else let q = \<lparr>sq_active = True, sq_price = o_price ord, sq_remaining = o_qty ord,
                    sq_queue_ahead = (if queue_ahead < 0 then 0 else queue_ahead), sq_id = o_client_order_id ord,
                    sq_token = o_token ord\<rparr>
           in if o_side ord = kBuy then fs\<lparr>fs_bid := (fs_bid fs)(unat (o_token ord) := q)\<rparr>
              else fs\<lparr>fs_ask := (fs_ask fs)(unat (o_token ord) := q)\<rparr>)"

text \<open>\<open>MatchAgainst\<close> works on a reference to the quote; the caller stores the quote it returns.\<close>

definition MatchAgainst :: "SimQuote \<Rightarrow> Side \<Rightarrow> Quantity \<Rightarrow> FillSimulator \<Rightarrow> SimQuote \<times> FillReport list \<times> FillSimulator" where
  "MatchAgainst q side trade_qty fs =
     (let eat_queue = min (sq_queue_ahead q) trade_qty;
          q = q\<lparr>sq_queue_ahead := sq_queue_ahead q - eat_queue\<rparr>;
          trade_qty = trade_qty - eat_queue
      in if trade_qty \<le> 0 then (q, [], fs)
         else let fill_qty = min (sq_remaining q) trade_qty
              in if fill_qty \<le> 0 then (q, [], fs)
                 else let q = q\<lparr>sq_remaining := sq_remaining q - fill_qty\<rparr>;
                          f = \<lparr>f_exchange_order_no = 0, f_client_order_id = sq_id q, f_token = sq_token q,
                               f_fill_price = sq_price q, f_fill_qty = fill_qty, f_remaining_qty = sq_remaining q,
                               f_fill_time = 0, f_trade_no = fs_next_trade_no fs, f_side = side\<rparr>;
                          fs = fs\<lparr>fs_fills := fs_fills fs + 1, fs_next_trade_no := fs_next_trade_no fs + 1\<rparr>
                      in (if sq_remaining q \<le> 0 then q\<lparr>sq_active := False\<rparr> else q, [f], fs))"

definition FillSimulator_on_event :: "MarketEvent \<Rightarrow> FillSimulator \<Rightarrow> FillReport list \<times> FillSimulator" where
  "FillSimulator_on_event ev fs =
     (if me_type ev \<noteq> kTrade then ([], fs)
      else if unat (me_token ev) \<ge> kSimMaxTokens then ([], fs)
      else let p = me_price ev; trade_qty = me_qty ev; t = unat (me_token ev); b = fs_bid fs t;
               (fills_b, fs) = (if sq_active b \<and> p \<le> sq_price b
                                then let (b', fills, fs) = MatchAgainst b kBuy trade_qty fs
                                     in (fills, fs\<lparr>fs_bid := (fs_bid fs)(t := b')\<rparr>)
                                else ([], fs));
               a = fs_ask fs t;
               (fills_a, fs) = (if sq_active a \<and> p \<ge> sq_price a
                                then let (a', fills, fs) = MatchAgainst a kSell trade_qty fs
                                     in (fills, fs\<lparr>fs_ask := (fs_ask fs)(t := a')\<rparr>)
                                else ([], fs))
           in (fills_b @ fills_a, fs))"

fun sim_run :: "MarketEvent list \<Rightarrow> FillSimulator \<Rightarrow> FillReport list \<times> FillSimulator" where
  "sim_run [] fs = ([], fs)"
| "sim_run (ev # evs) fs =
     (let (fills, fs) = FillSimulator_on_event ev fs; (more, fs) = sim_run evs fs in (fills @ more, fs))"

subsection \<open>The fee model\<close>

record FeeModel =
  fm_txn_bp100 :: int
  fm_sebi_bp100 :: int
  fm_stt_sell_bp100 :: int
  fm_stamp_buy_bp100 :: int
  fm_gst_pct :: int
  fm_maker_rebate_bp100 :: int

definition FeeModel_default :: FeeModel where
  "FeeModel_default = \<lparr>fm_txn_bp100 = 19, fm_sebi_bp100 = 1, fm_stt_sell_bp100 = 200, fm_stamp_buy_bp100 = 20, fm_gst_pct = 18,
     fm_maker_rebate_bp100 = 0\<rparr>"

definition cost_paise :: "FeeModel \<Rightarrow> Side \<Rightarrow> Price \<Rightarrow> Quantity \<Rightarrow> int" where
  "cost_paise f side price_paise qty =
     (let notional = price_paise * qty;
          txn = (notional * fm_txn_bp100 f) sdiv 1000000;
          sebi = (notional * fm_sebi_bp100 f) sdiv 1000000;
          gst = ((txn + sebi) * fm_gst_pct f) sdiv 100;
          stt = (if side = kSell then (notional * fm_stt_sell_bp100 f) sdiv 1000000 else 0);
          stamp = (if side = kBuy then (notional * fm_stamp_buy_bp100 f) sdiv 1000000 else 0);
          rebate = (notional * fm_maker_rebate_bp100 f) sdiv 1000000
      in txn + sebi + gst + stt + stamp - rebate)"

definition nse_fo_options :: FeeModel where
  "nse_fo_options = FeeModel_default\<lparr>fm_txn_bp100 := 500, fm_stt_sell_bp100 := 1000, fm_stamp_buy_bp100 := 30\<rparr>"

subsection \<open>One trade against a quote\<close>

definition sim_quote :: "Side \<Rightarrow> nat \<Rightarrow> FillSimulator \<Rightarrow> SimQuote" where
  "sim_quote s t fs = (if s then fs_bid fs t else fs_ask fs t)"

text \<open>A trade that reaches a quote: on its token, at its price or through it.\<close>

definition hits :: "Side \<Rightarrow> Token \<Rightarrow> Price \<Rightarrow> MarketEvent \<Rightarrow> bool" where
  "hits s token price ev \<longleftrightarrow> me_type ev = kTrade \<and> me_token ev = token
     \<and> (if s then me_price ev \<le> price else price \<le> me_price ev)"

definition traded :: "Side \<Rightarrow> Token \<Rightarrow> Price \<Rightarrow> MarketEvent list \<Rightarrow> int" where
  "traded s token price evs = sum_list (map me_qty (filter (hits s token price) evs))"

definition quote_ok :: "nat \<Rightarrow> SimQuote \<Rightarrow> bool" where
  "quote_ok t q \<longleftrightarrow> 0 \<le> sq_remaining q \<and> 0 \<le> sq_queue_ahead q \<and> (sq_active q \<longleftrightarrow> 0 < sq_remaining q)
     \<and> (sq_active q \<longrightarrow> unat (sq_token q) = t)"

definition sim_inv :: "FillSimulator \<Rightarrow> bool" where
  "sim_inv fs \<longleftrightarrow> (\<forall>s t. quote_ok t (sim_quote s t fs))"

text \<open>The part of a traded quantity that reaches an order behind its queue.\<close>

definition reached :: "SimQuote \<Rightarrow> int \<Rightarrow> int" where
  "reached q n = min (sq_remaining q) (max 0 (n - sq_queue_ahead q))"

text \<open>What a trade of quantity \<open>n\<close> makes of a quote it reaches, and the fill it causes.\<close>

definition quote_after :: "SimQuote \<Rightarrow> int \<Rightarrow> SimQuote" where
  "quote_after q n = q\<lparr>sq_active := sq_remaining q - reached q n > 0, sq_remaining := sq_remaining q - reached q n,
     sq_queue_ahead := max 0 (sq_queue_ahead q - n)\<rparr>"

definition is_fill :: "Side \<Rightarrow> SimQuote \<Rightarrow> int \<Rightarrow> FillReport \<Rightarrow> bool" where
  "is_fill s q n f \<longleftrightarrow> f_client_order_id f = sq_id q \<and> f_token f = sq_token q \<and> f_fill_price f = sq_price q
     \<and> f_fill_qty f = reached q n \<and> 0 < f_fill_qty f \<and> f_remaining_qty f = sq_remaining q - reached q n \<and> f_side f = s"

lemma match_effect:
  assumes "quote_ok t q" "sq_active q" "0 \<le> n" "MatchAgainst q s n fs = (q', fills, fs')"
  shows "q' = quote_after q n" "fs_bid fs' = fs_bid fs" "fs_ask fs' = fs_ask fs"
    "if reached q n = 0 then fills = [] else \<exists>f. fills = [f] \<and> is_fill s q n f"
  using assms by (auto simp: MatchAgainst_def quote_ok_def reached_def quote_after_def is_fill_def Let_def min_def max_def split: if_splits)

lemma quote_after_ok: "quote_ok t q \<Longrightarrow> sq_active q \<Longrightarrow> quote_ok t (quote_after q n)"
  by (auto simp: quote_ok_def quote_after_def reached_def)

definition touched :: "Side \<Rightarrow> nat \<Rightarrow> MarketEvent \<Rightarrow> FillSimulator \<Rightarrow> bool" where
  "touched s t ev fs \<longleftrightarrow> t < kSimMaxTokens \<and> unat (me_token ev) = t \<and> sq_active (sim_quote s t fs)
     \<and> hits s (me_token ev) (sq_price (sim_quote s t fs)) ev"

text \<open>The two halves of \<open>on_event\<close>, one for each side.\<close>

definition side_phase :: "Side \<Rightarrow> MarketEvent \<Rightarrow> FillSimulator \<Rightarrow> FillReport list \<times> FillSimulator" where
  "side_phase s ev fs =
     (let t = unat (me_token ev)
      in if touched s t ev fs
         then let (q', fills, fs1) = MatchAgainst (sim_quote s t fs) s (me_qty ev) fs
              in (fills, if s then fs1\<lparr>fs_bid := (fs_bid fs1)(t := q')\<rparr> else fs1\<lparr>fs_ask := (fs_ask fs1)(t := q')\<rparr>)
         else ([], fs))"

lemma on_event_phases:
  "FillSimulator_on_event ev fs =
     (let (fills_b, fs1) = side_phase True ev fs; (fills_a, fs2) = side_phase False ev fs1 in (fills_b @ fills_a, fs2))"
proof (cases "me_type ev = kTrade \<and> unat (me_token ev) < kSimMaxTokens")
  case True
  then show ?thesis
    by (simp add: FillSimulator_on_event_def side_phase_def touched_def hits_def sim_quote_def Let_def split: prod.splits)
next
  case False
  then show ?thesis by (auto simp: FillSimulator_on_event_def side_phase_def touched_def hits_def Let_def)
qed

definition fills_of :: "Side \<Rightarrow> nat \<Rightarrow> FillReport list \<Rightarrow> FillReport list" where
  "fills_of s t = filter (\<lambda>f. f_side f = s \<and> unat (f_token f) = t)"

lemma phase_effect:
  assumes "sim_inv fs" "0 \<le> me_qty ev" "side_phase s ev fs = (fills, fs')"
  shows "sim_quote s' t fs' = (if s' = s \<and> touched s t ev fs then quote_after (sim_quote s t fs) (me_qty ev) else sim_quote s' t fs)"
    and "if s' = s \<and> touched s t ev fs \<and> reached (sim_quote s t fs) (me_qty ev) > 0
      then \<exists>f. fills_of s' t fills = [f] \<and> is_fill s (sim_quote s t fs) (me_qty ev) f else fills_of s' t fills = []"
proof -
  define u where "u = unat (me_token ev)"
  define q where "q = sim_quote s u fs"
  have ok: "quote_ok u q" using assms(1) by (auto simp: sim_inv_def q_def)
  have other: "\<not> touched s t ev fs" if "t \<noteq> u" using that by (auto simp: touched_def u_def)
  have "sim_quote s' t fs' = (if s' = s \<and> touched s t ev fs then quote_after (sim_quote s t fs) (me_qty ev) else sim_quote s' t fs)
    \<and> (if s' = s \<and> touched s t ev fs \<and> reached (sim_quote s t fs) (me_qty ev) > 0
      then \<exists>f. fills_of s' t fills = [f] \<and> is_fill s (sim_quote s t fs) (me_qty ev) f else fills_of s' t fills = [])"
  proof (cases "touched s u ev fs")
    case False
    then have "fills = []" "fs' = fs" using assms(3) by (auto simp: side_phase_def u_def Let_def)
    then show ?thesis using other False by (cases "t = u") (auto simp: fills_of_def)
  next
    case True
    then have act: "sq_active q" by (simp add: touched_def q_def)
    obtain q' fl fs1 where m: "MatchAgainst q s (me_qty ev) fs = (q', fl, fs1)" by (metis prod_cases3)
    note e = match_effect [OF ok act assms(2) m]
    have r: "fills = fl" "fs' = (if s then fs1\<lparr>fs_bid := (fs_bid fs1)(u := q')\<rparr> else fs1\<lparr>fs_ask := (fs_ask fs1)(u := q')\<rparr>)"
      using assms(3) True m by (auto simp: side_phase_def u_def q_def Let_def)
    have tok: "unat (sq_token q) = u" using ok act by (simp add: quote_ok_def)
    have quote: "sim_quote s' t fs' = (if s' = s \<and> t = u then quote_after q (me_qty ev) else sim_quote s' t fs)"
      using e(1-3) by (cases s; cases s') (simp_all add: r(2) sim_quote_def)
    have pos: "0 \<le> reached q (me_qty ev)" using ok by (simp add: reached_def quote_ok_def)
    have "if s' = s \<and> t = u \<and> reached q (me_qty ev) > 0
      then \<exists>f. fills_of s' t fills = [f] \<and> is_fill s q (me_qty ev) f else fills_of s' t fills = []"
      using e(4) pos tok unfolding r(1) by (auto simp: fills_of_def is_fill_def split: if_splits)
    then show ?thesis using quote True other by (cases "t = u") (auto simp: q_def)
  qed
  then show "sim_quote s' t fs' = (if s' = s \<and> touched s t ev fs then quote_after (sim_quote s t fs) (me_qty ev) else sim_quote s' t fs)"
    "if s' = s \<and> touched s t ev fs \<and> reached (sim_quote s t fs) (me_qty ev) > 0
      then \<exists>f. fills_of s' t fills = [f] \<and> is_fill s (sim_quote s t fs) (me_qty ev) f else fills_of s' t fills = []" by blast+
qed

lemma phase_inv: "sim_inv fs \<Longrightarrow> 0 \<le> me_qty ev \<Longrightarrow> side_phase s ev fs = (fills, fs') \<Longrightarrow> sim_inv fs'"
  using phase_effect(1) [of fs ev s fills fs'] quote_after_ok by (auto simp: sim_inv_def touched_def)

text \<open>An event changes exactly the quotes it touches, and its fills are theirs.\<close>

lemma sim_event_effect:
  assumes "sim_inv fs" "0 \<le> me_qty ev" "FillSimulator_on_event ev fs = (fills, fs')"
  shows "sim_inv fs'"
    and "sim_quote s t fs' = (if touched s t ev fs then quote_after (sim_quote s t fs) (me_qty ev) else sim_quote s t fs)"
    and "if touched s t ev fs \<and> reached (sim_quote s t fs) (me_qty ev) > 0
      then \<exists>f. fills_of s t fills = [f] \<and> is_fill s (sim_quote s t fs) (me_qty ev) f else fills_of s t fills = []"
proof -
  obtain fb fs1 where b: "side_phase True ev fs = (fb, fs1)" by (cases "side_phase True ev fs")
  obtain fa fs2 where a: "side_phase False ev fs1 = (fa, fs2)" by (cases "side_phase False ev fs1")
  have r: "fills = fb @ fa" "fs' = fs2" using assms(3) a b by (auto simp: on_event_phases Let_def)
  have inv1: "sim_inv fs1" by (rule phase_inv [OF assms(1,2) b])
  then show "sim_inv fs'" unfolding r by (rule phase_inv [OF _ assms(2) a])
  note eb = phase_effect [OF assms(1,2) b, of s t] and ea = phase_effect [OF inv1 assms(2) a, of s t]
  have q: "sim_quote False t fs1 = sim_quote False t fs" using phase_effect(1) [OF assms(1,2) b, of False t] by simp
  then have t: "touched False t ev fs1 = touched False t ev fs" by (simp add: touched_def)
  show "sim_quote s t fs' = (if touched s t ev fs then quote_after (sim_quote s t fs) (me_qty ev) else sim_quote s t fs)"
    using eb(1) ea(1) by (cases s) (simp_all add: r q t)
  show "if touched s t ev fs \<and> reached (sim_quote s t fs) (me_qty ev) > 0
      then \<exists>f. fills_of s t fills = [f] \<and> is_fill s (sim_quote s t fs) (me_qty ev) f else fills_of s t fills = []"
    using eb(2) ea(2) by (cases s) (auto simp: r q t fills_of_def split: if_splits)
qed

subsection \<open>A quote over a sequence of events\<close>

definition volumes_ok :: "MarketEvent list \<Rightarrow> bool" where
  "volumes_ok evs \<longleftrightarrow> list_all (\<lambda>ev. 0 \<le> me_qty ev) evs"

definition filled :: "FillReport list \<Rightarrow> int" where
  "filled fills = sum_list (map f_fill_qty fills)"

lemma reached_split:
  assumes "quote_ok t q" "sq_active q" "0 \<le> n" "0 \<le> v"
  shows "reached q (n + v) = reached q n + reached (quote_after q n) v"
  using assms by (auto simp: reached_def quote_after_def quote_ok_def min_def max_def)

lemma traded_nonneg: "volumes_ok evs \<Longrightarrow> 0 \<le> traded s token price evs"
  by (induction evs) (simp_all add: traded_def volumes_ok_def)

lemma traded_Cons: "traded s token price (ev # evs) = (if hits s token price ev then me_qty ev else 0) + traded s token price evs"
  by (simp add: traded_def)

lemma fills_of_append [simp]: "fills_of s t (xs @ ys) = fills_of s t xs @ fills_of s t ys" "fills_of s t [] = []"
  by (simp_all add: fills_of_def)

lemma sim_run_inactive:
  assumes "sim_inv fs" "volumes_ok evs" "\<not> sq_active (sim_quote s t fs)" "sim_run evs fs = (fills, fs')"
  shows "fills_of s t fills = [] \<and> sim_quote s t fs' = sim_quote s t fs"
  using assms
proof (induction evs arbitrary: fs fills)
  case (Cons ev evs)
  obtain f1 fs1 where 1: "FillSimulator_on_event ev fs = (f1, fs1)" by (cases "FillSimulator_on_event ev fs")
  obtain f2 where 2: "sim_run evs fs1 = (f2, fs')" "fills = f1 @ f2"
    using Cons.prems(4) 1 by (auto split: prod.splits)
  have nt: "\<not> touched s t ev fs" using Cons.prems(3) by (simp add: touched_def)
  have q: "0 \<le> me_qty ev" "volumes_ok evs" using Cons.prems(2) by (simp_all add: volumes_ok_def)
  note e = sim_event_effect [OF Cons.prems(1) q(1) 1]
  have "sim_quote s t fs1 = sim_quote s t fs" "fills_of s t f1 = []" using e(2,3) [of s t] nt by simp_all
  then show ?case using Cons.IH [OF e(1) q(2) _ 2(1)] Cons.prems(3) 2(2) by simp
qed simp

lemma sim_run_fills:
  assumes "sim_inv fs" "volumes_ok evs" "sim_quote s t fs = q" "sq_active q" "t < kSimMaxTokens" "sim_run evs fs = (fills, fs')"
  shows "filled (fills_of s t fills) = reached q (traded s (sq_token q) (sq_price q) evs)
    \<and> sq_remaining (sim_quote s t fs') = sq_remaining q - filled (fills_of s t fills)
    \<and> (\<forall>f \<in> set (fills_of s t fills). f_client_order_id f = sq_id q \<and> f_fill_price f = sq_price q \<and> 0 < f_fill_qty f)"
  using assms
proof (induction evs arbitrary: fs fills q)
  case Nil
  then have "quote_ok t q" by (auto simp: sim_inv_def)
  then show ?case using Nil by (auto simp: filled_def traded_def reached_def quote_ok_def)
next
  case (Cons ev evs)
  let ?v = "\<lambda>q. traded s (sq_token q) (sq_price q) evs"
  obtain f1 fs1 where 1: "FillSimulator_on_event ev fs = (f1, fs1)" by (cases "FillSimulator_on_event ev fs")
  obtain f2 where 2: "sim_run evs fs1 = (f2, fs')" "fills = f1 @ f2"
    using Cons.prems(6) 1 by (auto split: prod.splits)
  have n: "0 \<le> me_qty ev" "volumes_ok evs" using Cons.prems(2) by (simp_all add: volumes_ok_def)
  have ok: "quote_ok t q" using Cons.prems(1,3) by (auto simp: sim_inv_def)
  note e = sim_event_effect [OF Cons.prems(1) n(1) 1]
  have hit: "touched s t ev fs = hits s (sq_token q) (sq_price q) ev"
    using ok Cons.prems(3-5) by (auto simp: touched_def hits_def quote_ok_def word_unat_eq_iff)
  show ?case
  proof (cases "touched s t ev fs")
    case False
    then have "sim_quote s t fs1 = q" "fills_of s t f1 = []" using e(2,3) [of s t] Cons.prems(3) by simp_all
    then show ?thesis using Cons.IH [OF e(1) n(2) _ Cons.prems(4,5) 2(1)] False hit 2(2) by (simp add: traded_Cons)
  next
    case True
    define q1 where "q1 = quote_after q (me_qty ev)"
    have q1: "sim_quote s t fs1 = q1" using e(2) [of s t] True Cons.prems(3) by (simp add: q1_def)
    have same: "sq_token q1 = sq_token q" "sq_price q1 = sq_price q" "sq_id q1 = sq_id q" by (simp_all add: q1_def quote_after_def)
    have f1: "filled (fills_of s t f1) = reached q (me_qty ev)"
      "\<forall>f \<in> set (fills_of s t f1). f_client_order_id f = sq_id q \<and> f_fill_price f = sq_price q \<and> 0 < f_fill_qty f"
      using e(3) [of s t] True ok Cons.prems(3)
      by (auto simp: filled_def is_fill_def reached_def quote_ok_def split: if_splits)
    have r1: "sq_remaining q1 = sq_remaining q - reached q (me_qty ev)" by (simp add: q1_def quote_after_def)
    have sum: "reached q (me_qty ev + ?v q) = reached q (me_qty ev) + reached q1 (?v q)"
      unfolding q1_def by (rule reached_split [OF ok Cons.prems(4) n(1) traded_nonneg [OF n(2)]])
    have tr: "traded s (sq_token q) (sq_price q) (ev # evs) = me_qty ev + ?v q" using True hit by (simp add: traded_Cons)
    show ?thesis
    proof (cases "sq_active q1")
      case True
      from Cons.IH [OF e(1) n(2) q1 True Cons.prems(5) 2(1)] show ?thesis
        using f1 r1 sum unfolding tr 2(2) same by (auto simp: filled_def)
    next
      case False
      then have z: "sq_remaining q1 = 0" using quote_after_ok [OF ok Cons.prems(4), of "me_qty ev"] by (simp add: q1_def quote_ok_def)
      then have "reached q1 (?v q) = 0" by (simp add: reached_def)
      then show ?thesis using sim_run_inactive [OF e(1) n(2) _ 2(1), of s t] False q1 z f1 r1 sum unfolding tr 2(2)
        by (simp add: filled_def)
    qed
  qed
qed

text \<open>Simulators the backtester can reach: orders with a positive quantity, trades with a quantity.\<close>

datatype sim_op = SimRegister Order Quantity | SimEvent MarketEvent

fun sim_exec :: "sim_op \<Rightarrow> FillSimulator \<Rightarrow> FillSimulator" where
  "sim_exec (SimRegister ord ahead) fs = (if 0 < o_qty ord then register_order ord ahead fs else fs)"
| "sim_exec (SimEvent ev) fs = (if 0 \<le> me_qty ev then snd (FillSimulator_on_event ev fs) else fs)"

lemma sim_inv_init: "sim_inv FillSimulator_init"
  by (simp add: sim_inv_def FillSimulator_init_def sim_quote_def quote_ok_def SimQuote_default_def)

lemma register_effect:
  "unat (o_token ord) < kSimMaxTokens \<Longrightarrow> sim_quote s t (register_order ord ahead fs) =
    (if s = o_side ord \<and> t = unat (o_token ord)
     then \<lparr>sq_active = True, sq_price = o_price ord, sq_remaining = o_qty ord, sq_queue_ahead = max 0 ahead,
       sq_id = o_client_order_id ord, sq_token = o_token ord\<rparr> else sim_quote s t fs)"
  by (auto simp: register_order_def sim_quote_def max_def Let_def)

lemma register_inv: "sim_inv fs \<Longrightarrow> 0 < o_qty ord \<Longrightarrow> sim_inv (register_order ord ahead fs)"
  by (cases "unat (o_token ord) < kSimMaxTokens")
    (simp_all add: sim_inv_def register_effect quote_ok_def, simp add: register_order_def)

interpretation sim: op_machine sim_exec sim_inv
proof (unfold_locales, goal_cases)
  case (1 fs op)
  then show ?case
    using register_inv sim_event_effect(1) [OF 1 _ surjective_pairing] by (cases op) auto
qed

subsection \<open>Costs\<close>

definition rates_ok :: "FeeModel \<Rightarrow> bool" where
  "rates_ok f \<longleftrightarrow> 0 \<le> fm_txn_bp100 f \<and> 0 \<le> fm_sebi_bp100 f \<and> 0 \<le> fm_stt_sell_bp100 f \<and> 0 \<le> fm_stamp_buy_bp100 f
     \<and> 0 \<le> fm_gst_pct f \<and> 0 \<le> fm_maker_rebate_bp100 f"

lemma rates_ok_presets: "rates_ok FeeModel_default" "rates_ok nse_fo_options"
  by (simp_all add: rates_ok_def FeeModel_default_def nse_fo_options_def)

lemma share_nonneg: "0 \<le> n \<Longrightarrow> 0 \<le> r \<Longrightarrow> 0 < d \<Longrightarrow> 0 \<le> (n * r) sdiv (d::int)"
  by (simp add: sdiv_nonneg pos_imp_zdiv_nonneg_iff)

text \<open>Without a rebate a fill never earns money from the costs.\<close>

lemma cost_nonneg:
  assumes "rates_ok f" "fm_maker_rebate_bp100 f = 0" "0 \<le> price" "0 \<le> qty"
  shows "0 \<le> cost_paise f side price qty"
proof -
  define n where "n = price * qty"
  have n: "0 \<le> n" using assms(3,4) by (simp add: n_def)
  define txn where "txn = (n * fm_txn_bp100 f) sdiv 1000000"
  define sebi where "sebi = (n * fm_sebi_bp100 f) sdiv 1000000"
  have "0 \<le> txn" "0 \<le> sebi" "0 \<le> (n * fm_stt_sell_bp100 f) sdiv 1000000" "0 \<le> (n * fm_stamp_buy_bp100 f) sdiv 1000000"
    using assms(1) share_nonneg [OF n, of _ 1000000] by (simp_all add: txn_def sebi_def rates_ok_def)
  moreover from this have "0 \<le> ((txn + sebi) * fm_gst_pct f) sdiv 100"
    using assms(1) share_nonneg [of "txn + sebi" "fm_gst_pct f" 100] by (simp add: rates_ok_def)
  ultimately show ?thesis
    unfolding cost_paise_def Let_def n_def [symmetric] txn_def [symmetric] sebi_def [symmetric] using assms(2) by simp
qed

subsection \<open>Properties\<close>

text \<open>C27 The queue model in closed form. Whatever happened before, a quote registered behind a queue of
  \<open>ahead\<close> is filled, over any sequence of market events, by exactly what traded at its price or
  through it beyond that queue, and by no more than its quantity; every fill is at the quote's own
  price and carries its id, and the remaining quantity accounts for all of them.\<close>

theorem queue_fill_exact:
  assumes "fs = fold sim_exec ops FillSimulator_init" "unat (o_token ord) < kSimMaxTokens" "0 < o_qty ord" "volumes_ok evs"
    and "sim_run evs (register_order ord ahead fs) = (fills, fs')" "mine = fills_of (o_side ord) (unat (o_token ord)) fills"
  shows "filled mine = min (o_qty ord) (max 0 (traded (o_side ord) (o_token ord) (o_price ord) evs - max 0 ahead))
     \<and> sq_remaining (sim_quote (o_side ord) (unat (o_token ord)) fs') = o_qty ord - filled mine
     \<and> (\<forall>f \<in> set mine. f_client_order_id f = o_client_order_id ord \<and> f_fill_price f = o_price ord \<and> 0 < f_fill_qty f)"
proof -
  have inv: "sim_inv (register_order ord ahead fs)" unfolding assms(1) by (rule register_inv [OF sim.run_inv [OF sim_inv_init] assms(3)])
  note q = register_effect [OF assms(2), of "o_side ord" "unat (o_token ord)" ahead fs, simplified]
  from sim_run_fills [OF inv assms(4) q _ assms(2,5)] show ?thesis by (simp add: assms(6) reached_def)
qed

theorem queue_fill_exact_witness:
  "let ord = example_order\<lparr>o_price := 100, o_qty := 10\<rparr>; trade = (\<lambda>p n. zero_event\<lparr>me_type := kTrade, me_token := 7, me_price := p, me_qty := n\<rparr>);
       (fills, fs') = sim_run [trade 100 6, trade 101 50, trade 99 8] (register_order ord 4 FillSimulator_init)
   in filled (fills_of True 7 fills) = 10"
proof -
  let ?ord = "example_order\<lparr>o_price := 100, o_qty := 10\<rparr>"
  let ?evs = "[zero_event\<lparr>me_type := kTrade, me_token := 7, me_price := 100, me_qty := 6\<rparr>,
    zero_event\<lparr>me_type := kTrade, me_token := 7, me_price := 101, me_qty := 50\<rparr>,
    zero_event\<lparr>me_type := kTrade, me_token := 7, me_price := 99, me_qty := 8\<rparr>]"
  obtain fills fs' where r: "sim_run ?evs (register_order ?ord 4 FillSimulator_init) = (fills, fs')" by fastforce
  have o: "unat (o_token ?ord) < kSimMaxTokens" "0 < o_qty ?ord" "volumes_ok ?evs" "o_side ?ord" "unat (o_token ?ord) = 7"
    by (simp_all add: example_order_def kSimMaxTokens_def volumes_ok_def)
  have "traded True (o_token ?ord) (o_price ?ord) ?evs = 14" by (simp add: traded_def hits_def example_order_def)
  then have "filled (fills_of True 7 fills) = 10"
    using queue_fill_exact [of FillSimulator_init "[]", OF _ o(1-3) r refl] o(4,5) by simp
  then show ?thesis using r by (simp add: Let_def)
qed

end
