(* ===== verification/Backtest.thy ===== *)
theory Backtest
  imports Pipeline Fill_Simulator
begin

text \<open>
  \<^verbatim>\<open>src/sim/backtest_engine.hpp\<close> with the metrics writer of \<^verbatim>\<open>src/monitor/metrics.hpp\<close>: the whole
  tick-to-trade pipeline driven by a list of market events, with the fill simulator in the place of
  the exchange.

  A file that is open for writing is the text written so far; whether it can be opened is an
  argument, as are the clock readings of every call and the uninitialised memory of the order table
  and of the message buffer.
\<close>

subsection \<open>Metrics\<close>

record MetricSnapshot =
  ms_t :: u64
  ms_events :: u64
  ms_orders_sent :: u64
  ms_orders_rejected :: u64
  ms_fills :: u64
  ms_position :: int
  ms_pnl_inr :: int
  ms_lat_p50 :: u64
  ms_lat_p99 :: u64
  ms_lat_p999 :: u64

record MetricsWriter =
  mw_file :: "string option"
  mw_rows :: u64

definition MetricsWriter_init :: MetricsWriter where
  "MetricsWriter_init = \<lparr>mw_file = None, mw_rows = 0\<rparr>"

definition MetricsWriter_close :: "MetricsWriter \<Rightarrow> MetricsWriter" where
  "MetricsWriter_close mw = mw\<lparr>mw_file := None\<rparr>"

definition MetricsWriter_open :: "bool \<Rightarrow> MetricsWriter \<Rightarrow> bool \<times> MetricsWriter" where
  "MetricsWriter_open opens mw = (opens, (MetricsWriter_close mw)\<lparr>mw_file := if opens then Some [] else None\<rparr>)"

definition json_field :: "string \<Rightarrow> string \<Rightarrow> string" where
  "json_field name v = CHR 0x22 # name @ [CHR 0x22, CHR '':''] @ v"

definition json_line :: "MetricSnapshot \<Rightarrow> string" where
  "json_line s = ''{'' @ json_field ''t'' (dec (unat (ms_t s))) @ '','' @ json_field ''events'' (dec (unat (ms_events s)))
     @ '','' @ json_field ''orders_sent'' (dec (unat (ms_orders_sent s)))
     @ '','' @ json_field ''orders_rejected'' (dec (unat (ms_orders_rejected s))) @ '','' @ json_field ''fills'' (dec (unat (ms_fills s)))
     @ '','' @ json_field ''position'' (dec_int (ms_position s)) @ '','' @ json_field ''pnl_inr'' (dec_int (ms_pnl_inr s))
     @ '','' @ json_field ''lat_p50'' (dec (unat (ms_lat_p50 s))) @ '','' @ json_field ''lat_p99'' (dec (unat (ms_lat_p99 s)))
     @ '','' @ json_field ''lat_p999'' (dec (unat (ms_lat_p999 s))) @ ''}'' @ [CHR 0x0A]"

definition MetricsWriter_write :: "MetricSnapshot \<Rightarrow> MetricsWriter \<Rightarrow> MetricsWriter" where
  "MetricsWriter_write s mw =
     (case mw_file mw of
        None \<Rightarrow> mw
      | Some text \<Rightarrow> mw\<lparr>mw_file := Some (text @ json_line s), mw_rows := mw_rows mw + 1\<rparr>)"

subsection \<open>The engine\<close>

record BtResult =
  br_orders_sent :: u64
  br_orders_rejected :: u64
  br_fills :: u64
  br_position :: int
  br_gross_pnl_inr :: int
  br_fees_inr :: int
  br_pnl_inr :: int
  br_lat_p50 :: u64
  br_lat_p99 :: u64
  br_lat_p999 :: u64

text \<open>The local variables of \<open>run_backtest\<close> that its loop changes.\<close>

record Backtest =
  bt_pipe :: Pipeline
  bt_fillsim :: FillSimulator
  bt_metrics :: MetricsWriter
  bt_cash_paisa :: int
  bt_fees_paisa :: int
  bt_position :: int
  bt_mark :: Price
  bt_maker_fills :: u64
  bt_event_index :: u64

definition bt_next_mark :: "MarketEvent \<Rightarrow> Price \<Rightarrow> Price" where
  "bt_next_mark ev mark =
     (if me_type ev = kSnapQuote then (me_bid_price ev + me_ask_price ev) sdiv 2
      else if me_type ev = kTrade then me_price ev
      else mark)"

definition bt_on_fill :: "FeeModel \<Rightarrow> FillReport \<Rightarrow> Backtest \<Rightarrow> Backtest" where
  "bt_on_fill fees f bt =
     (let bt = bt\<lparr>bt_pipe := Pipeline_on_fill f (bt_pipe bt)\<rparr>;
          bt = (if f_side f = kBuy
                then bt\<lparr>bt_cash_paisa := bt_cash_paisa bt - f_fill_qty f * f_fill_price f, bt_position := bt_position bt + f_fill_qty f\<rparr>
                else bt\<lparr>bt_cash_paisa := bt_cash_paisa bt + f_fill_qty f * f_fill_price f, bt_position := bt_position bt - f_fill_qty f\<rparr>)
      in bt\<lparr>bt_fees_paisa := bt_fees_paisa bt + cost_paise fees (f_side f) (f_fill_price f) (f_fill_qty f),
            bt_maker_fills := bt_maker_fills bt + 1\<rparr>)"

definition bt_register :: "Token \<Rightarrow> Backtest \<Rightarrow> Order \<Rightarrow> FillSimulator \<Rightarrow> FillSimulator" where
  "bt_register token bt ord =
     register_order ord (case get_book token (pp_books (bt_pipe bt)) of None \<Rightarrow> 0
                         | Some book \<Rightarrow> displayed_qty_at (o_side ord) (o_price ord) book)"

definition bt_snapshot :: "Backtest \<Rightarrow> MetricSnapshot" where
  "bt_snapshot bt = (let st = pp_stats (bt_pipe bt); lat = pp_tick_to_trade (bt_pipe bt)
     in \<lparr>ms_t = bt_event_index bt, ms_events = ps_events st, ms_orders_sent = ps_orders_sent st,
         ms_orders_rejected = ps_orders_rejected st, ms_fills = bt_maker_fills bt, ms_position = bt_position bt,
         ms_pnl_inr = (bt_cash_paisa bt + bt_position bt * bt_mark bt - bt_fees_paisa bt) sdiv 100,
         ms_lat_p50 = p50 lat, ms_lat_p99 = p99 lat, ms_lat_p999 = p999 lat\<rparr>)"

definition bt_step :: "FeeModel \<Rightarrow> Token \<Rightarrow> bool \<Rightarrow> u64 \<Rightarrow> Clocks \<Rightarrow> MarketEvent \<Rightarrow> Backtest \<Rightarrow> Backtest option" where
  "bt_step fees token want_metrics snapshot_every ck ev bt =
     (let bt = bt\<lparr>bt_mark := bt_next_mark ev (bt_mark bt)\<rparr>;
          (fills, fs) = FillSimulator_on_event ev (bt_fillsim bt);
          bt = fold (bt_on_fill fees) fills (bt\<lparr>bt_fillsim := fs\<rparr>)
      in do { (n, pipe) \<leftarrow> process ck ev (bt_pipe bt);
              let bt = bt\<lparr>bt_pipe := pipe\<rparr>;
              let bt = bt\<lparr>bt_fillsim := fold (bt_register token bt) (last_sent pipe) (bt_fillsim bt)\<rparr>;
              let bt = bt\<lparr>bt_event_index := bt_event_index bt + 1\<rparr>;
              Some (if want_metrics \<and> bt_event_index bt mod snapshot_every = 0
                    then bt\<lparr>bt_metrics := MetricsWriter_write (bt_snapshot bt) (bt_metrics bt)\<rparr> else bt) })"

fun bt_loop :: "FeeModel \<Rightarrow> Token \<Rightarrow> bool \<Rightarrow> u64 \<Rightarrow> (nat \<Rightarrow> Clocks) \<Rightarrow> nat \<Rightarrow> MarketEvent list \<Rightarrow> Backtest \<Rightarrow> Backtest option" where
  "bt_loop fees token want_metrics every cks k [] bt = Some bt"
| "bt_loop fees token want_metrics every cks k (ev # evs) bt =
     do { bt' \<leftarrow> bt_step fees token want_metrics every (cks k) ev bt; bt_loop fees token want_metrics every cks (k + 1) evs bt' }"

definition bt_instrument :: "Token \<Rightarrow> Price \<Rightarrow> Price \<Rightarrow> Instrument" where
  "bt_instrument token mid tick = Instrument_default\<lparr>i_token := token, i_segment := kSegmentCm, i_instrument_type := kEquity,
     i_lot_size := 1, i_tick_size := tick, i_prev_close := mid, i_circuit_pct_x100 := 2000\<rparr>"

definition bt_risk_config :: RiskConfig where
  "bt_risk_config = RiskConfig_default\<lparr>rc_max_orders_per_sec := 1000000000, rc_max_token_position_lots := 1000000,
     rc_price_sanity_pct := 50\<rparr>"

definition bt_start ::
    "MarketMakingConfig \<Rightarrow> Token \<Rightarrow> Price \<Rightarrow> Price \<Rightarrow> bool \<Rightarrow> timespec \<Rightarrow> (nat \<Rightarrow> Order) \<Rightarrow> u8 list \<Rightarrow> Backtest option" where
  "bt_start cfg token mid tick opens wall memory buf =
     (let symbols = sm_put (bt_instrument token mid tick) SymbolMaster_init
      in do { (watched, books) \<leftarrow> add_token token tick (2 ^ 14) BookManager_init;
              let pipe = Pipeline_init books (MarketMaking_init (Some symbols) cfg) (RiskManager_init (Some symbols) bt_risk_config)
                           (OrderManager_init memory) buf;
              Some \<lparr>bt_pipe = Pipeline_set_now (ist_time_of_day_ns (ist_now_ns wall) 10 0 0) pipe,
                    bt_fillsim = FillSimulator_init, bt_metrics = snd (MetricsWriter_open opens MetricsWriter_init),
                    bt_cash_paisa = 0, bt_fees_paisa = 0, bt_position = 0, bt_mark = mid, bt_maker_fills = 0, bt_event_index = 0\<rparr> })"

definition bt_result :: "Backtest \<Rightarrow> BtResult" where
  "bt_result bt = (let st = pp_stats (bt_pipe bt); lat = pp_tick_to_trade (bt_pipe bt)
     in \<lparr>br_orders_sent = ps_orders_sent st, br_orders_rejected = ps_orders_rejected st, br_fills = bt_maker_fills bt,
         br_position = bt_position bt, br_gross_pnl_inr = (bt_cash_paisa bt + bt_position bt * bt_mark bt) sdiv 100,
         br_fees_inr = bt_fees_paisa bt sdiv 100,
         br_pnl_inr = (bt_cash_paisa bt + bt_position bt * bt_mark bt - bt_fees_paisa bt) sdiv 100,
         br_lat_p50 = p50 lat, br_lat_p99 = p99 lat, br_lat_p999 = p999 lat\<rparr>)"

text \<open>The state of the engine after all events; \<open>run_backtest\<close> reports from it.\<close>

definition bt_final ::
    "MarketEvent list \<Rightarrow> MarketMakingConfig \<Rightarrow> Token \<Rightarrow> Price \<Rightarrow> Price \<Rightarrow> bool \<Rightarrow> FeeModel \<Rightarrow> timespec \<Rightarrow> (nat \<Rightarrow> Clocks)
       \<Rightarrow> (nat \<Rightarrow> Order) \<Rightarrow> u8 list \<Rightarrow> Backtest option" where
  "bt_final events cfg token mid tick opens fees wall cks memory buf =
     do { bt \<leftarrow> bt_start cfg token mid tick opens wall memory buf;
          let snapshot_every = (if events = [] then 1 else of_nat (length events div 200 + 1));
          bt_loop fees token opens snapshot_every cks 0 events bt }"

definition run_backtest ::
    "MarketEvent list \<Rightarrow> MarketMakingConfig \<Rightarrow> Token \<Rightarrow> Price \<Rightarrow> Price \<Rightarrow> bool \<Rightarrow> FeeModel \<Rightarrow> timespec \<Rightarrow> (nat \<Rightarrow> Clocks)
       \<Rightarrow> (nat \<Rightarrow> Order) \<Rightarrow> u8 list \<Rightarrow> BtResult option" where
  "run_backtest events cfg token mid tick opens fees wall cks memory buf =
     map_option bt_result (bt_final events cfg token mid tick opens fees wall cks memory buf)"

subsection \<open>The invariant\<close>

text \<open>The books of the engine and those of the components: the strategy, the risk manager and the
  engine agree on the position, the engine's cash is the risk manager's cash flow, every fill is
  counted once, and quotes and orders are for the one instrument, in the configured quantity and
  inside its price band.\<close>

definition quote_listed :: "Token \<Rightarrow> int \<Rightarrow> SimQuote \<Rightarrow> bool" where
  "quote_listed token lots q \<longleftrightarrow> (sq_active q \<longrightarrow> sq_token q = token \<and> sq_remaining q \<le> lots \<and> 0 \<le> sq_price q)"

definition bt_agree :: "Token \<Rightarrow> Backtest \<Rightarrow> bool" where
  "bt_agree token bt \<longleftrightarrow> mm_position (pp_strat (bt_pipe bt)) (unat token) = bt_position bt
     \<and> rm_position (pp_risk (bt_pipe bt)) (unat token) = bt_position bt
     \<and> rm_cashflow_paisa (pp_risk (bt_pipe bt)) = bt_cash_paisa bt \<and> bt_maker_fills bt = fs_fills (bt_fillsim bt)"

definition bt_fixed :: "MarketMakingConfig \<Rightarrow> SymbolMaster \<Rightarrow> Pipeline \<Rightarrow> bool" where
  "bt_fixed cfg symbols p \<longleftrightarrow> mm_cfg (pp_strat p) = cfg \<and> mm_symbols (pp_strat p) = Some symbols \<and> rm_symbols (pp_risk p) = Some symbols
     \<and> pipe_inv p"

definition order_listed :: "Token \<Rightarrow> int \<Rightarrow> Order \<Rightarrow> bool" where
  "order_listed token lots ord \<longleftrightarrow> o_token ord = token \<and> o_qty ord = lots \<and> 0 \<le> o_price ord"

definition bt_inv :: "MarketMakingConfig \<Rightarrow> SymbolMaster \<Rightarrow> Token \<Rightarrow> FeeModel \<Rightarrow> Backtest \<Rightarrow> bool" where
  "bt_inv cfg symbols token fees bt \<longleftrightarrow> bt_agree token bt \<and> bt_fixed cfg symbols (bt_pipe bt)
     \<and> sim_inv (bt_fillsim bt) \<and> (\<forall>s t. quote_listed token (mc_quote_lots cfg) (sim_quote s t (bt_fillsim bt)))
     \<and> list_all (order_listed token (mc_quote_lots cfg)) (last_sent (bt_pipe bt))
     \<and> (\<forall>t. get_book t (pp_books (bt_pipe bt)) \<noteq> None \<longrightarrow> t = token)
     \<and> (rates_ok fees \<and> fm_maker_rebate_bp100 fees = 0 \<longrightarrow> 0 \<le> bt_fees_paisa bt)"

text \<open>The fills of an event.\<close>

definition fill_listed :: "Token \<Rightarrow> int \<Rightarrow> FillReport \<Rightarrow> bool" where
  "fill_listed token lots f \<longleftrightarrow> f_token f = token \<and> 0 < f_fill_qty f \<and> f_fill_qty f \<le> lots \<and> 0 \<le> f_fill_price f"

lemma phase_counts: "side_phase s ev fs = (fills, fs') \<Longrightarrow> fs_fills fs' = fs_fills fs + of_nat (length fills)"
  by (auto simp: side_phase_def MatchAgainst_def Let_def split: if_splits prod.splits)

lemma quote_listed_after:
  assumes "quote_ok t q" "sq_active q" "quote_listed token lots q"
  shows "quote_listed token lots (quote_after q n)"
proof -
  have "0 \<le> reached q n" using assms(1) by (simp add: reached_def quote_ok_def)
  then show ?thesis using assms by (simp add: quote_listed_def quote_after_def)
qed

lemma phase_listed:
  assumes "sim_inv fs" "0 \<le> me_qty ev" "\<forall>s t. quote_listed token lots (sim_quote s t fs)" "side_phase s ev fs = (fills, fs')"
  shows "list_all (fill_listed token lots) fills" "\<forall>s t. quote_listed token lots (sim_quote s t fs')"
proof -
  define u where "u = unat (me_token ev)"
  define q where "q = sim_quote s u fs"
  have q: "quote_ok u q" "quote_listed token lots q" using assms(1,3) by (auto simp: sim_inv_def q_def)
  show "list_all (fill_listed token lots) fills"
  proof (cases "touched s u ev fs")
    case False
    then have "fills = []" using assms(4) by (auto simp: side_phase_def u_def Let_def)
    then show ?thesis by simp
  next
    case True
    then have act: "sq_active q" by (simp add: touched_def q_def)
    obtain q' fl fs1 where m: "MatchAgainst q s (me_qty ev) fs = (q', fl, fs1)" by (metis prod_cases3)
    have "fills = fl" using assms(4) True m by (auto simp: side_phase_def u_def q_def Let_def)
    then show ?thesis using match_effect(4) [OF q(1) act assms(2) m] q(2) act
      by (auto simp: is_fill_def fill_listed_def quote_listed_def reached_def split: if_splits)
  qed
  have "quote_listed token lots (quote_after (sim_quote s t fs) (me_qty ev))" if "touched s t ev fs" for t
    using quote_listed_after [of t "sim_quote s t fs"] assms(1,3) that by (simp add: sim_inv_def touched_def)
  then show "\<forall>s t. quote_listed token lots (sim_quote s t fs')"
    using phase_effect(1) [OF assms(1,2,4)] assms(3) by simp
qed

lemma sim_event_listed:
  assumes "sim_inv fs" "0 \<le> me_qty ev" "\<forall>s t. quote_listed token lots (sim_quote s t fs)" "FillSimulator_on_event ev fs = (fills, fs')"
  shows "list_all (fill_listed token lots) fills" "\<forall>s t. quote_listed token lots (sim_quote s t fs')"
    "fs_fills fs' = fs_fills fs + of_nat (length fills)"
proof -
  obtain fb fs1 where b: "side_phase True ev fs = (fb, fs1)" by (cases "side_phase True ev fs")
  obtain fa fs2 where a: "side_phase False ev fs1 = (fa, fs2)" by (cases "side_phase False ev fs1")
  have r: "fills = fb @ fa" "fs' = fs2" using assms(4) a b by (auto simp: on_event_phases Let_def)
  note lb = phase_listed [OF assms(1-3) b] and la = phase_listed [OF phase_inv [OF assms(1,2) b] assms(2) _ a]
  show "list_all (fill_listed token lots) fills" "\<forall>s t. quote_listed token lots (sim_quote s t fs')"
    using lb(1) la [OF lb(2)] by (simp_all add: r)
  show "fs_fills fs' = fs_fills fs + of_nat (length fills)" using phase_counts [OF b] phase_counts [OF a] by (simp add: r)
qed

lemma bt_on_fill_inv:
  assumes "bt_agree token bt" "bt_fixed cfg symbols (bt_pipe bt)" "fill_listed token lots f" "lots < 2 ^ 31" "unat token < kMaxTokens"
    and "bt' = bt_on_fill fees f bt"
  shows "mm_position (pp_strat (bt_pipe bt')) (unat token) = bt_position bt' \<and> rm_position (pp_risk (bt_pipe bt')) (unat token) = bt_position bt'
      \<and> rm_cashflow_paisa (pp_risk (bt_pipe bt')) = bt_cash_paisa bt' \<and> bt_maker_fills bt' = bt_maker_fills bt + 1"
    and "bt_fixed cfg symbols (bt_pipe bt')" "last_sent (bt_pipe bt') = last_sent (bt_pipe bt)" "pp_books (bt_pipe bt') = pp_books (bt_pipe bt)"
    and "rates_ok fees \<and> fm_maker_rebate_bp100 fees = 0 \<longrightarrow> bt_fees_paisa bt \<le> bt_fees_paisa bt'"
    and "bt_fillsim bt' = bt_fillsim bt" "pp_stats (bt_pipe bt') = pp_stats (bt_pipe bt)"
proof -
  have ok: "fill_ok f" using assms(3-5) by (simp add: fill_ok_def fill_listed_def kMaxTokens_def kSymbolTableSize_def)
  have tok: "f_token f = token" using assms(3) by (simp add: fill_listed_def)
  have p: "bt_pipe bt' = Pipeline_on_fill f (bt_pipe bt)" by (simp add: assms(6) bt_on_fill_def Let_def)
  show "mm_position (pp_strat (bt_pipe bt')) (unat token) = bt_position bt' \<and> rm_position (pp_risk (bt_pipe bt')) (unat token) = bt_position bt'
      \<and> rm_cashflow_paisa (pp_risk (bt_pipe bt')) = bt_cash_paisa bt' \<and> bt_maker_fills bt' = bt_maker_fills bt + 1"
    unfolding p Pipeline_on_fill_def using assms(1) mm_fill_position [OF ok] on_fill_fields [OF ok] tok
    by (simp add: assms(6) bt_on_fill_def bt_agree_def signed_fill_def Let_def)
  have "pipe_inv (bt_pipe bt')" using pipe.exec_inv [of "bt_pipe bt" "PipeFill f"] assms(2) by (simp add: p bt_fixed_def)
  then show "bt_fixed cfg symbols (bt_pipe bt')"
    using assms(2) mm_fixed_ops(1) [of "pp_strat (bt_pipe bt)" f]
    by (simp add: p bt_fixed_def Pipeline_on_fill_def mm_fixed_def RiskManager_on_fill_def RecomputePnl_def Let_def)
  show "last_sent (bt_pipe bt') = last_sent (bt_pipe bt)" "pp_books (bt_pipe bt') = pp_books (bt_pipe bt)"
    "pp_stats (bt_pipe bt') = pp_stats (bt_pipe bt)"
    by (simp_all add: p Pipeline_on_fill_def last_sent_def)
  show "rates_ok fees \<and> fm_maker_rebate_bp100 fees = 0 \<longrightarrow> bt_fees_paisa bt \<le> bt_fees_paisa bt'"
    using cost_nonneg [of fees "f_fill_price f" "f_fill_qty f" "f_side f"] assms(3)
    by (auto simp: assms(6) bt_on_fill_def fill_listed_def Let_def)
  show "bt_fillsim bt' = bt_fillsim bt" by (simp add: assms(6) bt_on_fill_def Let_def)
qed

text \<open>All fills of one event: the agreement holds up to the count, which the simulator has already advanced.\<close>

lemma bt_fills_inv:
  assumes "bt_agree token (bt\<lparr>bt_maker_fills := fs_fills (bt_fillsim bt)\<rparr>)" "bt_fixed cfg symbols (bt_pipe bt)"
    and "list_all (fill_listed token lots) fills" "lots < 2 ^ 31" "unat token < kMaxTokens"
    and "bt' = fold (bt_on_fill fees) fills bt"
  shows "bt_agree token (bt'\<lparr>bt_maker_fills := fs_fills (bt_fillsim bt)\<rparr>) \<and> bt_maker_fills bt' = bt_maker_fills bt + of_nat (length fills)
    \<and> bt_fixed cfg symbols (bt_pipe bt') \<and> last_sent (bt_pipe bt') = last_sent (bt_pipe bt) \<and> pp_books (bt_pipe bt') = pp_books (bt_pipe bt)
    \<and> (rates_ok fees \<and> fm_maker_rebate_bp100 fees = 0 \<longrightarrow> bt_fees_paisa bt \<le> bt_fees_paisa bt')
    \<and> bt_fillsim bt' = bt_fillsim bt \<and> pp_stats (bt_pipe bt') = pp_stats (bt_pipe bt)"
  using assms(1-3,6)
proof (induction fills arbitrary: bt)
  case (Cons f fills)
  define bt1 where "bt1 = bt_on_fill fees f bt"
  have l: "fill_listed token lots f" "list_all (fill_listed token lots) fills" using Cons.prems(3) by simp_all
  have cnt: "bt_on_fill fees f (bt\<lparr>bt_maker_fills := n\<rparr>) = bt1\<lparr>bt_maker_fills := n + 1\<rparr>" for n
    by (simp add: bt1_def bt_on_fill_def Let_def)
  have bt: "bt_fixed cfg symbols (bt_pipe (bt\<lparr>bt_maker_fills := n\<rparr>))" for n using Cons.prems(2) by simp
  note e = bt_on_fill_inv [OF Cons.prems(1) bt l(1) assms(4,5) refl, of fees, unfolded cnt]
  have m: "bt_maker_fills bt1 = bt_maker_fills bt + 1" by (simp add: bt1_def bt_on_fill_def Let_def)
  have "bt_agree token (bt1\<lparr>bt_maker_fills := fs_fills (bt_fillsim bt1)\<rparr>)" "bt_fixed cfg symbols (bt_pipe bt1)"
    using e by (simp_all add: bt_agree_def)
  from Cons.IH [OF this l(2)] Cons.prems(4) e m show ?case by (auto simp: bt1_def [symmetric])
qed (simp add: bt_agree_def)

subsection \<open>The instrument\<close>

definition bt_symbols :: "Token \<Rightarrow> Price \<Rightarrow> Price \<Rightarrow> SymbolMaster" where
  "bt_symbols token mid tick = sm_put (bt_instrument token mid tick) SymbolMaster_init"

lemma bt_lookup: "unat token < kMaxTokens \<Longrightarrow> sm_get (bt_symbols token mid tick) token = Some ((bt_instrument token mid tick)\<lparr>i_active := True\<rparr>)"
  by (simp add: bt_symbols_def sm_put_def sm_get_def bt_instrument_def kMaxTokens_def kSymbolTableSize_def Let_def)

lemma bt_lot: "unat token < kMaxTokens \<Longrightarrow> mm_symbols mm = Some (bt_symbols token mid tick) \<Longrightarrow> MarketMaking_LotSize mm token = 1"
  by (simp add: MarketMaking_LotSize_def get_lot_size_def bt_lookup bt_instrument_def)

lemma bt_band:
  assumes "unat token < kMaxTokens" "rm_symbols rm = Some (bt_symbols token mid tick)" "0 < mid" "within_limits rm now ord" "o_token ord = token"
  shows "0 \<le> o_price ord"
proof -
  define d where "d = (mid * 2000) sdiv 10000"
  have "RiskManager_PriceBand rm token = Some (mid - d, mid + d)"
    using assms(1-3) by (simp add: RiskManager_PriceBand_def bt_lookup bt_instrument_def d_def Let_def)
  moreover have "d \<le> mid" using assms(3) by (simp add: d_def sdiv_nonneg)
  ultimately show ?thesis using assms(4,5) by (auto simp: within_limits_def Let_def)
qed

lemma bt_process_inv:
  assumes "bt_fixed cfg (bt_symbols token mid tick) p" "process ck ev p = Some (n, p')" "unat token < kMaxTokens" "0 < mid"
    and "\<forall>t. get_book t (pp_books p) \<noteq> None \<longrightarrow> t = token" "list_all (order_listed token (mc_quote_lots cfg)) (last_sent p)"
  shows "bt_fixed cfg (bt_symbols token mid tick) p'" "positions p' = positions p" "rm_cashflow_paisa (pp_risk p') = rm_cashflow_paisa (pp_risk p)"
    "\<forall>t. get_book t (pp_books p') \<noteq> None \<longrightarrow> t = token" "list_all (order_listed token (mc_quote_lots cfg)) (last_sent p')"
proof -
  have inv: "pipe_inv p" using assms(1) by (simp add: bt_fixed_def)
  show "positions p' = positions p" by (rule process_positions [OF inv assms(2)])
  have inv': "pipe_inv p'" by (rule process_inv [OF inv assms(2)])
  have "bt_fixed cfg (bt_symbols token mid tick) p' \<and> rm_cashflow_paisa (pp_risk p') = rm_cashflow_paisa (pp_risk p)
    \<and> (\<forall>t. get_book t (pp_books p') \<noteq> None \<longrightarrow> t = token) \<and> list_all (order_listed token (mc_quote_lots cfg)) (last_sent p')"
  proof (cases "get_book (me_token ev) (pp_books p)")
    case None
    then show ?thesis using assms process_unwatched [OF None, of ck] inv' by (auto simp: bt_fixed_def last_sent_def)
  next
    case (Some b)
    then have tok: "me_token ev = token" using assms(5) by auto
    obtain res book where b: "apply_event ev b = Some (res, book)"
      using assms(2) process_stuck [OF Some, of ck] by (cases "apply_event ev b") auto
    let ?p1 = "updated ck ev book p"
    have e: "event_effect ck ?p1 n p'" using process_effect [OF inv Some b refl, of ck] assms(2) by auto
    then have fr: "limiter_frame (pp_risk ?p1) (pp_risk p')" by (simp add: event_effect_def)
    have strat: "pp_strat p' = on_book_update token book (ck_wall ck 0) (pp_strat p)" using e tok by (simp add: event_effect_def)
    have fixed: "bt_fixed cfg (bt_symbols token mid tick) p'"
      using assms(1) inv' limiter_frame_fields(9) [OF fr] mm_fixed_update [of "pp_strat p" token book "ck_wall ck 0"]
      by (simp add: bt_fixed_def strat mm_fixed_def updated_def update_reference_def)
    have "get_book t (pp_books p') \<noteq> None \<Longrightarrow> t = token" for t
      using e assms(3,5) get_book_upd [of token t "pp_books p" book] tok by (auto simp: event_effect_def updated_def split: if_splits)
    moreover have "rm_cashflow_paisa (pp_risk p') = rm_cashflow_paisa (pp_risk p)"
      using limiter_frame_fields(10) [OF fr] by (simp add: updated_def update_reference_def)
    moreover have "order_listed token (mc_quote_lots cfg) ord" if "ord \<in> set (last_sent p')" for ord
    proof (cases "mm_pending (pp_strat ?p1) = []")
      case True
      then have "last_sent p' = last_sent p" using e by (simp add: event_effect_def) (simp add: last_sent_def updated_def)
      then show ?thesis using that assms(6) by (simp add: list_all_iff)
    next
      case False
      then have o: "ord \<in> set (mm_pending (on_book_update token book (ck_wall ck 0) (pp_strat p)))" "order_gated p' (ck_wall ck) ord"
        using e that tok by (auto simp: event_effect_def)
      have "mm_inv (pp_strat p)" using inv by (simp add: pipe_inv_def)
      from on_book_update_orders [OF this o(1)] have q: "o_token ord = token" "o_qty ord = mc_quote_lots cfg"
        using assms(1,3) by (auto simp: bt_lot bt_fixed_def)
      moreover have "0 \<le> o_price ord"
        using o(2) fixed bt_band [OF assms(3) _ assms(4) _ q(1)] by (auto simp: order_gated_def bt_fixed_def)
      ultimately show ?thesis by (simp add: order_listed_def)
    qed
    ultimately show ?thesis using fixed by (auto simp: list_all_iff)
  qed
  then show "bt_fixed cfg (bt_symbols token mid tick) p'" "rm_cashflow_paisa (pp_risk p') = rm_cashflow_paisa (pp_risk p)"
    "\<forall>t. get_book t (pp_books p') \<noteq> None \<longrightarrow> t = token" "list_all (order_listed token (mc_quote_lots cfg)) (last_sent p')" by blast+
qed

subsection \<open>The loop keeps the books\<close>

lemma register_listed:
  assumes "sim_inv fs" "\<forall>s t. quote_listed token lots (sim_quote s t fs)" "order_listed token lots ord" "0 < lots" "unat token < kMaxTokens"
  shows "sim_inv (register_order ord ahead fs)" "\<forall>s t. quote_listed token lots (sim_quote s t (register_order ord ahead fs))"
    "fs_fills (register_order ord ahead fs) = fs_fills fs"
proof -
  show "sim_inv (register_order ord ahead fs)" using assms(1,3,4) by (intro register_inv) (simp_all add: order_listed_def)
  have "unat (o_token ord) < kSimMaxTokens" using assms(3,5) by (simp add: order_listed_def kMaxTokens_def kSimMaxTokens_def)
  note r = register_effect [OF this, of _ _ ahead fs]
  have "quote_listed token lots (sim_quote s t (register_order ord ahead fs))" for s t
    unfolding r using assms(3) spec [OF spec [OF assms(2), of s], of t] by (simp add: quote_listed_def order_listed_def)
  then show "\<forall>s t. quote_listed token lots (sim_quote s t (register_order ord ahead fs))" by blast
  show "fs_fills (register_order ord ahead fs) = fs_fills fs" by (simp add: register_order_def Let_def)
qed

lemma register_all_listed:
  assumes "list_all (order_listed token lots) ords" "0 < lots" "unat token < kMaxTokens"
    and "sim_inv fs" "\<forall>s t. quote_listed token lots (sim_quote s t fs)"
  shows "sim_inv (fold (bt_register tok bt) ords fs) \<and> (\<forall>s t. quote_listed token lots (sim_quote s t (fold (bt_register tok bt) ords fs)))
    \<and> fs_fills (fold (bt_register tok bt) ords fs) = fs_fills fs"
  using assms(1,4,5)
proof (induction ords arbitrary: fs)
  case (Cons ord ords)
  then show ?case using register_listed [OF Cons.prems(2,3) _ assms(2,3), of ord] by (simp add: bt_register_def)
qed simp

lemma bt_step_eq:
  assumes "FillSimulator_on_event ev (bt_fillsim bt) = (fills, fs)"
    and "bt1 = bt\<lparr>bt_mark := bt_next_mark ev (bt_mark bt), bt_fillsim := fs\<rparr>" "bt2 = fold (bt_on_fill fees) fills bt1"
    and "process ck ev (bt_pipe bt2) = Some (n, pipe)" "bt3 = bt2\<lparr>bt_pipe := pipe\<rparr>"
    and "bt4 = bt3\<lparr>bt_fillsim := fold (bt_register token bt3) (last_sent pipe) (bt_fillsim bt2), bt_event_index := bt_event_index bt3 + 1\<rparr>"
  shows "bt_step fees token want every ck ev bt = Some (if want \<and> bt_event_index bt4 mod every = 0
      then bt4\<lparr>bt_metrics := MetricsWriter_write (bt_snapshot bt4) (bt_metrics bt4)\<rparr> else bt4)"
proof -
  have "bt_step fees token want every ck ev bt =
     do { (n, pipe) \<leftarrow> process ck ev (bt_pipe bt2);
          let bt = bt2\<lparr>bt_pipe := pipe\<rparr>;
          let bt = bt\<lparr>bt_fillsim := fold (bt_register token bt) (last_sent pipe) (bt_fillsim bt)\<rparr>;
          let bt = bt\<lparr>bt_event_index := bt_event_index bt + 1\<rparr>;
          Some (if want \<and> bt_event_index bt mod every = 0
                then bt\<lparr>bt_metrics := MetricsWriter_write (bt_snapshot bt) (bt_metrics bt)\<rparr> else bt) }"
    by (simp add: bt_step_def assms(1-3) Let_def)
  also have "\<dots> = Some (if want \<and> bt_event_index bt4 mod every = 0
      then bt4\<lparr>bt_metrics := MetricsWriter_write (bt_snapshot bt4) (bt_metrics bt4)\<rparr> else bt4)"
    by (simp add: assms(4-6) Let_def)
  finally show ?thesis .
qed

lemma bt_step_inv:
  assumes "bt_inv cfg (bt_symbols token mid tick) token fees bt" "bt_step fees token want every ck ev bt = Some bt'"
    and "0 \<le> me_qty ev" "0 < mc_quote_lots cfg" "mc_quote_lots cfg < 2 ^ 31" "0 < mid" "unat token < kMaxTokens"
  shows "bt_inv cfg (bt_symbols token mid tick) token fees bt'"
proof -
  let ?lots = "mc_quote_lots cfg"
  note I = assms(1) [unfolded bt_inv_def]
  obtain fills fs where f: "FillSimulator_on_event ev (bt_fillsim bt) = (fills, fs)" by (cases "FillSimulator_on_event ev (bt_fillsim bt)")
  have si: "sim_inv fs" and l: "list_all (fill_listed token ?lots) fills" "\<forall>s t. quote_listed token ?lots (sim_quote s t fs)"
      "fs_fills fs = fs_fills (bt_fillsim bt) + of_nat (length fills)"
    using I sim_event_effect(1) [OF _ assms(3) f] sim_event_listed [OF _ assms(3) _ f, of token ?lots] by blast+
  define bt1 where "bt1 = bt\<lparr>bt_mark := bt_next_mark ev (bt_mark bt), bt_fillsim := fs\<rparr>"
  define bt2 where "bt2 = fold (bt_on_fill fees) fills bt1"
  have a1: "bt_agree token (bt1\<lparr>bt_maker_fills := fs_fills (bt_fillsim bt1)\<rparr>)" "bt_fixed cfg (bt_symbols token mid tick) (bt_pipe bt1)"
    using I by (simp_all add: bt_agree_def bt1_def)
  note F = bt_fills_inv [OF a1 l(1) assms(5,7) bt2_def]
  have m1: "bt_maker_fills bt1 = fs_fills (bt_fillsim bt)" "bt_fillsim bt1 = fs" "bt_pipe bt1 = bt_pipe bt" "bt_fees_paisa bt1 = bt_fees_paisa bt"
    using I by (simp_all add: bt1_def bt_agree_def)
  have agree2: "bt_agree token bt2" using F l(3) by (simp add: bt_agree_def m1)
  obtain n pipe where p: "process ck ev (bt_pipe bt2) = Some (n, pipe)"
    using assms(2) f by (auto simp: bt_step_def bt1_def bt2_def Let_def bind_eq_Some_conv)
  have "bt_fixed cfg (bt_symbols token mid tick) (bt_pipe bt2)" "\<forall>t. get_book t (pp_books (bt_pipe bt2)) \<noteq> None \<longrightarrow> t = token"
    "list_all (order_listed token ?lots) (last_sent (bt_pipe bt2))" using F I by (simp_all add: m1)
  note P = bt_process_inv [OF this(1) p assms(7,6) this(2,3)]
  define bt3 where "bt3 = bt2\<lparr>bt_pipe := pipe\<rparr>"
  note R = register_all_listed [OF P(5) assms(4,7) si l(2), of token bt3]
  define bt4 where "bt4 = bt3\<lparr>bt_fillsim := fold (bt_register token bt3) (last_sent pipe) (bt_fillsim bt2), bt_event_index := bt_event_index bt3 + 1\<rparr>"
  have fs2: "bt_fillsim bt2 = fs" using F by (simp add: m1)
  have f4: "bt_pipe bt4 = pipe" "bt_fillsim bt4 = fold (bt_register token bt3) (last_sent pipe) fs" "bt_position bt4 = bt_position bt2"
    "bt_cash_paisa bt4 = bt_cash_paisa bt2" "bt_fees_paisa bt4 = bt_fees_paisa bt2" "bt_maker_fills bt4 = bt_maker_fills bt2"
    by (simp_all add: bt4_def bt3_def fs2)
  have "bt_agree token bt4" using agree2 P(2,3) R by (simp add: bt_agree_def f4 fs2 positions_def)
  moreover have "rates_ok fees \<and> fm_maker_rebate_bp100 fees = 0 \<longrightarrow> 0 \<le> bt_fees_paisa bt4"
    using F I by (auto simp: f4(5) m1)
  ultimately have "bt_inv cfg (bt_symbols token mid tick) token fees bt4" unfolding bt_inv_def f4(1,2) using P R by blast
  moreover have "bt_step fees token want every ck ev bt = Some (if want \<and> bt_event_index bt4 mod every = 0
      then bt4\<lparr>bt_metrics := MetricsWriter_write (bt_snapshot bt4) (bt_metrics bt4)\<rparr> else bt4)"
    by (rule bt_step_eq [OF f bt1_def bt2_def p bt3_def bt4_def])
  then have "bt' = bt4 \<or> bt' = bt4\<lparr>bt_metrics := MetricsWriter_write (bt_snapshot bt4) (bt_metrics bt4)\<rparr>"
    unfolding assms(2) by (simp split: if_splits)
  ultimately show ?thesis by (auto simp: bt_inv_def bt_agree_def)
qed

lemma process_returns:
  assumes "pipe_inv p" "get_book (me_token ev) (pp_books p) = Some b \<Longrightarrow> apply_event ev b \<noteq> None" "get_book (me_token ev) (pp_books p) \<in> {None, Some b}"
  shows "\<exists>n p'. process ck ev p = Some (n, p') \<and> pp_books p' =
    (case get_book (me_token ev) (pp_books p) of None \<Rightarrow> pp_books p
     | Some b \<Rightarrow> (pp_books p)\<lparr>bm_slots := (bm_slots (pp_books p))(unat (me_token ev) \<mapsto> snd (the (apply_event ev b)))\<rparr>)"
proof (cases "get_book (me_token ev) (pp_books p)")
  case None
  then show ?thesis using process_unwatched [OF None, of ck] by simp
next
  case (Some b')
  then obtain res book where b: "apply_event ev b' = Some (res, book)" using assms(2,3) by auto
  from process_effect [OF assms(1) Some b refl, of ck] show ?thesis using Some b by (auto simp: event_effect_def updated_def)
qed

lemma bt_step_returns:
  assumes "bt_inv cfg (bt_symbols token mid tick) token fees bt" "0 \<le> me_qty ev" "mc_quote_lots cfg < 2 ^ 31" "unat token < kMaxTokens"
    and "get_book token (pp_books (bt_pipe bt)) = Some b" "apply_events (filter (\<lambda>ev. me_token ev = token) (ev # evs)) b = Some b'"
  shows "\<exists>bt' b1. bt_step fees token want every ck ev bt = Some bt' \<and> get_book token (pp_books (bt_pipe bt')) = Some b1
    \<and> apply_events (filter (\<lambda>ev. me_token ev = token) evs) b1 = Some b'"
proof -
  note I = assms(1) [unfolded bt_inv_def]
  obtain fills fs where f: "FillSimulator_on_event ev (bt_fillsim bt) = (fills, fs)" by (cases "FillSimulator_on_event ev (bt_fillsim bt)")
  have l: "list_all (fill_listed token (mc_quote_lots cfg)) fills"
    using I sim_event_listed(1) [OF _ assms(2) _ f, of token "mc_quote_lots cfg"] by blast
  define bt1 where "bt1 = bt\<lparr>bt_mark := bt_next_mark ev (bt_mark bt), bt_fillsim := fs\<rparr>"
  define bt2 where "bt2 = fold (bt_on_fill fees) fills bt1"
  have a1: "bt_agree token (bt1\<lparr>bt_maker_fills := fs_fills (bt_fillsim bt1)\<rparr>)" "bt_fixed cfg (bt_symbols token mid tick) (bt_pipe bt1)"
    using I by (simp_all add: bt_agree_def bt1_def)
  have F: "bt_fixed cfg (bt_symbols token mid tick) (bt_pipe bt2)" "pp_books (bt_pipe bt2) = pp_books (bt_pipe bt)"
    using bt_fills_inv [OF a1 l assms(3,4) bt2_def] by (simp_all add: bt1_def)
  have w: "get_book (me_token ev) (pp_books (bt_pipe bt2)) = (if me_token ev = token then Some b else None)"
    using I assms(5) F(2) by auto
  obtain n pipe where p: "process ck ev (bt_pipe bt2) = Some (n, pipe)" "pp_books pipe =
      (case get_book (me_token ev) (pp_books (bt_pipe bt2)) of None \<Rightarrow> pp_books (bt_pipe bt2)
       | Some b \<Rightarrow> (pp_books (bt_pipe bt2))\<lparr>bm_slots := (bm_slots (pp_books (bt_pipe bt2)))(unat (me_token ev) \<mapsto> snd (the (apply_event ev b)))\<rparr>)"
    using process_returns [of "bt_pipe bt2" ev b ck] F(1) w assms(6) by (auto simp: bt_fixed_def split: option.splits if_splits)
  define b1 where "b1 = (if me_token ev = token then snd (the (apply_event ev b)) else b)"
  have "get_book token (pp_books pipe) = Some b1"
    using p(2) w assms(5) F(2) get_book_upd [OF assms(4), of token "pp_books (bt_pipe bt2)"] by (auto simp: b1_def)
  moreover have "apply_events (filter (\<lambda>ev. me_token ev = token) evs) b1 = Some b'"
    using assms(6) by (auto simp: b1_def split: option.splits if_splits)
  moreover note bt_step_eq [OF f bt1_def bt2_def p(1) refl refl, of token want every]
  ultimately show ?thesis by (auto split: if_splits)
qed

lemma bt_loop_run:
  assumes "bt_inv cfg (bt_symbols token mid tick) token fees bt" "volumes_ok evs"
    and "0 < mc_quote_lots cfg" "mc_quote_lots cfg < 2 ^ 31" "0 < mid" "unat token < kMaxTokens"
    and "get_book token (pp_books (bt_pipe bt)) = Some b" "apply_events (filter (\<lambda>ev. me_token ev = token) evs) b = Some b'"
  shows "\<exists>bt'. bt_loop fees token want every cks k evs bt = Some bt' \<and> bt_inv cfg (bt_symbols token mid tick) token fees bt'
    \<and> get_book token (pp_books (bt_pipe bt')) = Some b'"
  using assms(1,2,7,8)
proof (induction evs arbitrary: bt b k)
  case (Cons ev evs)
  have q: "0 \<le> me_qty ev" "volumes_ok evs" using Cons.prems(2) by (simp_all add: volumes_ok_def)
  obtain bt1 b1 where 1: "bt_step fees token want every (cks k) ev bt = Some bt1" "get_book token (pp_books (bt_pipe bt1)) = Some b1"
      "apply_events (filter (\<lambda>ev. me_token ev = token) evs) b1 = Some b'"
    using bt_step_returns [OF Cons.prems(1) q(1) assms(4,6) Cons.prems(3,4)] by blast
  from Cons.IH [OF bt_step_inv [OF Cons.prems(1) 1(1) q(1) assms(3-6)] q(2) 1(2,3)] show ?case by (simp add: 1(1))
qed simp

lemma bt_start_inv:
  assumes "unat token < kMaxTokens" "length buf = kNnfMaxMsg" "OrderBook_init token tick (2 ^ 14) = Some b"
  shows "\<exists>bt. bt_start cfg token mid tick opens wall memory buf = Some bt \<and> bt_inv cfg (bt_symbols token mid tick) token fees bt
    \<and> get_book token (pp_books (bt_pipe bt)) = Some b"
proof -
  define books where "books = BookManager_init\<lparr>bm_slots := (bm_slots BookManager_init)(unat token \<mapsto> b), bm_watched := bm_watched BookManager_init + 1\<rparr>"
  have add: "add_token token tick (2 ^ 14) BookManager_init = Some (True, books)"
    using assms(1,3) by (simp add: add_token_def books_def) (simp add: BookManager_init_def)
  define p where "p = fresh_pipeline books (Some (bt_symbols token mid tick)) cfg bt_risk_config memory buf"
  define t where "t = ist_time_of_day_ns (ist_now_ns wall) 10 0 0"
  have "pipe_inv p" unfolding p_def by (rule fresh_inv) (simp_all add: bt_risk_config_def RiskConfig_default_def assms(2))
  from pipe.exec_inv [OF this, of "PipeNow t"] have inv: "pipe_inv (Pipeline_set_now t p)" by simp
  have get: "get_book u books = (if u = token then Some b else None)" for u
    using assms(1) by (auto simp: books_def get_book_def BookManager_init_def word_unat_eq_iff)
  have fields: "pp_books p = books" "pp_strat p = MarketMaking_init (Some (bt_symbols token mid tick)) cfg"
    "pp_risk p = RiskManager_init (Some (bt_symbols token mid tick)) bt_risk_config" "pp_sent_orders p = []"
    by (simp_all add: p_def fresh_pipeline_def Pipeline_init_def)
  have now: "pp_books (Pipeline_set_now t p) = books" "pp_strat (Pipeline_set_now t p) = MarketMaking_set_now t (pp_strat p)"
    "pp_risk (Pipeline_set_now t p) = RiskManager_set_now t (pp_risk p)" "last_sent (Pipeline_set_now t p) = []"
    by (simp_all add: Pipeline_set_now_def last_sent_def fields)
  obtain bt where bt: "bt_start cfg token mid tick opens wall memory buf = Some bt" "bt_pipe bt = Pipeline_set_now t p"
      "bt_fillsim bt = FillSimulator_init" "bt_cash_paisa bt = 0" "bt_fees_paisa bt = 0" "bt_position bt = 0" "bt_maker_fills bt = 0"
    unfolding bt_start_def add by (simp add: p_def t_def fresh_pipeline_def bt_symbols_def Let_def)
  have "bt_fixed cfg (bt_symbols token mid tick) (bt_pipe bt)" using inv
    by (simp add: bt(2) bt_fixed_def now fields MarketMaking_set_now_def RiskManager_set_now_def MarketMaking_init_def RiskManager_init_def)
  moreover have "bt_agree token bt"
    by (simp add: bt_agree_def bt now fields MarketMaking_set_now_def RiskManager_set_now_def MarketMaking_init_def RiskManager_init_def FillSimulator_init_def)
  moreover have "quote_listed token lots (sim_quote s u FillSimulator_init)" for s u lots
    by (simp add: quote_listed_def sim_quote_def FillSimulator_init_def SimQuote_default_def)
  ultimately show ?thesis using bt(1) sim_inv_init get by (simp add: bt_inv_def bt(2,3,5) now)
qed

subsection \<open>Properties\<close>

lemma sdiv_mono: "(a::int) \<le> b \<Longrightarrow> a sdiv 100 \<le> b sdiv 100"
proof -
  assume "a \<le> b"
  consider "0 \<le> a" | "a < 0" "0 \<le> b" | "b < 0" by linarith
  then show ?thesis
  proof cases
    case 1
    then show ?thesis using \<open>a \<le> b\<close> by (simp add: sdiv_nonneg zdiv_mono1)
  next
    case 2
    have "0 \<le> (- a) div 100" "0 \<le> b div 100" using 2 by (simp_all add: pos_imp_zdiv_nonneg_iff)
    then show ?thesis using 2 by (simp add: sdiv_nonneg sdiv_neg)
  next
    case 3
    then show ?thesis using \<open>a \<le> b\<close> zdiv_mono1 [of "- b" "- a" 100] by (simp add: sdiv_neg)
  qed
qed

text \<open>What the fills of a run add up to, step by step of the engine: each fill changes the position, the cash, the fees and the count once.\<close>

definition net_fills :: "FillReport list \<Rightarrow> int" where
  "net_fills fills = sum_list (map signed_fill fills)"

definition cash_of :: "FillReport list \<Rightarrow> int" where
  "cash_of fills = - sum_list (map (\<lambda>f. signed_fill f * f_fill_price f) fills)"

definition fees_of :: "FeeModel \<Rightarrow> FillReport list \<Rightarrow> int" where
  "fees_of fees fills = sum_list (map (\<lambda>f. cost_paise fees (f_side f) (f_fill_price f) (f_fill_qty f)) fills)"

definition booked :: "FeeModel \<Rightarrow> FillReport list \<Rightarrow> Backtest \<Rightarrow> Backtest \<Rightarrow> bool" where
  "booked fees fills bt bt' \<longleftrightarrow> bt_position bt' = bt_position bt + net_fills fills \<and> bt_cash_paisa bt' = bt_cash_paisa bt + cash_of fills
     \<and> bt_fees_paisa bt' = bt_fees_paisa bt + fees_of fees fills \<and> bt_maker_fills bt' = bt_maker_fills bt + of_nat (length fills)"

lemma booked_append: "booked fees xs bt1 bt2 \<Longrightarrow> booked fees ys bt2 bt3 \<Longrightarrow> booked fees (xs @ ys) bt1 bt3"
  by (simp add: booked_def net_fills_def cash_of_def fees_of_def)

lemma fold_on_fill_booked: "booked fees fills bt (fold (bt_on_fill fees) fills bt) \<and> bt_mark (fold (bt_on_fill fees) fills bt) = bt_mark bt"
proof (induction fills arbitrary: bt)
  case (Cons f fills)
  have "booked fees [f] bt (bt_on_fill fees f bt)" "bt_mark (bt_on_fill fees f bt) = bt_mark bt"
    by (simp_all add: booked_def net_fills_def cash_of_def fees_of_def bt_on_fill_def signed_fill_def Let_def)
  then show ?case using booked_append [of fees "[f]" bt "bt_on_fill fees f bt" fills] Cons.IH [of "bt_on_fill fees f bt"] by simp
qed (simp add: booked_def net_fills_def cash_of_def fees_of_def)

lemma bt_step_booked:
  assumes "bt_step fees token want every ck ev bt = Some bt'"
  shows "booked fees (fst (FillSimulator_on_event ev (bt_fillsim bt))) bt bt' \<and> bt_mark bt' = bt_next_mark ev (bt_mark bt)"
proof -
  obtain fills fs where f: "FillSimulator_on_event ev (bt_fillsim bt) = (fills, fs)" by (cases "FillSimulator_on_event ev (bt_fillsim bt)")
  define bt1 where "bt1 = bt\<lparr>bt_mark := bt_next_mark ev (bt_mark bt), bt_fillsim := fs\<rparr>"
  define bt2 where "bt2 = fold (bt_on_fill fees) fills bt1"
  obtain n pipe where p: "process ck ev (bt_pipe bt2) = Some (n, pipe)"
    using assms f by (auto simp: bt_step_def bt1_def bt2_def Let_def bind_eq_Some_conv)
  define bt3 where "bt3 = bt2\<lparr>bt_pipe := pipe\<rparr>"
  define bt4 where "bt4 = bt3\<lparr>bt_fillsim := fold (bt_register token bt3) (last_sent pipe) (bt_fillsim bt2), bt_event_index := bt_event_index bt3 + 1\<rparr>"
  have "bt' = bt4 \<or> bt' = bt4\<lparr>bt_metrics := MetricsWriter_write (bt_snapshot bt4) (bt_metrics bt4)\<rparr>"
    using bt_step_eq [OF f bt1_def bt2_def p bt3_def bt4_def, of want every] assms by (simp split: if_splits)
  moreover have "booked fees fills bt bt4" "bt_mark bt4 = bt_next_mark ev (bt_mark bt)"
    using fold_on_fill_booked [of fees fills bt1] by (simp_all add: bt4_def bt3_def bt2_def [symmetric] booked_def) (simp_all add: bt1_def)
  ultimately show ?thesis by (auto simp: f booked_def)
qed

text \<open>The fills that the simulator reports along a run, in order.\<close>

fun bt_fills :: "FeeModel \<Rightarrow> Token \<Rightarrow> bool \<Rightarrow> u64 \<Rightarrow> (nat \<Rightarrow> Clocks) \<Rightarrow> nat \<Rightarrow> MarketEvent list \<Rightarrow> Backtest \<Rightarrow> FillReport list" where
  "bt_fills fees token want_metrics every cks k [] bt = []"
| "bt_fills fees token want_metrics every cks k (ev # evs) bt =
     fst (FillSimulator_on_event ev (bt_fillsim bt)) @
     (case bt_step fees token want_metrics every (cks k) ev bt of None \<Rightarrow> []
      | Some bt' \<Rightarrow> bt_fills fees token want_metrics every cks (k + 1) evs bt')"

definition session_fills ::
    "MarketEvent list \<Rightarrow> MarketMakingConfig \<Rightarrow> Token \<Rightarrow> Price \<Rightarrow> Price \<Rightarrow> bool \<Rightarrow> FeeModel \<Rightarrow> timespec \<Rightarrow> (nat \<Rightarrow> Clocks)
       \<Rightarrow> (nat \<Rightarrow> Order) \<Rightarrow> u8 list \<Rightarrow> FillReport list" where
  "session_fills events cfg token mid tick opens fees wall cks memory buf =
     (case bt_start cfg token mid tick opens wall memory buf of None \<Rightarrow> []
      | Some bt \<Rightarrow> bt_fills fees token opens (if events = [] then 1 else of_nat (length events div 200 + 1)) cks 0 events bt)"

lemma bt_loop_booked:
  "bt_loop fees token want every cks k evs bt = Some bt' \<Longrightarrow>
    booked fees (bt_fills fees token want every cks k evs bt) bt bt' \<and> bt_mark bt' = fold bt_next_mark evs (bt_mark bt)"
proof (induction evs arbitrary: k bt)
  case Nil
  then show ?case by (simp add: booked_def net_fills_def cash_of_def fees_of_def)
next
  case (Cons ev evs)
  then obtain bt1 where 1: "bt_step fees token want every (cks k) ev bt = Some bt1"
      "bt_loop fees token want every cks (k + 1) evs bt1 = Some bt'" by (auto simp: bind_eq_Some_conv)
  show ?case using booked_append [OF conjunct1 [OF bt_step_booked [OF 1(1)]]] Cons.IH [OF 1(2)] bt_step_booked [OF 1(1)] 1(1) by simp
qed

lemma bt_fills_listed:
  assumes "0 < mc_quote_lots cfg" "mc_quote_lots cfg < 2 ^ 31" "0 < mid" "unat token < kMaxTokens"
  shows "bt_inv cfg (bt_symbols token mid tick) token fees bt \<Longrightarrow> volumes_ok evs \<Longrightarrow>
    list_all (fill_listed token (mc_quote_lots cfg)) (bt_fills fees token want every cks k evs bt)"
proof (induction evs arbitrary: k bt)
  case (Cons ev evs)
  have q: "0 \<le> me_qty ev" "volumes_ok evs" using Cons.prems(2) by (simp_all add: volumes_ok_def)
  obtain fills fs where f: "FillSimulator_on_event ev (bt_fillsim bt) = (fills, fs)" by (cases "FillSimulator_on_event ev (bt_fillsim bt)")
  have "list_all (fill_listed token (mc_quote_lots cfg)) fills"
    using sim_event_listed(1) [OF _ q(1) _ f] Cons.prems(1) by (auto simp: bt_inv_def)
  moreover have "list_all (fill_listed token (mc_quote_lots cfg)) (bt_fills fees token want every cks (k + 1) evs bt1)"
    if "bt_step fees token want every (cks k) ev bt = Some bt1" for bt1
    using Cons.IH [OF bt_step_inv [OF Cons.prems(1) that q(1) assms] q(2)] .
  ultimately show ?case by (simp add: f split: option.split)
qed simp

lemma fees_nonneg:
  "rates_ok fees \<Longrightarrow> fm_maker_rebate_bp100 fees = 0 \<Longrightarrow> list_all (fill_listed token lots) fills \<Longrightarrow> 0 \<le> fees_of fees fills"
  unfolding fees_of_def list_all_iff by (intro sum_list_nonneg) (auto simp: fill_listed_def intro!: cost_nonneg)

lemma bt_accounts:
  assumes "unat token < kMaxTokens" "length buf = kNnfMaxMsg" "0 < mc_quote_lots cfg" "mc_quote_lots cfg < 2 ^ 31" "0 < mid"
    and "volumes_ok events" "OrderBook_init token tick (2 ^ 14) = Some b0"
    and "apply_events (filter (\<lambda>ev. me_token ev = token) events) b0 = Some b"
    and fills: "fills = session_fills events cfg token mid tick opens fees wall cks memory buf" and mark: "mark = fold bt_next_mark events mid"
  shows "\<exists>bt r. bt_final events cfg token mid tick opens fees wall cks memory buf = Some bt
     \<and> run_backtest events cfg token mid tick opens fees wall cks memory buf = Some r
     \<and> get_book token (pp_books (bt_pipe bt)) = Some b
     \<and> br_position r = net_fills fills \<and> br_position r = MarketMaking_position (pp_strat (bt_pipe bt)) token
     \<and> br_position r = RiskManager_position (pp_risk (bt_pipe bt)) token
     \<and> rm_cashflow_paisa (pp_risk (bt_pipe bt)) = cash_of fills
     \<and> br_fills r = of_nat (length fills) \<and> br_fills r = fs_fills (bt_fillsim bt)
     \<and> br_gross_pnl_inr r = (cash_of fills + net_fills fills * mark) sdiv 100
     \<and> br_fees_inr r = fees_of fees fills sdiv 100
     \<and> br_pnl_inr r = (cash_of fills + net_fills fills * mark - fees_of fees fills) sdiv 100
     \<and> list_all (fill_listed token (mc_quote_lots cfg)) fills"
proof -
  obtain bt0 where 0: "bt_start cfg token mid tick opens wall memory buf = Some bt0"
      "bt_inv cfg (bt_symbols token mid tick) token fees bt0" "get_book token (pp_books (bt_pipe bt0)) = Some b0"
    using bt_start_inv [OF assms(1,2,7)] by blast
  have z: "bt_position bt0 = 0" "bt_cash_paisa bt0 = 0" "bt_fees_paisa bt0 = 0" "bt_maker_fills bt0 = 0" "bt_mark bt0 = mid"
    using 0(1) by (auto simp: bt_start_def bind_eq_Some_conv Let_def)
  define every where "every = (if events = [] then 1 else of_nat (length events div 200 + 1) :: u64)"
  obtain bt where bt: "bt_loop fees token opens every cks 0 events bt0 = Some bt"
      "bt_inv cfg (bt_symbols token mid tick) token fees bt" "get_book token (pp_books (bt_pipe bt)) = Some b"
    using bt_loop_run [OF 0(2) assms(6,3-5,1) 0(3) assms(8)] by blast
  have final: "bt_final events cfg token mid tick opens fees wall cks memory buf = Some bt"
    using bt(1) by (simp add: bt_final_def 0(1) every_def Let_def)
  have fl: "fills = bt_fills fees token opens every cks 0 events bt0" by (simp add: fills session_fills_def 0(1) every_def)
  have bk: "bt_position bt = net_fills fills" "bt_cash_paisa bt = cash_of fills" "bt_fees_paisa bt = fees_of fees fills"
    "bt_maker_fills bt = of_nat (length fills)" "bt_mark bt = mark"
    using bt_loop_booked [OF bt(1)] by (simp_all add: booked_def z fl mark)
  have "list_all (fill_listed token (mc_quote_lots cfg)) fills" unfolding fl by (rule bt_fills_listed [OF assms(3-5,1) 0(2) assms(6)])
  moreover have "run_backtest events cfg token mid tick opens fees wall cks memory buf = Some (bt_result bt)" by (simp add: run_backtest_def final)
  moreover have "br_position (bt_result bt) = net_fills fills" "br_position (bt_result bt) = MarketMaking_position (pp_strat (bt_pipe bt)) token"
    "br_position (bt_result bt) = RiskManager_position (pp_risk (bt_pipe bt)) token" "rm_cashflow_paisa (pp_risk (bt_pipe bt)) = cash_of fills"
    "br_fills (bt_result bt) = of_nat (length fills)" "br_fills (bt_result bt) = fs_fills (bt_fillsim bt)"
    "br_gross_pnl_inr (bt_result bt) = (cash_of fills + net_fills fills * mark) sdiv 100" "br_fees_inr (bt_result bt) = fees_of fees fills sdiv 100"
    "br_pnl_inr (bt_result bt) = (cash_of fills + net_fills fills * mark - fees_of fees fills) sdiv 100"
    using bt(2) assms(1) bk by (simp_all add: bt_result_def bt_inv_def bt_agree_def MarketMaking_position_def RiskManager_position_def
        kMaxTokens_def kSymbolTableSize_def Let_def)
  ultimately show ?thesis using final bt(3) by blast
qed

lemma net_below_gross:
  assumes "0 \<le> fees_of fees fills"
  shows "0 \<le> fees_of fees fills sdiv 100" and "(x - fees_of fees fills) sdiv 100 \<le> x sdiv 100"
  using sdiv_mono [OF assms] sdiv_mono [of "x - fees_of fees fills" x] assms by simp_all

text \<open>C28 The backtest's accounts are exactly those of its fills. Whenever the token's book returns from
  its events, the backtest returns. Let \<open>fills\<close> be the reports of the fill simulator over the run: they are for the
  token, each of a positive quantity not above the configured quote. The number of fills reported is theirs; the position
  is their net quantity and is also what the strategy and the risk manager hold; the risk manager's cash flow is their
  cash; the gross result is that cash with the position at the last mark; the fees are the fee model's cost of
  each of them, added up; and the net result is the gross sum less these fees, each in whole rupees. Under a fee model of non-negative rates without a
  rebate the fees are not negative and the net result is never above the gross one.\<close>

theorem backtest_accounts:
  assumes "unat token < kMaxTokens" "length buf = kNnfMaxMsg" "0 < mc_quote_lots cfg" "mc_quote_lots cfg < 2 ^ 31" "0 < mid"
    and "volumes_ok events" "OrderBook_init token tick (2 ^ 14) = Some b0"
    and "apply_events (filter (\<lambda>ev. me_token ev = token) events) b0 = Some b"
    and "fills = session_fills events cfg token mid tick opens fees wall cks memory buf" "mark = fold bt_next_mark events mid"
  shows "\<exists>bt r. bt_final events cfg token mid tick opens fees wall cks memory buf = Some bt
     \<and> run_backtest events cfg token mid tick opens fees wall cks memory buf = Some r
     \<and> get_book token (pp_books (bt_pipe bt)) = Some b
     \<and> br_position r = net_fills fills \<and> br_position r = MarketMaking_position (pp_strat (bt_pipe bt)) token
     \<and> br_position r = RiskManager_position (pp_risk (bt_pipe bt)) token
     \<and> rm_cashflow_paisa (pp_risk (bt_pipe bt)) = cash_of fills
     \<and> br_fills r = of_nat (length fills) \<and> br_fills r = fs_fills (bt_fillsim bt)
     \<and> br_gross_pnl_inr r = (cash_of fills + net_fills fills * mark) sdiv 100
     \<and> br_fees_inr r = fees_of fees fills sdiv 100
     \<and> br_pnl_inr r = (cash_of fills + net_fills fills * mark - fees_of fees fills) sdiv 100
     \<and> list_all (fill_listed token (mc_quote_lots cfg)) fills
     \<and> (rates_ok fees \<and> fm_maker_rebate_bp100 fees = 0 \<longrightarrow> 0 \<le> br_fees_inr r \<and> br_pnl_inr r \<le> br_gross_pnl_inr r)"
  using bt_accounts [OF assms] fees_nonneg [of fees token "mc_quote_lots cfg" fills] net_below_gross [of fees fills] by auto

text \<open>The backtest re-registers orders that were sent long before. When the strategy emits nothing on
  an event, the pipeline keeps the orders of an earlier event as the last ones sent, and the engine
  registers each of them again with its full quantity: a quote that was already filled, in part or
  completely, is alive again and can be filled beyond its quantity.\<close>

theorem backtest_revives_orders:
  assumes "bt_pipe bt = fold pipe_exec ops (fresh_pipeline books symbols cfg rcfg memory buf)"
    and "0 \<le> rc_max_cm_notional_inr rcfg" "length buf = kNnfMaxMsg"
    and "me_type ev \<noteq> kTrade" "last_sent (bt_pipe bt) = ords @ [ord]" "unat (o_token ord) < kSimMaxTokens"
    and "get_book (me_token ev) (pp_books (bt_pipe bt)) = Some b" "apply_event ev b = Some (res, book)"
    and "mm_pending (on_book_update (me_token ev) book (ck_wall ck 0) (pp_strat (bt_pipe bt))) = []"
  shows "\<exists>bt' q. bt_step fees token want every ck ev bt = Some bt' \<and> sim_quote (o_side ord) (unat (o_token ord)) (bt_fillsim bt') = q
     \<and> sq_active q \<and> sq_remaining q = o_qty ord \<and> sq_id q = o_client_order_id ord"
proof -
  have inv: "pipe_inv (bt_pipe bt)" unfolding assms(1) by (rule pipeline_reachable [OF assms(2,3)])
  have f: "FillSimulator_on_event ev (bt_fillsim bt) = ([], bt_fillsim bt)" using assms(4) by (simp add: FillSimulator_on_event_def)
  define bt1 where "bt1 = bt\<lparr>bt_mark := bt_next_mark ev (bt_mark bt), bt_fillsim := bt_fillsim bt\<rparr>"
  have b1: "bt1 = fold (bt_on_fill fees) [] bt1" "bt_pipe bt1 = bt_pipe bt" by (simp_all add: bt1_def)
  obtain n p where p: "process ck ev (bt_pipe bt) = Some (n, p)" "event_effect ck (updated ck ev book (bt_pipe bt)) n p"
    using process_effect [OF inv assms(7,8) refl] by blast
  then have "last_sent p = ords @ [ord]" using assms(5,9) by (simp add: event_effect_def) (simp add: last_sent_def updated_def)
  then show ?thesis
    using bt_step_eq [OF f bt1_def b1(1) p(1) [folded b1(2)] refl refl, of token want every]
    by (auto simp: bt_register_def register_effect [OF assms(6)])
qed

subsection \<open>Examples\<close>

lemma bt_book_starts: "\<exists>b. OrderBook_init token tick (2 ^ 14) = Some b"
proof -
  have "unat (2 ^ 14 :: u64) \<le> 2 ^ 63" by simp
  from RoundUpPow2_least [OF this] show ?thesis by (auto simp: OrderBook_init_def)
qed

text \<open>A session of two events: a snapshot just below the upper circuit limit, on which the strategy can only bid, and a trade
  at its bid that fills the quote.\<close>

definition fill_config :: MarketMakingConfig where
  "fill_config = MarketMakingConfig_default\<lparr>mc_quote_lots := 500\<rparr>"

definition fill_snap :: MarketEvent where
  "fill_snap = zero_event\<lparr>me_type := kSnapQuote, me_token := 7, me_bid_price := 11999, me_bid_qty := 5, me_ask_price := 12001, me_ask_qty := 5\<rparr>"

definition fill_trade :: MarketEvent where
  "fill_trade = zero_event\<lparr>me_type := kTrade, me_token := 7, me_price := 11998, me_qty := 800\<rparr>"

definition fill_maker :: MarketMaking where
  "fill_maker = MarketMaking_set_now 36000000000000 (MarketMaking_init (Some (bt_symbols 7 10000 1)) fill_config)"

definition fill_risk :: RiskManager where
  "fill_risk = RiskManager_set_now 36000000000000 (RiskManager_init (Some (bt_symbols 7 10000 1)) bt_risk_config)"

abbreviation fill_order :: Order where
  "fill_order \<equiv> quote_order 7 True 11998 500 36000000000000 fill_maker"

lemma fill_books:
  assumes "OrderBook_init 7 1 (2 ^ 14) = Some b0"
  obtains bk where "apply_event fill_snap b0 = Some (kSeeded, bk)" "apply_event fill_trade bk = Some (kUnknownOrder, bk)"
    and "best_bid bk = Some \<lparr>pl_price = 11999, pl_total_quantity = 5, pl_order_count = 1\<rparr>"
    and "best_ask bk = Some \<lparr>pl_price = 12001, pl_total_quantity = 5, pl_order_count = 1\<rparr>" "displayed_qty_at kBuy 11998 bk = 0"
proof -
  have tick: "ob_tick_size b0 = 1" by (rule init_frame(1) [OF assms])
  have whole: "x smod 1 = 0" for x :: int by (simp add: signed_modulo_int_def signed_divide_int_def)
  have s: "apply_event fill_snap b0 = Some (Seed fill_snap b0)"
    by (simp add: apply_event_def check_seq_def dispatch_def fill_snap_def zero_event_def split: prod.splits)
  show thesis
  proof (rule that [of "snd (Seed fill_snap b0)"])
    show "apply_event fill_snap b0 = Some (kSeeded, snd (Seed fill_snap b0))" unfolding s by (simp add: Seed_def Let_def)
    show "apply_event fill_trade (snd (Seed fill_snap b0)) = Some (kUnknownOrder, snd (Seed fill_snap b0))"
      by (simp add: apply_event_def check_seq_def dispatch_def fill_trade_def zero_event_def mtbt_codes ApplyTrade_def ReduceResting_def)
        (simp add: Seed_def clear_def fill_snap_def zero_event_def Let_def)
    show "best_bid (snd (Seed fill_snap b0)) = Some \<lparr>pl_price = 11999, pl_total_quantity = 5, pl_order_count = 1\<rparr>"
      "best_ask (snd (Seed fill_snap b0)) = Some \<lparr>pl_price = 12001, pl_total_quantity = 5, pl_order_count = 1\<rparr>"
      "displayed_qty_at kBuy 11998 (snd (Seed fill_snap b0)) = 0"
      using tick by (simp_all add: Seed_def clear_def fill_snap_def zero_event_def TickOk_def whole best_bid_def best_ask_def displayed_qty_at_def
          displayed_scan.simps Let_def)
  qed
qed

lemma fill_hours: "is_within_market_hours 36000000000000" "preclose_cancel_ns 36000000000000 = 55500000000000"
  by (simp_all add: is_within_market_hours_def session_offsets ist_midnight_ns_def kNsPerDay_def kNsPerSecond_def)

lemma fill_instrument:
  "MarketMaking_LotSize fill_maker 7 = 1" "TickSize fill_maker 7 = 1" "MarketMaking_PriceBand fill_maker 7 = Some (8000, 12000)"
  "RiskManager_LotSize fill_risk 7 = 1" "RiskManager_PriceBand fill_risk 7 = Some (8000, 12000)"
proof -
  have l: "sm_get (bt_symbols 7 10000 1) 7 = Some ((bt_instrument 7 10000 1)\<lparr>i_active := True\<rparr>)" by (rule bt_lookup) (simp add: kMaxTokens_def)
  have f: "mm_symbols fill_maker = Some (bt_symbols 7 10000 1)" "rm_symbols fill_risk = Some (bt_symbols 7 10000 1)"
    by (simp_all add: fill_maker_def fill_risk_def MarketMaking_set_now_def MarketMaking_init_def RiskManager_set_now_def RiskManager_init_def)
  show "MarketMaking_LotSize fill_maker 7 = 1" "TickSize fill_maker 7 = 1" "RiskManager_LotSize fill_risk 7 = 1"
    "MarketMaking_PriceBand fill_maker 7 = Some (8000, 12000)" "RiskManager_PriceBand fill_risk 7 = Some (8000, 12000)"
    by (simp_all add: MarketMaking_LotSize_def TickSize_def RiskManager_LotSize_def MarketMaking_PriceBand_def RiskManager_PriceBand_def f
        get_lot_size_def get_tick_size_def l bt_instrument_def sdiv_nonneg Let_def)
qed

lemma fill_quote:
  assumes "best_bid bk = Some \<lparr>pl_price = 11999, pl_total_quantity = 5, pl_order_count = 1\<rparr>"
    and "best_ask bk = Some \<lparr>pl_price = 12001, pl_total_quantity = 5, pl_order_count = 1\<rparr>"
  shows "mm_pending (on_book_update 7 bk (0, 0) fill_maker) = [fill_order]"
proof -
  let ?touch = "(\<lparr>pl_price = 11999, pl_total_quantity = 5, pl_order_count = 1\<rparr>, \<lparr>pl_price = 12001, pl_total_quantity = 5, pl_order_count = 1\<rparr>)"
  have f: "mm_cfg fill_maker = fill_config" "mm_position fill_maker = (\<lambda>_. 0)" "mm_quotes fill_maker = (\<lambda>_. QuoteState_default)"
    "36000000000000 = mm_now (0, 0) fill_maker"
    by (simp_all add: fill_maker_def MarketMaking_set_now_def MarketMaking_init_def mm_now_def)
  have "quoting_inputs 7 bk 36000000000000 fill_maker = Some ?touch"
    using fill_hours by (simp add: quoting_inputs_def kMaxTokens_def assms fill_instrument f(1) fill_config_def MarketMakingConfig_default_def)
  note upd = on_book_update_quotes [OF refl f(4) this]
  have "desired_price fill_maker 7 ?touch True = 11998" "desired_price fill_maker 7 ?touch False = 12002" "mc_quote_lots (mm_cfg fill_maker) = 500"
    "side_allowed fill_maker 7 True 11998" "\<not> side_allowed fill_maker 7 False 12002"
    by (simp_all add: desired_price_def ComputeDesired_def desired_quotes_def inventory_skew_ticks_def flow_skew_ticks_def side_allowed_def
        fill_instrument f fill_config_def MarketMakingConfig_default_def sdiv_nonneg)
  then show ?thesis unfolding upd
    by (simp add: fill_instrument QuoteOneSide_def EmitNew_def CancelSide_def quote_order_def kMaxPending_def f(3) QuoteState_default_def
        qs_active_def qs_activate_def Let_def)
qed

definition fill_start :: "Backtest option" where
  "fill_start = bt_start fill_config 7 10000 1 False (0, 0) (\<lambda>_. example_order) (replicate kNnfMaxMsg 0)"

lemma fill_started:
  assumes "OrderBook_init 7 1 (2 ^ 14) = Some b0"
  obtains bt where "fill_start = Some bt" "pipe_inv (bt_pipe bt)" "get_book 7 (pp_books (bt_pipe bt)) = Some b0"
    and "pp_strat (bt_pipe bt) = fill_maker" "pp_risk (bt_pipe bt) = fill_risk" "pp_om (bt_pipe bt) = OrderManager_init (\<lambda>_. example_order)"
    and "bt_fillsim bt = FillSimulator_init"
proof -
  have "unat (7 :: Token) < kMaxTokens" "length (replicate kNnfMaxMsg (0 :: u8)) = kNnfMaxMsg" by (simp_all add: kMaxTokens_def)
  from bt_start_inv [OF this assms, of fill_config 10000 False "(0, 0)" "\<lambda>_. example_order" FeeModel_default] obtain bt where
    bt: "fill_start = Some bt" "pipe_inv (bt_pipe bt)" "get_book 7 (pp_books (bt_pipe bt)) = Some b0"
    by (auto simp: fill_start_def bt_inv_def bt_fixed_def)
  have now: "ist_time_of_day_ns (ist_now_ns (0, 0)) 10 0 0 = 36000000000000"
    by (simp add: ist_time_of_day_ns_def ist_now_ns_def ist_midnight_ns_def kNsPerDay_def kNsPerSecond_def kIstOffsetSeconds_def Let_def)
  have "pp_strat (bt_pipe bt) = fill_maker" "pp_risk (bt_pipe bt) = fill_risk" "pp_om (bt_pipe bt) = OrderManager_init (\<lambda>_. example_order)"
    "bt_fillsim bt = FillSimulator_init"
    using bt(1) by (auto simp: fill_start_def bt_start_def now Pipeline_set_now_def Pipeline_init_def fill_maker_def fill_risk_def bt_symbols_def
        bind_eq_Some_conv Let_def)
  with bt show thesis by (rule that)
qed

lemma fill_sent:
  assumes p: "pipe_inv p" "get_book 7 (pp_books p) = Some b0" "pp_strat p = fill_maker" "pp_risk p = fill_risk"
      "pp_om p = OrderManager_init (\<lambda>_. example_order)"
    and bk: "apply_event fill_snap b0 = Some (kSeeded, bk)" "best_bid bk = Some \<lparr>pl_price = 11999, pl_total_quantity = 5, pl_order_count = 1\<rparr>"
      "best_ask bk = Some \<lparr>pl_price = 12001, pl_total_quantity = 5, pl_order_count = 1\<rparr>"
  obtains n p' where "process example_clocks fill_snap p = Some (n, p')" "last_sent p' = [fill_order]" "get_book 7 (pp_books p') = Some bk"
proof -
  let ?p1 = "updated example_clocks fill_snap bk p"
  have tok: "me_token fill_snap = 7" "ck_wall example_clocks = (\<lambda>_. (0, 0))" by (simp_all add: fill_snap_def example_clocks_def)
  have get: "get_book (me_token fill_snap) (pp_books p) = Some b0" using p(2) by (simp add: tok)
  have ords: "mm_pending (pp_strat ?p1) = [fill_order]" using fill_quote [OF bk(2,3)] by (simp add: p(3) tok)
  have r: "pp_risk ?p1 = update_reference 7 11999 12001 fill_risk" by (simp add: updated_def p(4) tok touch_price_def bk(2,3))
  have now: "risk_now (ck_wall example_clocks 1) (pp_risk ?p1) = 36000000000000"
    by (simp add: r risk_now_def update_reference_def fill_risk_def RiskManager_set_now_def)
  have same: "RiskManager_LotSize (update_reference 7 11999 12001 fill_risk) 7 = 1"
    "RiskManager_PriceBand (update_reference 7 11999 12001 fill_risk) 7 = Some (8000, 12000)"
    using fill_instrument(4,5) by (simp_all add: RiskManager_LotSize_def RiskManager_PriceBand_def update_reference_def)
  have lim: "within_limits (pp_risk ?p1) (risk_now (ck_wall example_clocks 1) (pp_risk ?p1)) fill_order"
    unfolding now unfolding r within_limits_def using fill_hours(1) same
    by (simp add: quote_order_def fill_maker_def MarketMaking_set_now_def MarketMaking_init_def fill_config_def MarketMakingConfig_default_def kSegmentFo_def kSegmentCm_def)
      (simp add: update_reference_def fill_risk_def RiskManager_set_now_def RiskManager_init_def bt_risk_config_def RiskConfig_default_def
        kill_switch_active_def kSymbolTableSize_def)
  have "fl 1000000000 = 1000000000" using fp.rnd_int [of 1000000000] by simp
  then have tok1: "fst (ConsumeRateToken (risk_now (ck_wall example_clocks 1) (pp_risk ?p1)) (pp_risk ?p1))" unfolding now unfolding r
    by (simp add: ConsumeRateToken_def update_reference_def fill_risk_def RiskManager_set_now_def RiskManager_init_def bt_risk_config_def)
  have free: "\<not> lo_occupied (om_table (pp_om p) (Index (o_client_order_id fill_order)))" by (simp add: p(5) OrderManager_init_def LiveOrder_default_def)
  obtain n p' where n: "process example_clocks fill_snap p = Some (n, p')" "0 < n" using first_order_sent [OF p(1) get bk(1) refl ords lim tok1 free] by blast
  then have e: "event_effect example_clocks ?p1 n p'" using process_effect [OF p(1) get bk(1) refl, of example_clocks] by auto
  then have s: "length (last_sent p') = n" "set (last_sent p') \<subseteq> {fill_order}" "n \<le> 1" "pp_books p' = pp_books ?p1"
    using ords by (auto simp: event_effect_def counted_def)
  then have "last_sent p' = [fill_order]" using n(2) by (cases "last_sent p'") auto
  moreover have "get_book 7 (pp_books p') = Some bk" unfolding s(4) by (simp add: updated_def tok get_book_def kMaxTokens_def)
  ultimately show thesis using that n(1) by blast
qed

lemma fill_fills:
  "map (\<lambda>f. (f_side f, f_fill_price f, f_fill_qty f))
     (session_fills [fill_snap, fill_trade] fill_config 7 10000 1 False FeeModel_default (0, 0) (\<lambda>_. example_clocks) (\<lambda>_. example_order)
       (replicate kNnfMaxMsg 0)) = [(kBuy, 11998, 500)]"
proof -
  obtain b0 where b0: "OrderBook_init 7 1 (2 ^ 14) = Some b0" using bt_book_starts by blast
  obtain bk where bk: "apply_event fill_snap b0 = Some (kSeeded, bk)" "best_bid bk = Some \<lparr>pl_price = 11999, pl_total_quantity = 5, pl_order_count = 1\<rparr>"
      "best_ask bk = Some \<lparr>pl_price = 12001, pl_total_quantity = 5, pl_order_count = 1\<rparr>" "displayed_qty_at kBuy 11998 bk = 0"
    by (rule fill_books [OF b0])
  obtain bt where bt: "fill_start = Some bt" "pipe_inv (bt_pipe bt)" "get_book 7 (pp_books (bt_pipe bt)) = Some b0"
      "pp_strat (bt_pipe bt) = fill_maker" "pp_risk (bt_pipe bt) = fill_risk" "pp_om (bt_pipe bt) = OrderManager_init (\<lambda>_. example_order)"
      "bt_fillsim bt = FillSimulator_init" by (rule fill_started [OF b0])
  obtain n p where p: "process example_clocks fill_snap (bt_pipe bt) = Some (n, p)" "last_sent p = [fill_order]" "get_book 7 (pp_books p) = Some bk"
    by (rule fill_sent [OF bt(2-6) bk(1-3)])
  have f: "FillSimulator_on_event fill_snap (bt_fillsim bt) = ([], bt_fillsim bt)" by (simp add: FillSimulator_on_event_def fill_snap_def mtbt_codes)
  define bt1 where "bt1 = bt\<lparr>bt_mark := bt_next_mark fill_snap (bt_mark bt), bt_fillsim := bt_fillsim bt\<rparr>"
  have b1: "bt1 = fold (bt_on_fill FeeModel_default) [] bt1" "bt_pipe bt1 = bt_pipe bt" "bt_fillsim bt1 = FillSimulator_init" by (simp_all add: bt1_def bt(7))
  obtain bt2 where bt2: "bt_step FeeModel_default 7 False 1 example_clocks fill_snap bt = Some bt2"
      "bt_fillsim bt2 = bt_register 7 (bt1\<lparr>bt_pipe := p\<rparr>) fill_order FillSimulator_init"
    using bt_step_eq [OF f bt1_def b1(1) p(1) [folded b1(2)] refl refl, of 7 False 1] by (simp add: p(2) b1(3))
  have o: "o_side fill_order = kBuy" "o_price fill_order = 11998" "o_qty fill_order = 500" "o_token fill_order = 7" by (simp_all add: quote_order_def)
  have "map (\<lambda>f. (f_side f, f_fill_price f, f_fill_qty f)) (fst (FillSimulator_on_event fill_trade (bt_fillsim bt2))) = [(kBuy, 11998, 500)]"
    unfolding bt2(2) bt_register_def using p(3) bk(4)
    by (simp add: o register_order_def FillSimulator_on_event_def fill_trade_def FillSimulator_init_def SimQuote_default_def MatchAgainst_def
        kSimMaxTokens_def zero_event_def Let_def)
  then show ?thesis using bt(1) bt2(1) f by (simp add: session_fills_def fill_start_def split: option.split)
qed

theorem backtest_accounts_witness:
  "\<exists>r. run_backtest [fill_snap, fill_trade] fill_config 7 10000 1 False FeeModel_default (0, 0) (\<lambda>_. example_clocks) (\<lambda>_. example_order)
       (replicate kNnfMaxMsg 0) = Some r
     \<and> br_fills r = 1 \<and> br_position r = 500 \<and> br_gross_pnl_inr r = 0 \<and> br_fees_inr r = cost_paise FeeModel_default kBuy 11998 500 sdiv 100
     \<and> 0 < br_fees_inr r \<and> br_pnl_inr r < br_gross_pnl_inr r"
proof -
  define fills where "fills = session_fills [fill_snap, fill_trade] fill_config 7 10000 1 False FeeModel_default (0, 0) (\<lambda>_. example_clocks)
    (\<lambda>_. example_order) (replicate kNnfMaxMsg 0)"
  define mark where "mark = fold bt_next_mark [fill_snap, fill_trade] 10000"
  obtain f where f: "fills = [f]" "f_side f = kBuy" "f_fill_price f = 11998" "f_fill_qty f = 500"
    using fill_fills unfolding fills_def [symmetric] by (auto simp: map_eq_Cons_conv)
  have c: "cost_paise FeeModel_default kBuy 11998 500 = 258" by (simp add: cost_paise_def FeeModel_default_def sdiv_nonneg Let_def)
  have sums: "net_fills fills = 500" "cash_of fills = - 5999000" "fees_of FeeModel_default fills = 258" "mark = 11998"
    using f c by (simp_all add: net_fills_def cash_of_def fees_of_def signed_fill_def mark_def bt_next_mark_def fill_trade_def mtbt_codes)
  obtain b0 where b0: "OrderBook_init 7 1 (2 ^ 14) = Some b0" using bt_book_starts by blast
  obtain bk where "apply_event fill_snap b0 = Some (kSeeded, bk)" "apply_event fill_trade bk = Some (kUnknownOrder, bk)"
    by (rule fill_books [OF b0])
  then have run: "apply_events (filter (\<lambda>ev. me_token ev = 7) [fill_snap, fill_trade]) b0 = Some bk" by (simp add: fill_snap_def fill_trade_def)
  have side: "unat (7 :: Token) < kMaxTokens" "length (replicate kNnfMaxMsg (0 :: u8)) = kNnfMaxMsg" "0 < mc_quote_lots fill_config"
    "mc_quote_lots fill_config < 2 ^ 31" "(0 :: int) < 10000" "volumes_ok [fill_snap, fill_trade]"
    by (simp_all add: kMaxTokens_def fill_config_def volumes_ok_def fill_snap_def fill_trade_def zero_event_def)
  from backtest_accounts [OF side b0 run fills_def mark_def] show ?thesis
    unfolding sums using f(1) c by (auto simp: sdiv_nonneg sdiv_neg)
qed

theorem backtest_revives_orders_witness:
  "\<exists>bt bt' ord q. last_sent (bt_pipe bt) \<noteq> [] \<and> ord = last (last_sent (bt_pipe bt)) \<and> \<not> sq_active (sim_quote (o_side ord) 7 (bt_fillsim bt))
     \<and> bt_step FeeModel_default 7 False 1 example_clocks example_beat bt = Some bt'
     \<and> sim_quote (o_side ord) 7 (bt_fillsim bt') = q \<and> sq_active q \<and> sq_remaining q = o_qty ord"
proof -
  let ?start = "example_pipe [PipeNow 40000000000000]" and ?now = "example_pipe [PipeNow 40000000000000, PipeEvent example_clocks example_beat]"
  obtain n p' where e: "process example_clocks example_beat ?start = Some (n, p')" "0 < n"
      "event_effect example_clocks (updated example_clocks example_beat example_book ?start) n p'"
    using example_first_order process_effect [OF example_inv example_watch(1) [of 40000000000000] example_beat_run refl, of example_clocks] by auto
  have p: "?now = p'" using e(1) by (simp add: example_pipe_def)
  have strat: "pp_strat ?now = on_book_update 7 example_book (0, 0) example_maker"
    using e(3) unfolding p by (simp add: event_effect_def example_parts example_beat_def example_clocks_def)
  have sent: "last_sent ?now \<noteq> []" "\<forall>ord \<in> set (last_sent ?now). ord \<in> set (mm_pending (pp_strat ?now))"
    using e(2,3) unfolding p by (auto simp: event_effect_def split: if_splits)
  define ord where "ord = last (last_sent ?now)"
  have split: "last_sent ?now = butlast (last_sent ?now) @ [ord]" using sent(1) by (simp add: ord_def)
  have "ord \<in> set (last_sent ?now)" using sent(1) by (simp add: ord_def)
  then have "ord \<in> set (mm_pending (pp_strat ?now))" using sent(2) by blast
  then have tok: "o_token ord = 7" by (auto simp: strat example_quotes quote_order_def)
  define bt where "bt = \<lparr>bt_pipe = ?now, bt_fillsim = FillSimulator_init, bt_metrics = MetricsWriter_init, bt_cash_paisa = 0, bt_fees_paisa = 0,
    bt_position = 0, bt_mark = 0, bt_maker_fills = 0, bt_event_index = 0\<rparr>"
  have bt: "bt_pipe bt = ?now" "bt_fillsim bt = FillSimulator_init" by (simp_all add: bt_def)
  have quiet: "mm_pending (on_book_update (me_token example_beat) example_book (ck_wall example_clocks 0) (pp_strat (bt_pipe bt))) = []"
    unfolding bt(1) strat using example_quiet by (simp add: example_beat_def example_clocks_def)
  have "me_type example_beat \<noteq> kTrade" "unat (o_token ord) < kSimMaxTokens"
    by (simp_all add: example_beat_def mtbt_codes tok kSimMaxTokens_def)
  from backtest_revives_orders [OF bt(1) [unfolded example_pipe_fold] example_side this(1) split [folded bt(1)] this(2)
      example_live(2) [folded bt(1)] example_beat_run quiet, of FeeModel_default 7 False 1]
  obtain bt' q where "bt_step FeeModel_default 7 False 1 example_clocks example_beat bt = Some bt'"
      "sim_quote (o_side ord) 7 (bt_fillsim bt') = q" "sq_active q" "sq_remaining q = o_qty ord" by (auto simp: tok)
  moreover have "\<not> sq_active (sim_quote (o_side ord) 7 (bt_fillsim bt))"
    by (simp add: bt(2) sim_quote_def FillSimulator_init_def SimQuote_default_def)
  ultimately show ?thesis using sent(1) unfolding bt(1) [symmetric] ord_def by blast
qed

end
