(* ===== verification/Mtbt_Generator.thy ===== *)
theory Mtbt_Generator
  imports Order_Book Event_Source
begin

text \<open>
  The synthetic sessions of \<^verbatim>\<open>src/sim/mtbt_generator.hpp\<close> and the branch of \<open>load_events\<close>
  (\<^verbatim>\<open>src/sim/event_source.hpp\<close>) that uses them.

  The random engine is a parameter: its state has an arbitrary type, \<open>raw\<close> gives its next number and
  \<open>draw lo hi\<close> is the value of a \<open>uniform_int_distribution\<close>. What the code relies on is that a
  distribution stays in its range, \<open>in_range\<close>; nothing else is assumed of the numbers. The vector of
  live orders of \<open>generate_mbo\<close> is a list, and removal by the last element is \<open>swap_remove\<close>.
\<close>

subsection \<open>The generator\<close>

type_synonym 'r draw = "int \<Rightarrow> int \<Rightarrow> 'r \<Rightarrow> int \<times> 'r"

definition in_range :: "'r draw \<Rightarrow> bool" where
  "in_range draw \<longleftrightarrow> (\<forall>lo hi r. lo \<le> hi \<longrightarrow> lo \<le> fst (draw lo hi r) \<and> fst (draw lo hi r) \<le> hi)"

record 'r MtbtGenerator =
  mg_token :: Token
  mg_mid :: Price
  mg_tick :: Price
  mg_rng :: 'r
  mg_seq :: u64
  mg_next_order :: int
  mg_next_trade :: int

definition MtbtGenerator_init :: "Token \<Rightarrow> Price \<Rightarrow> Price \<Rightarrow> 'r \<Rightarrow> 'r MtbtGenerator" where
  "MtbtGenerator_init token start_mid tick rng = \<lparr>mg_token = token, mg_mid = start_mid, mg_tick = tick, mg_rng = rng,
     mg_seq = 1, mg_next_order = 1, mg_next_trade = 1\<rparr>"

definition rng_draw :: "'r draw \<Rightarrow> int \<Rightarrow> int \<Rightarrow> 'r MtbtGenerator \<Rightarrow> int \<times> 'r MtbtGenerator" where
  "rng_draw draw lo hi g = (let (v, r) = draw lo hi (mg_rng g) in (v, g\<lparr>mg_rng := r\<rparr>))"

definition walk_mid :: "'r draw \<Rightarrow> 'r MtbtGenerator \<Rightarrow> 'r MtbtGenerator" where
  "walk_mid draw g =
     (let (c, g) = rng_draw draw 0 1 g;
          g = g\<lparr>mg_mid := mg_mid g + (if c = 0 then mg_tick g else - mg_tick g)\<rparr>
      in if mg_mid g < mg_tick g * 10 then g\<lparr>mg_mid := mg_tick g * 10\<rparr> else g)"

subsection \<open>Snap quotes and trades\<close>

definition generate_step :: "'r draw \<Rightarrow> 'r MtbtGenerator \<Rightarrow> 'r MtbtGenerator \<times> MarketEvent list" where
  "generate_step draw g =
     (let g = walk_mid draw g;
          seq_no = mg_seq g;
          (bid_qty, g) = rng_draw draw 1 50 (g\<lparr>mg_seq := mg_seq g + 1\<rparr>);
          (ask_qty, g) = rng_draw draw 1 50 g;
          q = zero_event\<lparr>me_type := kSnapQuote, me_token := mg_token g, me_seq_no := seq_no,
                me_bid_price := mg_mid g - mg_tick g, me_bid_qty := bid_qty,
                me_ask_price := mg_mid g + mg_tick g, me_ask_qty := ask_qty\<rparr>;
          (t, g) = rng_draw draw 0 3 g
      in if t \<noteq> 0 then (g, [q])
         else let (c, g) = rng_draw draw 0 1 g;
                  dir = (if c = 0 then 1 else - 1);
                  seq_no = mg_seq g;
                  (d, g) = rng_draw draw 1 3 (g\<lparr>mg_seq := mg_seq g + 1\<rparr>);
                  (qty, g) = rng_draw draw 1 50 g;
                  e = zero_event\<lparr>me_type := kTrade, me_token := mg_token g, me_seq_no := seq_no,
                        me_price := mg_mid g + dir * mg_tick g * d, me_qty := qty, me_order_no := mg_next_order g,
                        me_order_no2 := mg_next_order g + 1, me_trade_no := mg_next_trade g\<rparr>
              in (g\<lparr>mg_next_order := mg_next_order g + 2, mg_next_trade := mg_next_trade g + 1\<rparr>, [q, e]))"

fun generate_loop :: "'r draw \<Rightarrow> nat \<Rightarrow> 'r MtbtGenerator \<Rightarrow> MarketEvent list \<Rightarrow> 'r MtbtGenerator \<times> MarketEvent list" where
  "generate_loop draw 0 g out = (g, out)"
| "generate_loop draw (Suc n) g out = (let (g, evs) = generate_step draw g in generate_loop draw n g (out @ evs))"

definition generate :: "'r draw \<Rightarrow> int \<Rightarrow> 'r MtbtGenerator \<Rightarrow> MarketEvent list \<Rightarrow> 'r MtbtGenerator \<times> MarketEvent list" where
  "generate draw count g out = generate_loop draw (nat count) g out"

subsection \<open>Order by order\<close>

record GenOrder =
  go_no :: int
  go_price :: Price
  go_side :: Side
  go_qty :: Quantity

type_synonym 'r session = "'r MtbtGenerator \<times> MarketEvent list \<times> GenOrder list"

definition swap_remove :: "nat \<Rightarrow> 'a list \<Rightarrow> 'a list" where
  "swap_remove i xs = butlast (xs[i := last xs])"

definition mbo_add :: "'r draw \<Rightarrow> Price \<Rightarrow> Side \<Rightarrow> 'r session \<Rightarrow> 'r session" where
  "mbo_add draw price side = (\<lambda>(g, out, live).
     let (qty, g) = rng_draw draw 5 40 g;
         e = zero_event\<lparr>me_type := kOrderAdd, me_order_no := mg_next_order g, me_side := side, me_price := price,
               me_qty := qty, me_token := mg_token g, me_seq_no := mg_seq g\<rparr>
     in (g\<lparr>mg_next_order := mg_next_order g + 1, mg_seq := mg_seq g + 1\<rparr>, out @ [e],
         live @ [\<lparr>go_no = me_order_no e, go_price = price, go_side = side, go_qty = qty\<rparr>]))"

definition mbo_cancel :: "nat \<Rightarrow> 'r session \<Rightarrow> 'r session" where
  "mbo_cancel i = (\<lambda>(g, out, live).
     let e = zero_event\<lparr>me_type := kOrderCancel, me_order_no := go_no (live ! i), me_token := mg_token g, me_seq_no := mg_seq g\<rparr>
     in (g\<lparr>mg_seq := mg_seq g + 1\<rparr>, out @ [e], swap_remove i live))"

definition mbo_trade :: "nat \<Rightarrow> int \<Rightarrow> 'r session \<Rightarrow> 'r session" where
  "mbo_trade i qd = (\<lambda>(g, out, live).
     let tq = min (go_qty (live ! i)) qd;
         buy = (go_side (live ! i) = kBuy);
         t = zero_event\<lparr>me_type := kTrade, me_token := mg_token g, me_price := go_price (live ! i), me_qty := tq, me_seq_no := mg_seq g,
               me_order_no := (if buy then go_no (live ! i) else 0), me_order_no2 := (if buy then 0 else go_no (live ! i)),
               me_trade_no := mg_next_trade g\<rparr>;
         live = live[i := (live ! i)\<lparr>go_qty := go_qty (live ! i) - tq\<rparr>]
     in (g\<lparr>mg_seq := mg_seq g + 1, mg_next_trade := mg_next_trade g + 1\<rparr>, out @ [t],
         if go_qty (live ! i) \<le> 0 then swap_remove i live else live))"

function mbo_shrink :: "'r session \<Rightarrow> 'r session" where
  "mbo_shrink (g, out, live) = (if length live > 150 then mbo_shrink (mbo_cancel 0 (g, out, live)) else (g, out, live))"
  by pat_completeness auto
termination
  by (relation "measure (\<lambda>(g, out, live). length live)") (auto simp: mbo_cancel_def swap_remove_def Let_def)

text \<open>A draw inside a session, and a random position in the vector of live orders.\<close>

definition mbo_draw :: "'r draw \<Rightarrow> int \<Rightarrow> int \<Rightarrow> 'r session \<Rightarrow> int \<times> 'r session" where
  "mbo_draw draw lo hi = (\<lambda>(g, out, live). let (v, g) = rng_draw draw lo hi g in (v, (g, out, live)))"

definition mbo_pick :: "('r \<Rightarrow> u64 \<times> 'r) \<Rightarrow> 'r session \<Rightarrow> nat \<times> 'r session" where
  "mbo_pick raw = (\<lambda>(g, out, live).
     let (v, r) = raw (mg_rng g) in (unat (v mod of_nat (length live)), (g\<lparr>mg_rng := r\<rparr>, out, live)))"

definition mbo_mid :: "'r session \<Rightarrow> Price" where
  "mbo_mid s = mg_mid (fst s)"

definition mbo_tick :: "'r session \<Rightarrow> Price" where
  "mbo_tick s = mg_tick (fst s)"

definition mbo_live :: "'r session \<Rightarrow> GenOrder list" where
  "mbo_live s = snd (snd s)"

definition mbo_pair :: "'r draw \<Rightarrow> int \<Rightarrow> 'r session \<Rightarrow> 'r session" where
  "mbo_pair draw k s =
     (let s = mbo_add draw (mbo_mid s - mbo_tick s * k) kBuy s in mbo_add draw (mbo_mid s + mbo_tick s * k) kSell s)"

text \<open>The two random actions of a step.\<close>

definition mbo_maybe_cancel :: "'r draw \<Rightarrow> ('r \<Rightarrow> u64 \<times> 'r) \<Rightarrow> 'r session \<Rightarrow> 'r session" where
  "mbo_maybe_cancel draw raw s =
     (if mbo_live s \<noteq> []
      then let (r, s) = mbo_draw draw 0 9 s
           in if r < 4 then let (i, s) = mbo_pick raw s in mbo_cancel i s else s
      else s)"

definition mbo_maybe_trade :: "'r draw \<Rightarrow> ('r \<Rightarrow> u64 \<times> 'r) \<Rightarrow> 'r session \<Rightarrow> 'r session" where
  "mbo_maybe_trade draw raw s =
     (if mbo_live s \<noteq> []
      then let (r, s) = mbo_draw draw 0 9 s
           in if r < 6 then let (i, s) = mbo_pick raw s; (q, s) = mbo_draw draw 5 40 s in mbo_trade i q s else s
      else s)"

definition mbo_step :: "'r draw \<Rightarrow> ('r \<Rightarrow> u64 \<times> 'r) \<Rightarrow> 'r session \<Rightarrow> 'r session" where
  "mbo_step draw raw s =
     (let (r, s) = mbo_draw draw 0 9 s;
          s = (if r < 4 then (walk_mid draw (fst s), snd s) else s);
          s = mbo_pair draw 1 s;
          (r, s) = mbo_draw draw 0 9 s;
          s = (if r < 5 then mbo_pair draw 2 s else s);
          s = mbo_maybe_trade draw raw (mbo_maybe_cancel draw raw s)
      in mbo_shrink s)"

definition generate_mbo ::
    "'r draw \<Rightarrow> ('r \<Rightarrow> u64 \<times> 'r) \<Rightarrow> int \<Rightarrow> 'r MtbtGenerator \<Rightarrow> MarketEvent list \<Rightarrow> 'r session" where
  "generate_mbo draw raw steps g out =
     (mbo_step draw raw ^^ nat steps) (mbo_pair draw 3 (mbo_pair draw 2 (mbo_pair draw 1 (g, out, []))))"

text \<open>\<open>load_events\<close>: the capture file when a path is given, else a session from the fixed seed.\<close>

definition load_events ::
    "'r draw \<Rightarrow> ('r \<Rightarrow> u64 \<times> 'r) \<Rightarrow> 'r \<Rightarrow> u8 list option option \<Rightarrow> Token \<Rightarrow> Price \<Rightarrow> Price \<Rightarrow> int \<Rightarrow> MarketEvent list option" where
  "load_events draw raw seeded path token mid tick synth_count =
     (case path of
        None \<Rightarrow> (case generate_mbo draw raw synth_count (MtbtGenerator_init token mid tick seeded) [] of (g, events, live) \<Rightarrow> Some events)
      | Some file \<Rightarrow> load_events_file file)"

subsection \<open>Removal by the last element\<close>

lemma swap_remove_keys:
  assumes "i < length xs" "distinct (map f xs)"
  shows "set (swap_remove i xs) = set xs - {xs ! i}" "distinct (map f (swap_remove i xs))" "length (swap_remove i xs) = length xs - 1"
proof -
  have d: "distinct xs" using assms(2) by (simp add: distinct_map)
  obtain ys z where xs: "xs = ys @ [z]" using assms(1) by (cases xs rule: rev_cases) auto
  show set: "set (swap_remove i xs) = set xs - {xs ! i}"
  proof (cases "i < length ys")
    case True
    then have "swap_remove i xs = ys[i := z]" "xs ! i = ys ! i" by (simp_all add: swap_remove_def xs list_update_append nth_append)
    then show ?thesis using d True set_update_distinct [of ys i z] by (auto simp: xs)
  next
    case False
    then have "i = length ys" using assms(1) xs by simp
    then show ?thesis using d by (simp add: swap_remove_def xs)
  qed
  show len: "length (swap_remove i xs) = length xs - 1" by (simp add: swap_remove_def)
  have "card (set xs - {xs ! i}) = length xs - 1" using d assms(1) by (simp add: distinct_card)
  then have "distinct (swap_remove i xs)" using set len by (intro card_distinct) simp
  then show "distinct (map f (swap_remove i xs))" using assms(2) set by (auto simp: distinct_map inj_on_def)
qed

lemma swap_remove_update:
  assumes "i < length xs"
  shows "swap_remove i (xs[i := y]) = swap_remove i xs"
proof -
  obtain ys z where xs: "xs = ys @ [z]" using assms by (cases xs rule: rev_cases) auto
  then have "i < length ys \<or> i = length ys" using assms by auto
  then show ?thesis by (auto simp: swap_remove_def xs list_update_append)
qed

subsection \<open>The generator and the book\<close>

definition record_of :: "GenOrder \<Rightarrow> OrderRecord" where
  "record_of x = \<lparr>r_order_no = go_no x, r_price = go_price x, r_qty = go_qty x, r_side = go_side x, r_occupied = True\<rparr>"

definition book_of :: "GenOrder list \<Rightarrow> int \<rightharpoonup> OrderRecord" where
  "book_of live = map_of (map (\<lambda>x. (go_no x, record_of x)) live)"

definition live_ok :: "int \<Rightarrow> Price \<Rightarrow> GenOrder list \<Rightarrow> bool" where
  "live_ok next tick live \<longleftrightarrow> distinct (map go_no live) \<and> (\<forall>x \<in> set live. 0 < go_no x \<and> go_no x < next \<and> 0 < go_qty x \<and> tick dvd go_price x)"

lemma book_of_eq:
  "distinct (map go_no xs) \<Longrightarrow> distinct (map go_no ys) \<Longrightarrow> set xs = set ys \<Longrightarrow> book_of xs = book_of ys"
  unfolding book_of_def by (subst map_of_inject_set) (auto simp: comp_def)

lemma book_of_Some: "distinct (map go_no live) \<Longrightarrow> x \<in> set live \<Longrightarrow> book_of live (go_no x) = Some (record_of x)"
  unfolding book_of_def by (rule map_of_is_SomeI) (auto simp: comp_def)

lemma book_of_dom: "dom (book_of live) = go_no ` set live"
  by (simp add: book_of_def dom_map_of_conv_image_fst image_image)

lemma book_of_card: "card (dom (book_of live)) \<le> length live"
  unfolding book_of_dom by (metis card_length length_map set_map)

lemma book_of_append:
  assumes "go_no x \<notin> go_no ` set live"
  shows "book_of (live @ [x]) = (book_of live)(go_no x \<mapsto> record_of x)"
proof -
  have "book_of live (go_no x) = None" using assms book_of_dom [of live] by (auto simp: domIff)
  then show ?thesis by (auto simp: book_of_def map_add_def fun_eq_iff split: option.splits)
qed

text \<open>A stream in step with the live orders: the reference book that has read it holds them, is not
  stale and expects the next number of the sequence.\<close>

definition in_step :: "nat \<Rightarrow> Price \<Rightarrow> MarketEvent list \<Rightarrow> GenOrder list \<Rightarrow> u64 \<Rightarrow> bool" where
  "in_step cap tick out live seq \<longleftrightarrow> feed_ok cap tick out ref_init
     \<and> (let s = ref_events tick out ref_init
        in rf_orders s = book_of live \<and> rf_seed s = (\<lambda>_. None) \<and> \<not> rf_stale s \<and> rf_expected s \<in> {0, seq})"

lemma feed_ok_append: "feed_ok cap tick (xs @ ys) s \<longleftrightarrow> feed_ok cap tick xs s \<and> feed_ok cap tick ys (ref_events tick xs s)"
  by (induction xs arbitrary: s) (simp_all add: ref_events_def)

lemma in_step_start: "in_step cap tick [] [] seq"
  by (simp add: in_step_def ref_events_def ref_init_def book_of_def)

lemma in_step_emit:
  assumes "in_step cap tick out live seq" "me_seq_no ev = seq" "me_type ev \<noteq> kSnapQuote" "0 \<le> me_qty ev"
    and "me_type ev = kOrderAdd \<longrightarrow> me_order_no ev \<notin> go_no ` set live" "length live < cap" "length live < 255"
    and "ref_orders tick ev (book_of live) = book_of live'"
  shows "in_step cap tick (out @ [ev]) live' (seq + 1)"
proof -
  define s where "s = ref_events tick out ref_init"
  have s: "feed_ok cap tick out ref_init" "rf_orders s = book_of live" "rf_seed s = (\<lambda>_. None)" "\<not> rf_stale s" "rf_expected s \<in> {0, seq}"
    using assms(1) by (simp_all add: in_step_def s_def Let_def)
  have gap: "\<not> ref_gap ev s" using s(5) assms(2) by (auto simp: ref_gap_def)
  have c: "card (dom (book_of live)) \<le> length live" "finite (dom (book_of live))" by (rule book_of_card) (simp add: book_of_dom)
  have "card (dom (ref_levels (book_of live) (\<lambda>_. None) side)) < kMaxLevelsPerSide" for side
    using few_levels [OF c(2), of "\<lambda>_. None" side] c(1) assms(7) by (simp add: kMaxLevelsPerSide_def)
  then have "followable cap ev s" using assms(4-6) c(1) s(2,3) by (simp add: followable_def book_of_dom)
  moreover have "ref_events tick (out @ [ev]) ref_init = s\<lparr>rf_expected := (if seq \<noteq> 0 then seq + 1 else rf_expected s), rf_orders := book_of live'\<rparr>"
    using gap s(2,4) assms(2,3,8) by (simp add: ref_events_def s_def [unfolded ref_events_def, symmetric] ref_event_def)
  ultimately show ?thesis using s by (auto simp: in_step_def feed_ok_append s_def Let_def)
qed

lemma tick_dvd_ok: "tick dvd p \<Longrightarrow> tick_ok tick p"
  by (auto simp: tick_ok_def signed_modulo_int_def signed_divide_int_def)

lemma in_rangeD: "in_range draw \<Longrightarrow> lo \<le> hi \<Longrightarrow> lo \<le> fst (draw lo hi r) \<and> fst (draw lo hi r) \<le> hi"
  by (simp add: in_range_def)

definition session_ok :: "nat \<Rightarrow> Token \<Rightarrow> Price \<Rightarrow> nat \<Rightarrow> 'r session \<Rightarrow> bool" where
  "session_ok cap token tick k = (\<lambda>(g, out, live). mg_tick g = tick \<and> mg_token g = token \<and> tick dvd mg_mid g \<and> 0 < mg_next_order g
     \<and> live_ok (mg_next_order g) tick live \<and> length live \<le> k \<and> in_step cap tick out live (mg_seq g)
     \<and> list_all (\<lambda>e. me_token e = token \<and> 0 \<le> me_qty e) out)"

lemma session_ok_mono: "session_ok cap token tick k s \<Longrightarrow> k \<le> k' \<Longrightarrow> session_ok cap token tick k' s"
  by (auto simp: session_ok_def)

lemma session_ok_live: "session_ok cap token tick k s \<Longrightarrow> length (mbo_live s) \<le> k"
  by (auto simp: session_ok_def mbo_live_def)

lemma add_ok:
  assumes "session_ok cap token tick k s" "in_range draw" "tick dvd price" "k < cap" "k < 255"
  shows "session_ok cap token tick (k + 1) (mbo_add draw price side s)"
    "mbo_mid (mbo_add draw price side s) = mbo_mid s" "mbo_tick (mbo_add draw price side s) = mbo_tick s"
proof -
  obtain g out live where s: "s = (g, out, live)" by (cases s)
  obtain qty r where d: "draw 5 40 (mg_rng g) = (qty, r)" by (cases "draw 5 40 (mg_rng g)")
  have q: "5 \<le> qty" using in_rangeD [OF assms(2), of 5 40 "mg_rng g"] d by simp
  define x where "x = \<lparr>go_no = mg_next_order g, go_price = price, go_side = side, go_qty = qty\<rparr>"
  define e where "e = zero_event\<lparr>me_type := kOrderAdd, me_order_no := mg_next_order g, me_side := side, me_price := price,
      me_qty := qty, me_token := mg_token g, me_seq_no := mg_seq g\<rparr>"
  define g' where "g' = g\<lparr>mg_rng := r, mg_next_order := mg_next_order g + 1, mg_seq := mg_seq g + 1\<rparr>"
  have run: "mbo_add draw price side s = (g', out @ [e], live @ [x])"
    by (simp add: mbo_add_def s rng_draw_def d x_def e_def g'_def Let_def)
  have I: "live_ok (mg_next_order g) tick live" "length live \<le> k" "in_step cap tick out live (mg_seq g)"
    using assms(1) by (simp_all add: session_ok_def s)
  have new: "go_no x \<notin> go_no ` set live" using I(1) by (auto simp: live_ok_def x_def)
  have "ref_orders tick e (book_of live) = book_of (live @ [x])"
    unfolding book_of_append [OF new] using tick_dvd_ok [OF assms(3)]
    by (simp add: ref_orders_def e_def added_def record_of_def x_def)
  then have "in_step cap tick (out @ [e]) (live @ [x]) (mg_seq g + 1)"
    using new q I(2) assms(4,5) by (intro in_step_emit [OF I(3)]) (simp_all add: e_def x_def mtbt_codes)
  then show "session_ok cap token tick (k + 1) (mbo_add draw price side s)"
    unfolding run using assms(1,3) I new q
    by (auto simp: session_ok_def s g'_def live_ok_def x_def e_def zero_event_def)
  show "mbo_mid (mbo_add draw price side s) = mbo_mid s" "mbo_tick (mbo_add draw price side s) = mbo_tick s"
    unfolding run by (simp_all add: mbo_mid_def mbo_tick_def s g'_def)
qed

lemma live_remove:
  assumes "live_ok n tick live" "i < length live"
  shows "live_ok n tick (swap_remove i live)" "book_of (swap_remove i live) = (book_of live)(go_no (live ! i) := None)"
proof -
  have d: "distinct (map go_no live)" using assms(1) by (simp add: live_ok_def)
  note r = swap_remove_keys [OF assms(2) d]
  show "live_ok n tick (swap_remove i live)" using assms(1) r(1,2) by (auto simp: live_ok_def)
  have set: "set (swap_remove i live) = {x \<in> set live. go_no x \<noteq> go_no (live ! i)}"
    using r(1) d assms(2) nth_mem [OF assms(2)] by (auto simp: distinct_map inj_on_def)
  show "book_of (swap_remove i live) = (book_of live)(go_no (live ! i) := None)"
  proof
    fix k
    show "book_of (swap_remove i live) k = ((book_of live)(go_no (live ! i) := None)) k"
    proof (cases "k \<in> go_no ` set (swap_remove i live)")
      case True
      then obtain x where x: "x \<in> set (swap_remove i live)" "k = go_no x" by blast
      then show ?thesis using book_of_Some [OF r(2) x(1)] book_of_Some [OF d, of x] set by auto
    next
      case False
      then have "book_of (swap_remove i live) k = None" "k = go_no (live ! i) \<or> book_of live k = None"
        using book_of_dom [of "swap_remove i live"] book_of_dom [of live] set by (auto simp: domIff)
      then show ?thesis by auto
    qed
  qed
qed

lemma live_shrunk:
  assumes "live_ok n tick live" "i < length live" "0 < q" "x = (live ! i)\<lparr>go_qty := q\<rparr>"
  shows "live_ok n tick (live[i := x])" "book_of (live[i := x]) = (book_of live)(go_no (live ! i) \<mapsto> record_of x)"
proof -
  have keys: "map go_no (live[i := x]) = map go_no live"
    using assms(2) by (simp add: map_update assms(4)) (metis list_update_id nth_map)
  have d: "distinct (map go_no live)" using assms(1) by (simp add: live_ok_def)
  have d': "distinct (map go_no (live[i := x]))" unfolding keys by (rule d)
  have set: "set (live[i := x]) = insert x (set live - {live ! i})"
    using d by (intro set_update_distinct) (auto simp: assms(2) distinct_map)
  have "live ! i \<in> set live" using assms(2) by simp
  then show "live_ok n tick (live[i := x])"
    using assms(1,3) d' set unfolding live_ok_def by (auto simp: assms(4))
  show "book_of (live[i := x]) = (book_of live)(go_no (live ! i) \<mapsto> record_of x)"
  proof
    fix k
    consider "k = go_no x" | y where "y \<in> set live" "k = go_no y" "k \<noteq> go_no x" | "k \<notin> go_no ` set live" "k \<noteq> go_no x" by blast
    then show "book_of (live[i := x]) k = ((book_of live)(go_no (live ! i) \<mapsto> record_of x)) k"
    proof cases
      case 1
      then show ?thesis using book_of_Some [OF d', of x] set by (simp add: assms(4))
    next
      case 2
      then have "y \<in> set (live[i := x])" using set by (auto simp: assms(4))
      then show ?thesis using book_of_Some [OF d', of y] book_of_Some [OF d, of y] 2 by (auto simp: assms(4))
    next
      case 3
      then have "book_of (live[i := x]) k = None" "book_of live k = None"
        using book_of_dom [of "live[i := x]"] book_of_dom [of live] set by (auto simp: domIff)
      then show ?thesis using 3 by (auto simp: assms(4))
    qed
  qed
qed

lemma cancel_ok:
  assumes "session_ok cap token tick k s" "i < length (mbo_live s)" "k < cap" "k < 255"
  shows "session_ok cap token tick (k - 1) (mbo_cancel i s)"
proof -
  obtain g out live where s: "s = (g, out, live)" by (cases s)
  have i: "i < length live" using assms(2) by (simp add: s mbo_live_def)
  have I: "live_ok (mg_next_order g) tick live" "length live \<le> k" "in_step cap tick out live (mg_seq g)"
    using assms(1) by (simp_all add: session_ok_def s)
  define e where "e = zero_event\<lparr>me_type := kOrderCancel, me_order_no := go_no (live ! i), me_token := mg_token g, me_seq_no := mg_seq g\<rparr>"
  have "ref_orders tick e (book_of live) = book_of (swap_remove i live)"
    unfolding live_remove(2) [OF I(1) i] by (simp add: ref_orders_def e_def mtbt_codes)
  then have "in_step cap tick (out @ [e]) (swap_remove i live) (mg_seq g + 1)"
    using I(2) assms(3,4) by (intro in_step_emit [OF I(3)]) (simp_all add: e_def mtbt_codes zero_event_def)
  moreover have "length (swap_remove i live) \<le> k - 1" using I(2) by (simp add: swap_remove_def)
  ultimately show ?thesis using assms(1) live_remove(1) [OF I(1) i]
    by (simp add: session_ok_def s mbo_cancel_def e_def [symmetric] Let_def) (simp add: e_def zero_event_def)
qed

lemma trade_ok:
  assumes "session_ok cap token tick k s" "i < length (mbo_live s)" "k < cap" "k < 255" "0 < qd"
  shows "session_ok cap token tick k (mbo_trade i qd s)"
proof -
  obtain g out live where s: "s = (g, out, live)" by (cases s)
  have i: "i < length live" using assms(2) by (simp add: s mbo_live_def)
  have I: "live_ok (mg_next_order g) tick live" "length live \<le> k" "in_step cap tick out live (mg_seq g)"
    using assms(1) by (simp_all add: session_ok_def s)
  define x where "x = live ! i"
  have x: "0 < go_no x" "0 < go_qty x" "book_of live (go_no x) = Some (record_of x)"
    using I(1) nth_mem [OF i] book_of_Some [of live x] by (auto simp: live_ok_def x_def)
  define tq where "tq = min (go_qty x) qd"
  have tq: "0 < tq" using x(2) assms(5) by (simp add: tq_def)
  define t where "t = zero_event\<lparr>me_type := kTrade, me_token := mg_token g, me_price := go_price x, me_qty := tq, me_seq_no := mg_seq g,
     me_order_no := (if go_side x then go_no x else 0), me_order_no2 := (if go_side x then 0 else go_no x), me_trade_no := mg_next_trade g\<rparr>"
  define live' where "live' = (if go_qty x \<le> qd then swap_remove i (live[i := x\<lparr>go_qty := 0\<rparr>]) else live[i := x\<lparr>go_qty := go_qty x - tq\<rparr>])"
  note swap = swap_remove_update [OF i]
  have run: "mbo_trade i qd s = (g\<lparr>mg_seq := mg_seq g + 1, mg_next_trade := mg_next_trade g + 1\<rparr>, out @ [t], live')"
    using i by (auto simp: mbo_trade_def s t_def live'_def tq_def x_def Let_def min_def)
  have ref: "ref_orders tick t (book_of live) = ref_reduce (go_no x) tq (book_of live)"
    by (simp add: ref_orders_def t_def mtbt_codes ref_reduce_def)
  have "live_ok (mg_next_order g) tick live' \<and> ref_orders tick t (book_of live) = book_of live' \<and> length live' \<le> k"
  proof (cases "go_qty x \<le> qd")
    case True
    then show ?thesis unfolding ref live'_def swap using live_remove [OF I(1) i] x I(2)
      by (simp add: ref_reduce_def record_of_def tq_def x_def swap_remove_def)
  next
    case False
    then have "0 < go_qty x - tq" by (simp add: tq_def)
    from live_shrunk [OF I(1) i this refl] False show ?thesis unfolding ref live'_def using x I(2)
      by (simp add: ref_reduce_def record_of_def tq_def x_def)
  qed
  moreover from this have "in_step cap tick (out @ [t]) live' (mg_seq g + 1)"
    using I(2) assms(3,4) tq by (intro in_step_emit [OF I(3)]) (simp_all add: t_def mtbt_codes)
  ultimately show ?thesis unfolding run using assms(1) tq
    by (simp add: session_ok_def s) (simp add: t_def zero_event_def)
qed

lemma draw_ok:
  assumes "session_ok cap token tick k s" "in_range draw" "lo \<le> hi" "mbo_draw draw lo hi s = (v, s')"
  shows "session_ok cap token tick k s'" "lo \<le> v" "mbo_live s' = mbo_live s"
proof -
  obtain g out live where s: "s = (g, out, live)" by (cases s)
  have v: "v = fst (draw lo hi (mg_rng g))" "s' = (g\<lparr>mg_rng := snd (draw lo hi (mg_rng g))\<rparr>, out, live)"
    using assms(4) by (simp_all add: mbo_draw_def rng_draw_def s split_beta Let_def)
  show "lo \<le> v" using in_rangeD [OF assms(2,3)] by (simp add: v(1))
  show "session_ok cap token tick k s'" "mbo_live s' = mbo_live s" using assms(1) by (simp_all add: session_ok_def mbo_live_def s v(2))
qed

lemma pick_ok:
  assumes "session_ok cap token tick k s" "mbo_live s \<noteq> []" "k < 255" "mbo_pick raw s = (i, s')"
  shows "session_ok cap token tick k s'" "i < length (mbo_live s')"
proof -
  obtain g out live where s: "s = (g, out, live)" by (cases s)
  obtain v r where r: "raw (mg_rng g) = (v, r)" by (cases "raw (mg_rng g)")
  have e: "i = unat (v mod of_nat (length live))" "s' = (g\<lparr>mg_rng := r\<rparr>, out, live)"
    using assms(4) r by (simp_all add: mbo_pick_def s Let_def)
  have n: "0 < length live" "length live < 255" using assms(1-3) by (auto simp: session_ok_def mbo_live_def s)
  then have "unat (of_nat (length live) :: u64) = length live" by (simp add: unsigned_of_nat take_bit_nat_eq_self)
  then have "i < length live" unfolding e(1) unat_mod_distrib using n(1) by simp
  then show "i < length (mbo_live s')" "session_ok cap token tick k s'"
    using assms(1) by (simp_all add: session_ok_def mbo_live_def s e(2))
qed

lemma walk_ok: "session_ok cap token tick k s \<Longrightarrow> session_ok cap token tick k (walk_mid draw (fst s), snd s)"
  by (cases s) (simp add: session_ok_def walk_mid_def rng_draw_def split_beta Let_def)

lemma pair_ok:
  assumes "session_ok cap token tick k s" "in_range draw" "k + 1 < cap" "k + 1 < 255"
  shows "session_ok cap token tick (k + 2) (mbo_pair draw j s)"
proof -
  have t: "mbo_tick s = tick" "tick dvd mbo_mid s" using assms(1) by (auto simp: session_ok_def mbo_tick_def mbo_mid_def)
  define s1 where "s1 = mbo_add draw (mbo_mid s - mbo_tick s * j) kBuy s"
  have 1: "session_ok cap token tick (k + 1) s1" "mbo_mid s1 = mbo_mid s" "mbo_tick s1 = mbo_tick s"
    unfolding s1_def using assms t by (intro add_ok [OF assms(1,2)] add_ok(2,3) [OF assms(1,2)]; simp)+
  have "session_ok cap token tick (k + 1 + 1) (mbo_add draw (mbo_mid s1 + mbo_tick s1 * j) kSell s1)"
    using assms t 1 by (intro add_ok(1) [OF 1(1) assms(2)]) simp_all
  then show ?thesis by (simp add: mbo_pair_def s1_def Let_def)
qed

lemma shrink_ok:
  assumes "session_ok cap token tick k s" "k < cap" "k < 255" "150 \<le> k"
  shows "session_ok cap token tick 150 (mbo_shrink s)"
  using assms(1)
proof (induction s rule: mbo_shrink.induct)
  case (1 g out live)
  show ?case
  proof (cases "length live > 150")
    case True
    have "session_ok cap token tick (k - 1) (mbo_cancel 0 (g, out, live))"
      using True assms(2,3) by (intro cancel_ok [OF 1(2)]) (auto simp: mbo_live_def)
    then have "session_ok cap token tick k (mbo_cancel 0 (g, out, live))" by (rule session_ok_mono) simp
    from 1(1) [OF True this] show ?thesis using True by (subst mbo_shrink.simps) simp
  next
    case False
    then show ?thesis using 1(2) by (subst mbo_shrink.simps) (simp add: session_ok_def)
  qed
qed

lemma maybe_cancel_ok:
  assumes "session_ok cap token tick k s" "in_range draw" "k < cap" "k < 255"
  shows "session_ok cap token tick k (mbo_maybe_cancel draw raw s)"
proof (cases "mbo_live s = []")
  case False
  obtain r s1 where 1: "mbo_draw draw 0 9 s = (r, s1)" by (cases "mbo_draw draw 0 9 s")
  obtain i s2 where 2: "mbo_pick raw s1 = (i, s2)" by (cases "mbo_pick raw s1")
  note d = draw_ok [OF assms(1,2) _ 1]
  have d': "session_ok cap token tick k s1" "mbo_live s1 \<noteq> []" using d(1,3) False by simp_all
  note p = pick_ok [OF d' assms(4) 2]
  have "session_ok cap token tick k (mbo_cancel i s2)"
    by (rule session_ok_mono [OF cancel_ok [OF p assms(3,4)]]) simp
  then show ?thesis using False 1 2 d'(1) by (simp add: mbo_maybe_cancel_def)
qed (use assms in \<open>simp add: mbo_maybe_cancel_def\<close>)

lemma maybe_trade_ok:
  assumes "session_ok cap token tick k s" "in_range draw" "k < cap" "k < 255"
  shows "session_ok cap token tick k (mbo_maybe_trade draw raw s)"
proof (cases "mbo_live s = []")
  case False
  obtain r s1 where 1: "mbo_draw draw 0 9 s = (r, s1)" by (cases "mbo_draw draw 0 9 s")
  obtain i s2 where 2: "mbo_pick raw s1 = (i, s2)" by (cases "mbo_pick raw s1")
  obtain q s3 where 3: "mbo_draw draw 5 40 s2 = (q, s3)" by (cases "mbo_draw draw 5 40 s2")
  note d = draw_ok [OF assms(1,2) _ 1]
  have d': "session_ok cap token tick k s1" "mbo_live s1 \<noteq> []" using d(1,3) False by simp_all
  note p = pick_ok [OF d' assms(4) 2] and q = draw_ok [OF pick_ok(1) [OF d' assms(4) 2] assms(2) _ 3]
  have "session_ok cap token tick k (mbo_trade i q s3)"
    using p(2) q by (intro trade_ok [OF _ _ assms(3,4)]) simp_all
  then show ?thesis using False 1 2 3 d'(1) by (simp add: mbo_maybe_trade_def)
qed (use assms in \<open>simp add: mbo_maybe_trade_def\<close>)

lemma step_ok:
  assumes "session_ok cap token tick 150 s" "in_range draw" "154 < cap"
  shows "session_ok cap token tick 150 (mbo_step draw raw s)"
proof -
  obtain r1 s1 where 1: "mbo_draw draw 0 9 s = (r1, s1)" by (cases "mbo_draw draw 0 9 s")
  define s2 where "s2 = mbo_pair draw 1 (if r1 < 4 then (walk_mid draw (fst s1), snd s1) else s1)"
  have k1: "session_ok cap token tick 150 s1" using draw_ok(1) [OF assms(1,2) _ 1] by simp
  have k2: "session_ok cap token tick 152 s2"
    unfolding s2_def using pair_ok [OF walk_ok [OF k1, of draw] assms(2), of 1] pair_ok [OF k1 assms(2), of 1] assms(3) by simp
  obtain r3 s3 where 3: "mbo_draw draw 0 9 s2 = (r3, s3)" by (cases "mbo_draw draw 0 9 s2")
  define s4 where "s4 = (if r3 < 5 then mbo_pair draw 2 s3 else s3)"
  have k3: "session_ok cap token tick 152 s3" using draw_ok(1) [OF k2 assms(2) _ 3] by simp
  have k4: "session_ok cap token tick 154 s4"
    unfolding s4_def using pair_ok [OF k3 assms(2), of 2] session_ok_mono [OF k3, of 154] assms(3) by simp
  have "mbo_step draw raw s = mbo_shrink (mbo_maybe_trade draw raw (mbo_maybe_cancel draw raw s4))"
    by (simp add: mbo_step_def 1 s2_def [symmetric] 3 s4_def [symmetric] Let_def)
  then show ?thesis
    using shrink_ok [OF maybe_trade_ok [OF maybe_cancel_ok [OF k4 assms(2)] assms(2)]] assms(3) by simp
qed

lemma generate_mbo_ok:
  assumes "in_range draw" "154 < cap" "tick dvd mid"
  shows "session_ok cap token tick 150 (generate_mbo draw raw steps (MtbtGenerator_init token mid tick seeded) [])"
proof -
  have "session_ok cap token tick 0 (MtbtGenerator_init token mid tick seeded, [], [])"
    using assms(3) in_step_start by (simp add: session_ok_def MtbtGenerator_init_def live_ok_def)
  from session_ok_mono [OF pair_ok [OF pair_ok [OF pair_ok [OF this assms(1), of 1] assms(1), of 2] assms(1), of 3], of 150]
  have start: "session_ok cap token tick 150 (mbo_pair draw 3 (mbo_pair draw 2 (mbo_pair draw 1 (MtbtGenerator_init token mid tick seeded, [], []))))"
    using assms(2) by simp
  have "session_ok cap token tick 150 ((mbo_step draw raw ^^ n) s)" if "session_ok cap token tick 150 s" for n s
    using that by (induction n) (simp_all add: step_ok [OF _ assms(1,2)])
  from this [OF start] show ?thesis by (simp add: generate_mbo_def)
qed

subsection \<open>Properties\<close>

lemma synthetic_session:
  assumes "in_range draw" "tick dvd mid" "154 < cap"
    and "generate_mbo draw raw n (MtbtGenerator_init token mid tick seeded) [] = (g, events, live)"
  shows "length live \<le> 150" "distinct (map go_no live)" "feed_ok cap tick events ref_init"
    and "rf_orders (ref_events tick events ref_init) = book_of live" "rf_seed (ref_events tick events ref_init) = (\<lambda>_. None)"
    and "\<not> rf_stale (ref_events tick events ref_init)" "list_all (\<lambda>e. me_token e = token \<and> 0 \<le> me_qty e) events"
proof -
  have "session_ok cap token tick 150 (g, events, live)" using generate_mbo_ok [OF assms(1,3,2)] assms(4) by metis
  then show "length live \<le> 150" "distinct (map go_no live)" "feed_ok cap tick events ref_init"
    "rf_orders (ref_events tick events ref_init) = book_of live" "rf_seed (ref_events tick events ref_init) = (\<lambda>_. None)"
    "\<not> rf_stale (ref_events tick events ref_init)" "list_all (\<lambda>e. me_token e = token \<and> 0 \<le> me_qty e) events"
    by (auto simp: session_ok_def in_step_def live_ok_def Let_def)
qed

lemma synthetic_events:
  assumes "in_range draw" "tick dvd mid" "154 < cap" "load_events draw raw seeded None token mid tick n = Some events"
  shows "feed_ok cap tick events ref_init" "list_all (\<lambda>e. me_token e = token \<and> 0 \<le> me_qty e) events"
proof -
  obtain g live where s: "generate_mbo draw raw n (MtbtGenerator_init token mid tick seeded) [] = (g, events, live)"
    using assms(4) by (auto simp: load_events_def split: prod.splits)
  from synthetic_session [OF assms(1-3) s]
  show "feed_ok cap tick events ref_init" "list_all (\<lambda>e. me_token e = token \<and> 0 \<le> me_qty e) events" by simp_all
qed

text \<open>C29 The synthetic session is one the book can follow. Whatever the random numbers, as long as each
  distribution stays in its range and the start price is on the tick grid, a book with room for 155
  orders returns from every event that \<open>generate_mbo\<close> appends, is not stale at the end, and tracks exactly the orders
  left in the generator's own vector of live orders, each with its remaining quantity: at most 150, with both sides showing the
  levels they give. These events are what \<open>load_events\<close> hands out without a file; every one is for the session's token
  and no quantity is negative.\<close>

theorem synthetic_session_followed:
  assumes "in_range draw" "tick dvd mid" "OrderBook_init token tick capacity = Some b0" "154 \<le> ob_order_mask b0"
    and "generate_mbo draw raw n (MtbtGenerator_init token mid tick seeded) [] = (g, events, live)"
  shows "load_events draw raw seeded None token mid tick n = Some events
     \<and> (\<exists>b. apply_events events b0 = Some b \<and> \<not> ob_stale b \<and> tracked b = book_of live
          \<and> side_levels kBuy b = ref_levels (book_of live) (\<lambda>_. None) kBuy \<and> side_levels kSell b = ref_levels (book_of live) (\<lambda>_. None) kSell)
     \<and> length live \<le> 150 \<and> distinct (map go_no live) \<and> list_all (\<lambda>e. me_token e = token \<and> 0 \<le> me_qty e) events"
proof -
  have "154 < ob_order_mask b0 + 1" using assms(4) by simp
  note l = synthetic_session [OF assms(1,2) this assms(5)]
  obtain b where "apply_events events b0 = Some b" "book_ok (ref_events tick events ref_init) b"
    using apply_events_refine [OF init_wf(2) [OF assms(3)], of events] l(3) init_frame(1) [OF assms(3)] by auto
  then show ?thesis using l assms(5) by (auto simp: book_ok_def levels_ok_def load_events_def)
qed

text \<open>A degenerate random engine: every distribution gives its least value.\<close>

definition least_draw :: "unit draw" where
  "least_draw lo hi r = (lo, r)"

lemma least_draw_range: "in_range least_draw"
  by (simp add: in_range_def least_draw_def)

lemma example_room: "\<exists>b. OrderBook_init token tick (2 ^ 14) = Some b \<and> 154 \<le> ob_order_mask b"
  by (simp add: OrderBook_init_def RoundUpPow2_def RoundUpPow2_loop.simps)

text \<open>On it the session of four steps ends with these live orders.\<close>

definition example_generated :: "unit session" where
  "example_generated = generate_mbo least_draw (\<lambda>r. (7, r)) 4 (MtbtGenerator_init 7 1000 5 ()) []"

theorem synthetic_session_followed_witness:
  "\<exists>b0 b. OrderBook_init 7 5 (2 ^ 14) = Some b0 \<and> apply_events (fst (snd example_generated)) b0 = Some b \<and> \<not> ob_stale b
     \<and> tracked b = book_of (snd (snd example_generated)) \<and> length (fst (snd example_generated)) = 30 \<and> length (snd (snd example_generated)) = 14"
proof -
  obtain g events live where s: "generate_mbo least_draw (\<lambda>r. (7, r)) 4 (MtbtGenerator_init 7 1000 5 ()) [] = (g, events, live)"
    by (cases "generate_mbo least_draw (\<lambda>r. (7, r)) 4 (MtbtGenerator_init 7 1000 5 ()) []")
  have e: "fst (snd example_generated) = events" "snd (snd example_generated) = live" by (simp_all add: example_generated_def s)
  have n: "length (fst (snd example_generated)) = 30" "length (snd (snd example_generated)) = 14" by code_simp+
  obtain b0 where "OrderBook_init 7 5 (2 ^ 14) = Some b0" "154 \<le> ob_order_mask b0" using example_room by blast
  then show ?thesis using synthetic_session_followed [OF least_draw_range _ _ _ s, of "2 ^ 14" b0] n unfolding e by auto
qed

end
