(* ===== verification/Tools.thy ===== *)
theory Tools
  imports Backtest Mtbt_Generator
begin

text \<open>
  The two research tools that run the backtest engine: \<^verbatim>\<open>tools/backtest.cpp\<close>, which compares three
  variants of the strategy on one data set, and \<^verbatim>\<open>tools/sweep.cpp\<close>, which searches a grid of skew
  parameters and writes \<^verbatim>\<open>sweep_results.csv\<close>. What they print to the terminal is not modelled.

  Every run of the engine reads the machine anew: \<open>RunEnv\<close> holds what one run reads.
\<close>

subsection \<open>The data set\<close>

definition kToken :: Token where "kToken = 2885"
definition kMid :: Price where "kMid = 1000000"
definition kTick :: Price where "kTick = 5"
definition kMaxInv :: nat where "kMaxInv = 4"
definition kMaxFlow :: nat where "kMaxFlow = 3"

record RunEnv =
  re_wall :: timespec
  re_clocks :: "nat \<Rightarrow> Clocks"
  re_orders :: "nat \<Rightarrow> Order"
  re_buffer :: "u8 list"

definition run_on :: "RunEnv \<Rightarrow> MarketEvent list \<Rightarrow> MarketMakingConfig \<Rightarrow> bool \<Rightarrow> FeeModel \<Rightarrow> BtResult option" where
  "run_on env events cfg metrics fees = run_backtest events cfg kToken kMid kTick metrics fees (re_wall env) (re_clocks env)
     (re_orders env) (re_buffer env)"

subsection \<open>Comparison\<close>

definition naive_config :: MarketMakingConfig where
  "naive_config = MarketMakingConfig_default\<lparr>mc_max_position_lots := 50\<rparr>"

definition smart_config :: MarketMakingConfig where
  "smart_config = naive_config\<lparr>mc_max_inv_skew_ticks := 2, mc_max_flow_skew_ticks := 1\<rparr>"

definition fees_les :: FeeModel where
  "fees_les = FeeModel_default\<lparr>fm_maker_rebate_bp100 := 250\<rparr>"

text \<open>\<open>main\<close> of the comparison: the naive run, the smart run with metrics, and the smart run with the rebate.\<close>

definition backtest_main :: "(nat \<Rightarrow> RunEnv) \<Rightarrow> bool \<Rightarrow> MarketEvent list \<Rightarrow> (BtResult \<times> BtResult \<times> BtResult) option" where
  "backtest_main env opens events =
     do { rn \<leftarrow> run_on (env 0) events naive_config False FeeModel_default;
          rs \<leftarrow> run_on (env 1) events smart_config opens FeeModel_default;
          rl \<leftarrow> run_on (env 2) events smart_config False fees_les;
          Some (rn, rs, rl) }"

subsection \<open>Grid search\<close>

definition sweep_config :: "nat \<Rightarrow> nat \<Rightarrow> MarketMakingConfig" where
  "sweep_config i j = MarketMakingConfig_default\<lparr>mc_max_position_lots := 50, mc_max_inv_skew_ticks := int i,
     mc_max_flow_skew_ticks := int j\<rparr>"

definition csv_header :: string where
  "csv_header = ''inv_skew_ticks,flow_skew_ticks,pnl_inr,fills,orders,position'' @ [CHR 0x0A]"

definition csv_line :: "nat \<Rightarrow> nat \<Rightarrow> BtResult \<Rightarrow> string" where
  "csv_line i j r = join CHR '','' [dec i, dec j, dec_int (br_pnl_inr r), dec (unat (br_fills r)),
     dec (unat (br_orders_sent r)), dec_int (br_position r)] @ [CHR 0x0A]"

record Sweep =
  sw_pnl :: "nat \<times> nat \<Rightarrow> int"
  sw_best_inv :: nat
  sw_best_flow :: nat
  sw_best_pnl :: int
  sw_csv :: "string option"

definition sweep_cell :: "(nat \<times> nat \<Rightarrow> BtResult option) \<Rightarrow> nat \<times> nat \<Rightarrow> Sweep \<Rightarrow> Sweep option" where
  "sweep_cell run c sw =
     do { r \<leftarrow> run c;
          let sw = sw\<lparr>sw_pnl := (sw_pnl sw)(c := br_pnl_inr r)\<rparr>;
          let sw = (if br_pnl_inr r > sw_best_pnl sw
                    then sw\<lparr>sw_best_pnl := br_pnl_inr r, sw_best_inv := fst c, sw_best_flow := snd c\<rparr> else sw);
          Some (case sw_csv sw of None \<Rightarrow> sw | Some text \<Rightarrow> sw\<lparr>sw_csv := Some (text @ csv_line (fst c) (snd c) r)\<rparr>) }"

fun sweep_cells :: "(nat \<times> nat \<Rightarrow> BtResult option) \<Rightarrow> (nat \<times> nat) list \<Rightarrow> Sweep \<Rightarrow> Sweep option" where
  "sweep_cells run [] sw = Some sw"
| "sweep_cells run (c # cs) sw = do { sw \<leftarrow> sweep_cell run c sw; sweep_cells run cs sw }"

text \<open>The order of the two nested loops.\<close>

definition sweep_grid :: "(nat \<times> nat) list" where
  "sweep_grid = [(i, j). i \<leftarrow> [0 ..< kMaxInv + 1], j \<leftarrow> [0 ..< kMaxFlow + 1]]"

definition sweep_main :: "(nat \<times> nat \<Rightarrow> RunEnv) \<Rightarrow> bool \<Rightarrow> (nat \<times> nat \<Rightarrow> int) \<Rightarrow> MarketEvent list \<Rightarrow> Sweep option" where
  "sweep_main env opens memory events =
     sweep_cells (\<lambda>c. run_on (env c) events (sweep_config (fst c) (snd c)) False FeeModel_default) sweep_grid
       \<lparr>sw_pnl = memory, sw_best_inv = 0, sw_best_flow = 0, sw_best_pnl = - (2 ^ 63), sw_csv = (if opens then Some csv_header else None)\<rparr>"

subsection \<open>The best cell\<close>

text \<open>What the search has after the cells \<open>cs\<close>: their results, the first of the best ones, and a line for each.\<close>

definition searched :: "(nat \<times> nat \<Rightarrow> BtResult) \<Rightarrow> (nat \<times> nat) list \<Rightarrow> Sweep \<Rightarrow> bool" where
  "searched result cs sw \<longleftrightarrow> (\<forall>c \<in> set cs. sw_pnl sw c = br_pnl_inr (result c) \<and> br_pnl_inr (result c) \<le> sw_best_pnl sw)
     \<and> (cs \<noteq> [] \<longrightarrow> (\<exists>xs ys. cs = xs @ (sw_best_inv sw, sw_best_flow sw) # ys \<and> br_pnl_inr (result (sw_best_inv sw, sw_best_flow sw)) = sw_best_pnl sw
          \<and> (\<forall>c \<in> set xs. br_pnl_inr (result c) < sw_best_pnl sw)))
     \<and> (\<forall>text. sw_csv sw = Some text \<longrightarrow> text = csv_header @ concat (map (\<lambda>c. csv_line (fst c) (snd c) (result c)) cs))"

lemma searched_step:
  assumes "searched result cs sw" "run c = Some (result c)" "c \<notin> set cs" "cs = [] \<longrightarrow> sw_best_pnl sw < br_pnl_inr (result c)"
  shows "\<exists>sw'. sweep_cell run c sw = Some sw' \<and> searched result (cs @ [c]) sw' \<and> (sw_csv sw' = None \<longleftrightarrow> sw_csv sw = None)"
proof -
  define sw1 where "sw1 = (if br_pnl_inr (result c) > sw_best_pnl sw
      then sw\<lparr>sw_pnl := (sw_pnl sw)(c := br_pnl_inr (result c)), sw_best_pnl := br_pnl_inr (result c), sw_best_inv := fst c, sw_best_flow := snd c\<rparr>
      else sw\<lparr>sw_pnl := (sw_pnl sw)(c := br_pnl_inr (result c))\<rparr>)"
  define sw2 where "sw2 = (case sw_csv sw of None \<Rightarrow> sw1 | Some text \<Rightarrow> sw1\<lparr>sw_csv := Some (text @ csv_line (fst c) (snd c) (result c))\<rparr>)"
  have run: "sweep_cell run c sw = Some sw2"
    using assms(2) by (simp add: sweep_cell_def sw2_def sw1_def Let_def split: option.split)
  have csv: "sw_csv sw2 = map_option (\<lambda>text. text @ csv_line (fst c) (snd c) (result c)) (sw_csv sw)"
    by (simp add: sw2_def sw1_def split: option.split)
  have f: "sw_pnl sw2 = sw_pnl sw1" "sw_best_pnl sw2 = sw_best_pnl sw1" "sw_best_inv sw2 = sw_best_inv sw1" "sw_best_flow sw2 = sw_best_flow sw1"
    by (simp_all add: sw2_def split: option.split)
  have pnl: "\<forall>d \<in> set (cs @ [c]). sw_pnl sw1 d = br_pnl_inr (result d) \<and> br_pnl_inr (result d) \<le> sw_best_pnl sw1"
    using assms(1,3) by (auto simp: searched_def sw1_def)
  have "\<exists>xs ys. cs @ [c] = xs @ (sw_best_inv sw1, sw_best_flow sw1) # ys \<and> br_pnl_inr (result (sw_best_inv sw1, sw_best_flow sw1)) = sw_best_pnl sw1
      \<and> (\<forall>c \<in> set xs. br_pnl_inr (result c) < sw_best_pnl sw1)"
  proof (cases "br_pnl_inr (result c) > sw_best_pnl sw")
    case True
    then have "\<forall>d \<in> set cs. br_pnl_inr (result d) < sw_best_pnl sw1" using assms(1) by (auto simp: searched_def sw1_def)
    then show ?thesis using True by (intro exI [of _ cs] exI [of _ "[]"]) (simp add: sw1_def)
  next
    case False
    then have "cs \<noteq> []" using assms(4) by auto
    with assms(1) obtain xs ys where "cs = xs @ (sw_best_inv sw, sw_best_flow sw) # ys"
        "br_pnl_inr (result (sw_best_inv sw, sw_best_flow sw)) = sw_best_pnl sw" "\<forall>c \<in> set xs. br_pnl_inr (result c) < sw_best_pnl sw"
      unfolding searched_def by blast
    then show ?thesis using False by (intro exI [of _ xs] exI [of _ "ys @ [c]"]) (simp add: sw1_def)
  qed
  then have "searched result (cs @ [c]) sw2" using pnl assms(1) by (auto simp: searched_def f csv)
  then show ?thesis using run csv by auto
qed

lemma searched_run:
  assumes "searched result cs sw" "\<forall>c \<in> set (cs @ ds). run c = Some (result c)" "distinct (cs @ ds)"
    and "cs = [] \<longrightarrow> (\<forall>c \<in> set ds. sw_best_pnl sw < br_pnl_inr (result c))"
  shows "\<exists>sw'. sweep_cells run ds sw = Some sw' \<and> searched result (cs @ ds) sw' \<and> (sw_csv sw' = None \<longleftrightarrow> sw_csv sw = None)"
  using assms
proof (induction ds arbitrary: cs sw)
  case (Cons d ds)
  obtain sw1 where 1: "sweep_cell run d sw = Some sw1" "searched result (cs @ [d]) sw1" "sw_csv sw1 = None \<longleftrightarrow> sw_csv sw = None"
    using searched_step [OF Cons.prems(1), of run d] Cons.prems(2-4) by auto
  from Cons.IH [OF 1(2)] Cons.prems(2,3) show ?case by (auto simp: 1)
qed simp

subsection \<open>Runs on a session\<close>

text \<open>Events on which every run of the engine returns: those the book of the token can digest.\<close>

lemma run_on_accounts:
  assumes "OrderBook_init kToken kTick (2 ^ 14) = Some b0" "apply_events (filter (\<lambda>ev. me_token ev = kToken) events) b0 = Some b"
    and "volumes_ok events" "length (re_buffer env) = kNnfMaxMsg" "mc_quote_lots cfg = 1" "rates_ok fees" "fm_maker_rebate_bp100 fees = 0"
  shows "\<exists>r. run_on env events cfg m fees = Some r \<and> 0 \<le> br_fees_inr r \<and> br_pnl_inr r \<le> br_gross_pnl_inr r"
proof -
  have "unat kToken < kMaxTokens" "0 < mc_quote_lots cfg" "mc_quote_lots cfg < 2 ^ 31" "0 < kMid"
    using assms(5) by (simp_all add: kToken_def kMaxTokens_def kMid_def)
  from bt_accounts [OF this(1) assms(4) this(2-4) assms(3,1,2) refl refl] show ?thesis
    unfolding run_on_def using fees_nonneg [OF assms(6,7)] net_below_gross by (metis (no_types, lifting))
qed

lemma run_on_returns:
  assumes "OrderBook_init kToken kTick (2 ^ 14) = Some b0" "apply_events (filter (\<lambda>ev. me_token ev = kToken) events) b0 = Some b"
    and "volumes_ok events" "length (re_buffer env) = kNnfMaxMsg" "mc_quote_lots cfg = 1"
  shows "\<exists>r. run_on env events cfg m fees = Some r"
proof -
  have "unat kToken < kMaxTokens" "0 < mc_quote_lots cfg" "mc_quote_lots cfg < 2 ^ 31" "0 < kMid"
    using assms(5) by (simp_all add: kToken_def kMaxTokens_def kMid_def)
  note p = this
  obtain bt0 where 0: "bt_start cfg kToken kMid kTick m (re_wall env) (re_orders env) (re_buffer env) = Some bt0"
      "bt_inv cfg (bt_symbols kToken kMid kTick) kToken fees bt0" "get_book kToken (pp_books (bt_pipe bt0)) = Some b0"
    using bt_start_inv [OF p(1) assms(4,1)] by blast
  from bt_loop_run [OF 0(2) assms(3) p(2-4,1) 0(3) assms(2)] show ?thesis
    unfolding run_on_def run_backtest_def bt_final_def 0(1) by (simp add: Let_def) blast
qed

lemma synthetic_book:
  assumes "in_range draw" "load_events draw raw seeded None kToken kMid kTick n = Some events"
  shows "\<exists>b0 b. OrderBook_init kToken kTick (2 ^ 14) = Some b0 \<and> apply_events (filter (\<lambda>ev. me_token ev = kToken) events) b0 = Some b
    \<and> volumes_ok events"
proof -
  obtain b0 where b0: "OrderBook_init kToken kTick (2 ^ 14) = Some b0" "154 < ob_order_mask b0 + 1" using example_room by fastforce
  have "kTick dvd kMid" by (simp add: kTick_def kMid_def)
  note s = synthetic_events [OF assms(1) this b0(2) assms(2)]
  then have "filter (\<lambda>ev. me_token ev = kToken) events = events" "volumes_ok events"
    by (auto simp: volumes_ok_def list_all_iff filter_id_conv)
  moreover obtain b where "apply_events events b0 = Some b"
    using apply_events_refine [OF init_wf(2) [OF b0(1)], of events] s(1) init_frame(1) [OF b0(1)] by auto
  ultimately show ?thesis using b0(1) by auto
qed

lemma searched_start:
  "sw_best_pnl sw = - (2 ^ 63) \<Longrightarrow> sw_csv sw \<in> {None, Some csv_header} \<Longrightarrow> searched result [] sw"
  by (auto simp: searched_def)

lemma grid_distinct: "distinct sweep_grid" "sweep_grid \<noteq> []"
  by (simp_all add: sweep_grid_def kMaxInv_def kMaxFlow_def upt_rec)

subsection \<open>Properties\<close>

text \<open>C30 The comparison on the default session completes. For every random engine that keeps its
  distributions in range, the three runs on the synthetic session return: no event makes the book,
  the strategy, the risk manager, the order manager or the encoder fail or loop; and without a
  rebate neither the naive nor the smart variant reports a net result above its gross result.\<close>

theorem synthetic_comparison_completes:
  assumes "in_range draw" "load_events draw raw seeded None kToken kMid kTick 200000 = Some events"
    and "\<forall>i. length (re_buffer (env i)) = kNnfMaxMsg"
  shows "\<exists>rn rs rl. backtest_main env opens events = Some (rn, rs, rl) \<and> br_pnl_inr rn \<le> br_gross_pnl_inr rn
     \<and> br_pnl_inr rs \<le> br_gross_pnl_inr rs"
proof -
  obtain b0 b where b: "OrderBook_init kToken kTick (2 ^ 14) = Some b0"
      "apply_events (filter (\<lambda>ev. me_token ev = kToken) events) b0 = Some b" "volumes_ok events"
    using synthetic_book [OF assms(1,2)] by blast
  have fees: "rates_ok FeeModel_default" "fm_maker_rebate_bp100 FeeModel_default = 0"
    by (rule rates_ok_presets) (simp add: FeeModel_default_def)
  have lots: "mc_quote_lots naive_config = 1" "mc_quote_lots smart_config = 1"
    by (simp_all add: naive_config_def smart_config_def MarketMakingConfig_default_def)
  obtain rn where rn: "run_on (env 0) events naive_config False FeeModel_default = Some rn" "br_pnl_inr rn \<le> br_gross_pnl_inr rn"
    using run_on_accounts [OF b assms(3) [rule_format] lots(1) fees] by blast
  obtain rs where rs: "run_on (env 1) events smart_config opens FeeModel_default = Some rs" "br_pnl_inr rs \<le> br_gross_pnl_inr rs"
    using run_on_accounts [OF b assms(3) [rule_format] lots(2) fees] by blast
  obtain rl where rl: "run_on (env 2) events smart_config False fees_les = Some rl"
    using run_on_returns [OF b assms(3) [rule_format] lots(2)] by blast
  show ?thesis using rn rs rl by (simp add: backtest_main_def)
qed

text \<open>The grid search reports the best cell. On every data set on which the runs of the grid return,
  with results that an \<open>int64_t\<close> can hold above its least value, the search returns, keeps the result
  of every cell, reports the greatest result with the first cell in scan order that reaches it, and,
  when the file could be opened, has written the header and one line per cell.\<close>

theorem sweep_reports_best:
  assumes "\<forall>c \<in> set sweep_grid. run_on (env c) events (sweep_config (fst c) (snd c)) False FeeModel_default = Some (result c)
      \<and> - (2 ^ 63) < br_pnl_inr (result c)"
  shows "\<exists>sw xs ys. sweep_main env opens memory events = Some sw
     \<and> (\<forall>c \<in> set sweep_grid. sw_pnl sw c = br_pnl_inr (result c) \<and> br_pnl_inr (result c) \<le> sw_best_pnl sw)
     \<and> sweep_grid = xs @ (sw_best_inv sw, sw_best_flow sw) # ys \<and> br_pnl_inr (result (sw_best_inv sw, sw_best_flow sw)) = sw_best_pnl sw
     \<and> (\<forall>c \<in> set xs. br_pnl_inr (result c) < sw_best_pnl sw)
     \<and> sw_csv sw = (if opens then Some (csv_header @ concat (map (\<lambda>c. csv_line (fst c) (snd c) (result c)) sweep_grid)) else None)"
proof -
  let ?sw = "\<lparr>sw_pnl = memory, sw_best_inv = 0, sw_best_flow = 0, sw_best_pnl = - (2 ^ 63), sw_csv = (if opens then Some csv_header else None)\<rparr>"
  have "searched result [] ?sw" by (rule searched_start) simp_all
  from searched_run [OF this, of sweep_grid "\<lambda>c. run_on (env c) events (sweep_config (fst c) (snd c)) False FeeModel_default"]
  obtain sw where sw: "sweep_main env opens memory events = Some sw" "searched result sweep_grid sw" "sw_csv sw = None \<longleftrightarrow> \<not> opens"
    using assms grid_distinct(1) unfolding sweep_main_def by (cases opens) auto
  then show ?thesis using grid_distinct(2) unfolding searched_def by (cases "sw_csv sw") force+
qed

subsection \<open>Examples\<close>

definition example_env :: RunEnv where
  "example_env = \<lparr>re_wall = (0, 0), re_clocks = (\<lambda>_. example_clocks), re_orders = (\<lambda>_. example_order), re_buffer = replicate kNnfMaxMsg 0\<rparr>"

lemma empty_run: "\<exists>r. run_on env [] cfg m fees = Some r \<and> br_pnl_inr r = 0"
proof -
  obtain b where "OrderBook_init kToken kTick (2 ^ 14) = Some b" using bt_book_starts by blast
  then have "\<exists>books. add_token kToken kTick (2 ^ 14) BookManager_init = Some (True, books)"
    by (simp add: add_token_def kToken_def kMaxTokens_def BookManager_init_def)
  then obtain books where a: "add_token kToken kTick (2 ^ 14) BookManager_init = Some (True, books)" by blast
  show ?thesis unfolding run_on_def run_backtest_def bt_final_def bt_start_def a by (simp add: Let_def) (simp add: bt_result_def Let_def)
qed

theorem synthetic_comparison_completes_witness:
  "\<exists>events rn rs rl. load_events least_draw (\<lambda>r. (7, r)) () None kToken kMid kTick 200000 = Some events
     \<and> backtest_main (\<lambda>_. example_env) True events = Some (rn, rs, rl) \<and> br_pnl_inr rs \<le> br_gross_pnl_inr rs"
proof -
  obtain events where e: "load_events least_draw (\<lambda>r. (7, r)) () None kToken kMid kTick 200000 = Some events"
    unfolding load_events_def option.case
    by (cases "generate_mbo least_draw (\<lambda>r. (7, r)) 200000 (MtbtGenerator_init kToken kMid kTick ()) []") (simp only: prod.case)
  have "\<forall>i :: nat. length (re_buffer example_env) = kNnfMaxMsg" by (simp add: example_env_def)
  from synthetic_comparison_completes [OF least_draw_range e this] show ?thesis using e by blast
qed

theorem sweep_reports_best_witness:
  "\<exists>sw result. sweep_main (\<lambda>_. example_env) True (\<lambda>_. 0) [] = Some sw \<and> sw_best_pnl sw = 0
     \<and> sw_csv sw = Some (csv_header @ concat (map (\<lambda>c. csv_line (fst c) (snd c) (result c)) sweep_grid))"
proof -
  define result where "result c = the (run_on example_env [] (sweep_config (fst c) (snd c)) False FeeModel_default)" for c
  have r: "run_on example_env [] (sweep_config (fst c) (snd c)) False FeeModel_default = Some (result c) \<and> br_pnl_inr (result c) = 0" for c
    using empty_run [of example_env "sweep_config (fst c) (snd c)" False FeeModel_default] by (auto simp: result_def)
  then have "\<forall>c \<in> set sweep_grid. run_on example_env [] (sweep_config (fst c) (snd c)) False FeeModel_default = Some (result c)
      \<and> - (2 ^ 63) < br_pnl_inr (result c)" by simp
  from sweep_reports_best [OF this, of True "\<lambda>_. 0"] show ?thesis using r by (metis (no_types, lifting))
qed

end
