(* ===== verification/Memory_Pool.thy ===== *)
theory Memory_Pool
  imports Prelude
begin

text \<open>
  The fixed-size object pool of \<^verbatim>\<open>src/common/memory_pool.hpp\<close>.

  The storage is an explicit store from slot numbers to the two members of the \<open>Slot\<close> union:
  a slot holds a live object or the free-list link. Reading the link of a slot that holds an
  object is undefined in C++ and is the result \<open>None\<close> of the model, so that the safety of the
  pool is that \<open>None\<close> never occurs. The free list is described by \<open>chain\<close>, the list of
  the slots met from the head; \<open>pool_inv\<close> says that it consists of exactly the slots no client
  holds. The steps of a client that frees only what it holds are \<open>pool_step\<close>.
\<close>

subsection \<open>State and operations\<close>

text \<open>Pointers into the storage are slot numbers, the null pointer is \<open>None\<close>.\<close>

datatype 'a Slot = Link "nat option" | Object 'a

record 'a MemoryPool =
  pool_capacity :: u64
  pool_storage :: "nat \<Rightarrow> 'a Slot"
  pool_free_head :: "nat option"
  pool_free_count :: u64
  pool_exhaustion_count :: u64

text \<open>The constructor threads the slots onto the free list, in the order of the storage.\<close>

definition thread_slot :: "nat \<Rightarrow> 'a MemoryPool \<Rightarrow> 'a MemoryPool" where
  "thread_slot i p = p\<lparr>pool_storage := (pool_storage p)(i := Link (pool_free_head p)), pool_free_head := Some i\<rparr>"

definition MemoryPool_init :: "u64 \<Rightarrow> (nat \<Rightarrow> 'a Slot) \<Rightarrow> 'a MemoryPool" where
  "MemoryPool_init capacity raw =
     fold thread_slot [0..<unat capacity]
       \<lparr>pool_capacity = capacity, pool_storage = raw, pool_free_head = None, pool_free_count = capacity,
        pool_exhaustion_count = 0\<rparr>"

definition allocate :: "'a \<Rightarrow> 'a MemoryPool \<Rightarrow> (nat option \<times> 'a MemoryPool) option" where
  "allocate v p =
     (case pool_free_head p of
        None \<Rightarrow> Some (None, p\<lparr>pool_exhaustion_count := pool_exhaustion_count p + 1\<rparr>)
      | Some a \<Rightarrow>
          (case pool_storage p a of
             Object _ \<Rightarrow> None
           | Link nxt \<Rightarrow> Some (Some a, p\<lparr>pool_free_head := nxt, pool_free_count := pool_free_count p - 1,
                                       pool_storage := (pool_storage p)(a := Object v)\<rparr>)))"

definition deallocate :: "nat option \<Rightarrow> 'a MemoryPool \<Rightarrow> 'a MemoryPool" where
  "deallocate ptr p =
     (case ptr of
        None \<Rightarrow> p
      | Some a \<Rightarrow> p\<lparr>pool_storage := (pool_storage p)(a := Link (pool_free_head p)),
                     pool_free_head := Some a, pool_free_count := pool_free_count p + 1\<rparr>)"

definition available :: "'a MemoryPool \<Rightarrow> u64" where
  "available p = pool_free_count p"

definition in_use :: "'a MemoryPool \<Rightarrow> u64" where
  "in_use p = pool_capacity p - pool_free_count p"

subsection \<open>A client\<close>

text \<open>
  The client's view is the map from the pointers it holds to the objects behind them. It
  allocates, writes through a pointer it holds, and frees a pointer it holds (or null).
\<close>

inductive pool_step :: "'a MemoryPool \<times> (nat \<rightharpoonup> 'a) \<Rightarrow> 'a MemoryPool \<times> (nat \<rightharpoonup> 'a) \<Rightarrow> bool" where
  alloc_ok: "allocate v p = Some (Some a, p') \<Longrightarrow> pool_step (p, live) (p', live(a \<mapsto> v))"
| alloc_null: "allocate v p = Some (None, p') \<Longrightarrow> pool_step (p, live) (p', live)"
| store_object: "a \<in> dom live \<Longrightarrow>
    pool_step (p, live) (p\<lparr>pool_storage := (pool_storage p)(a := Object v)\<rparr>, live(a \<mapsto> v))"
| free_held: "a \<in> dom live \<Longrightarrow> pool_step (p, live) (deallocate (Some a) p, live(a := None))"
| free_null: "pool_step (p, live) (deallocate None p, live)"

definition pool_start :: "u64 \<Rightarrow> (nat \<Rightarrow> 'a Slot) \<Rightarrow> 'a MemoryPool \<times> (nat \<rightharpoonup> 'a) \<Rightarrow> bool" where
  "pool_start capacity raw s \<longleftrightarrow> s = (MemoryPool_init capacity raw, Map.empty)"

subsection \<open>The free list\<close>

fun chain :: "(nat \<Rightarrow> 'a Slot) \<Rightarrow> nat option \<Rightarrow> nat list \<Rightarrow> bool" where
  "chain st ptr [] = (ptr = None)"
| "chain st ptr (a # as) = (ptr = Some a \<and> (case st a of Link nxt \<Rightarrow> chain st nxt as | Object _ \<Rightarrow> False))"

lemma chain_frame: "a \<notin> set as \<Longrightarrow> chain (st(a := s)) ptr as = chain st ptr as"
  by (induction as arbitrary: ptr) (auto split: Slot.split)

lemma chain_link: "a \<notin> set as \<Longrightarrow> chain st ptr as \<Longrightarrow> chain (st(a := Link ptr)) (Some a) (a # as)"
  by (simp add: chain_frame)

lemma chain_None: "chain st None as \<longleftrightarrow> as = []"
  by (cases as) auto

lemma chain_Some: "chain st (Some a) as \<longleftrightarrow> (\<exists>nxt bs. as = a # bs \<and> st a = Link nxt \<and> chain st nxt bs)"
  by (cases as) (auto split: Slot.split)

text \<open>The list \<open>free\<close> is the free list and holds exactly the slots the client does not hold.\<close>

definition free_ok :: "u64 \<Rightarrow> 'a MemoryPool \<Rightarrow> (nat \<rightharpoonup> 'a) \<Rightarrow> nat list \<Rightarrow> bool" where
  "free_ok capacity p live free \<longleftrightarrow>
     pool_capacity p = capacity \<and> dom live \<subseteq> {..<unat capacity} \<and>
     (\<forall>a v. live a = Some v \<longrightarrow> pool_storage p a = Object v) \<and>
     chain (pool_storage p) (pool_free_head p) free \<and> distinct free \<and>
     set free = {..<unat capacity} - dom live \<and> unat (pool_free_count p) = length free"

definition pool_inv :: "u64 \<Rightarrow> 'a MemoryPool \<times> (nat \<rightharpoonup> 'a) \<Rightarrow> bool" where
  "pool_inv capacity = (\<lambda>(p, live). \<exists>free. free_ok capacity p live free)"

lemma free_okD:
  assumes "free_ok capacity p live free"
  shows "pool_capacity p = capacity" "dom live \<subseteq> {..<unat capacity}"
    "live a = Some v \<Longrightarrow> pool_storage p a = Object v"
    "chain (pool_storage p) (pool_free_head p) free" "distinct free"
    "set free = {..<unat capacity} - dom live" "unat (pool_free_count p) = length free"
  using assms by (auto simp: free_ok_def)

lemma free_length:
  assumes "distinct free" "set free = {..<n} - dom live" "dom live \<subseteq> {..<n}"
  shows "length free = n - card (dom live)"
  using assms by (metis card_Diff_subset card_lessThan distinct_card finite_lessThan finite_subset)

lemma threaded:
  assumes "chain (pool_storage p) (pool_free_head p) (rev [0..<m])"
  shows "\<exists>h st. fold thread_slot [m..<m + n] p = p\<lparr>pool_storage := st, pool_free_head := h\<rparr> \<and>
    chain st h (rev [0..<m + n])"
  using assms
proof (induction n)
  case 0
  then show ?case by (intro exI [of _ "pool_free_head p"] exI [of _ "pool_storage p"]) simp
next
  case (Suc n)
  then obtain h st where "fold thread_slot [m..<m + n] p = p\<lparr>pool_storage := st, pool_free_head := h\<rparr>"
    "chain st h (rev [0..<m + n])" by blast
  then have "fold thread_slot [m..<m + Suc n] p =
      p\<lparr>pool_storage := st(m + n := Link h), pool_free_head := Some (m + n)\<rparr>"
    "chain (st(m + n := Link h)) (Some (m + n)) (rev [0..<m + Suc n])"
    by (simp_all add: thread_slot_def chain_frame)
  then show ?case by blast
qed

lemma pool_start_inv: "pool_start capacity raw s \<Longrightarrow> pool_inv capacity s"
proof -
  assume s: "pool_start capacity raw s"
  obtain h st where "MemoryPool_init capacity raw =
      \<lparr>pool_capacity = capacity, pool_storage = st, pool_free_head = h, pool_free_count = capacity,
       pool_exhaustion_count = 0\<rparr>" "chain st h (rev [0..<unat capacity])"
    using threaded [of "\<lparr>pool_capacity = capacity, pool_storage = raw, pool_free_head = None,
        pool_free_count = capacity, pool_exhaustion_count = 0\<rparr>" 0 "unat capacity"]
    by (auto simp: MemoryPool_init_def)
  then show ?thesis
    using s by (auto simp: pool_start_def pool_inv_def free_ok_def intro!: exI [of _ "rev [0..<unat capacity]"])
qed

text \<open>Allocation takes the head of the free list, or reports exhaustion when it is empty.\<close>

lemma allocate_inv:
  assumes "pool_inv capacity (p, live)"
  shows "\<exists>r p'. allocate v p = Some (r, p') \<and>
    (case r of None \<Rightarrow> card (dom live) = unat capacity \<and> pool_inv capacity (p', live)
     | Some a \<Rightarrow> a < unat capacity \<and> a \<notin> dom live \<and> card (dom live) < unat capacity \<and>
         pool_inv capacity (p', live(a \<mapsto> v)))"
proof -
  from assms obtain free where ok: "free_ok capacity p live free" by (auto simp: pool_inv_def)
  note f = free_okD [OF ok]
  have n: "length free = unat capacity - card (dom live)" using f(2,5,6) by (intro free_length)
  have c: "card (dom live) \<le> unat capacity" using card_mono [OF _ f(2)] by simp
  show ?thesis
  proof (cases "pool_free_head p")
    case None
    with f(4) have "free = []" by (simp add: chain_None)
    with None n c assms show ?thesis by (simp add: allocate_def pool_inv_def free_ok_def)
  next
    case (Some a)
    with f(4) obtain nxt bs where a: "free = a # bs" "pool_storage p a = Link nxt"
      "chain (pool_storage p) nxt bs" by (auto simp: chain_Some)
    then have fresh: "a < unat capacity" "a \<notin> dom live" "a \<notin> set bs" using f(5,6) by auto
    have count: "unat (pool_free_count p - 1) = length bs"
      using f(7) a(1) by (metis One_nat_def diff_Suc_1 length_Cons unat_minus_one unat_0 nat.distinct(1))
    let ?p = "p\<lparr>pool_free_head := nxt, pool_free_count := pool_free_count p - 1,
        pool_storage := (pool_storage p)(a := Object v)\<rparr>"
    have "set bs = {..<unat capacity} - dom (live(a \<mapsto> v))" using f(5,6) a(1) by auto
    then have "pool_inv capacity (?p, live(a \<mapsto> v))"
      using ok a fresh count by (auto simp: pool_inv_def free_ok_def chain_frame intro!: exI [of _ bs])
    moreover have "allocate v p = Some (Some a, ?p)" using Some a by (simp add: allocate_def)
    moreover have "card (dom live) < unat capacity" using n a(1) by simp
    ultimately show ?thesis using fresh by auto
  qed
qed

lemma free_inv:
  assumes "pool_inv capacity (p, live)" "a \<in> dom live"
  shows "pool_inv capacity (deallocate (Some a) p, live(a := None))"
proof -
  from assms(1) obtain free where ok: "free_ok capacity p live free" by (auto simp: pool_inv_def)
  note f = free_okD [OF ok]
  have a: "a \<notin> set free" "a < unat capacity" using f(2,6) assms(2) by auto
  have "card (set (a # free)) \<le> card {..<unat capacity}"
    using f(6) a by (intro card_mono) auto
  then have "length (a # free) \<le> unat capacity" using f(5) a(1) distinct_card [of free] by simp
  moreover have "unat capacity < 2 ^ 64" using unsigned_less [of capacity] by simp
  ultimately have count: "unat (pool_free_count p + 1) = length (a # free)"
    using f(7) by (simp add: unat_word_ariths)
  have "set (a # free) = {..<unat capacity} - dom (live(a := None))" using f(6) a assms(2) by auto
  with ok a count show ?thesis
    by (auto simp: pool_inv_def free_ok_def deallocate_def chain_frame split: if_splits intro!: exI [of _ "a # free"])
qed

lemma store_inv:
  assumes "pool_inv capacity (p, live)" "a \<in> dom live"
  shows "pool_inv capacity (p\<lparr>pool_storage := (pool_storage p)(a := Object v)\<rparr>, live(a \<mapsto> v))"
proof -
  from assms(1) obtain free where ok: "free_ok capacity p live free" by (auto simp: pool_inv_def)
  note f = free_okD [OF ok]
  have "a \<notin> set free" using f(6) assms(2) by auto
  with ok assms(2) show ?thesis
    by (auto simp: pool_inv_def free_ok_def chain_frame intro!: exI [of _ free])
qed

lemma pool_step_inv: "pool_inv capacity s \<Longrightarrow> pool_step s t \<Longrightarrow> pool_inv capacity t"
proof (erule pool_step.cases, goal_cases)
  case (1 v p a p' live)
  then show ?case using allocate_inv [of capacity p live v] by simp
next
  case (2 v p p' live)
  then show ?case using allocate_inv [of capacity p live v] by simp
qed (auto simp: free_inv store_inv deallocate_def [of None])

interpretation pool: invariant_system "pool_start capacity raw" pool_step "pool_inv capacity" for capacity raw
  by unfold_locales (auto simp: pool_start_inv pool_step_inv)

subsection \<open>Safety of the pool\<close>

text \<open>C31: Whatever a client that frees only pointers it holds has done, every object it holds lies in a slot
  of the storage and is intact; \<open>available\<close> and \<open>in_use\<close> are exact; and the next allocation is
  well defined, returns null only when all slots are held, and otherwise returns a slot that nobody holds.\<close>

theorem pool_never_aliases:
  assumes "reach (pool_start capacity raw) pool_step (p, live)"
  shows "(\<forall>a v. live a = Some v \<longrightarrow> a < unat capacity \<and> pool_storage p a = Object v) \<and>
    unat (in_use p) = card (dom live) \<and> unat (available p) = unat capacity - card (dom live) \<and>
    (\<exists>r p'. allocate v p = Some (r, p') \<and> (r = None \<longleftrightarrow> card (dom live) = unat capacity) \<and>
      (\<forall>a. r = Some a \<longrightarrow> a < unat capacity \<and> a \<notin> dom live))"
proof -
  have i: "pool_inv capacity (p, live)" using assms by (rule pool.reach_inv)
  then obtain free where ok: "free_ok capacity p live free" by (auto simp: pool_inv_def)
  note f = free_okD [OF ok]
  have n: "length free = unat capacity - card (dom live)" using f(2,5,6) by (intro free_length)
  have c: "card (dom live) \<le> unat capacity" using card_mono [OF _ f(2)] by simp
  have "unat (capacity - pool_free_count p) = unat capacity - unat (pool_free_count p)"
    using f(7) n by (intro unat_sub) (simp add: word_le_nat_alt)
  moreover obtain r p' where "allocate v p = Some (r, p')"
    "case r of None \<Rightarrow> card (dom live) = unat capacity \<and> pool_inv capacity (p', live)
     | Some a \<Rightarrow> a < unat capacity \<and> a \<notin> dom live \<and> card (dom live) < unat capacity \<and>
         pool_inv capacity (p', live(a \<mapsto> v))"
    using allocate_inv [OF i] by blast
  then have "\<exists>r p'. allocate v p = Some (r, p') \<and> (r = None \<longleftrightarrow> card (dom live) = unat capacity) \<and>
      (\<forall>a. r = Some a \<longrightarrow> a < unat capacity \<and> a \<notin> dom live)"
    by (cases r) auto
  ultimately show ?thesis using f n c by (auto simp: in_use_def available_def)
qed

definition example_pool :: "nat MemoryPool" where
  "example_pool = MemoryPool_init 2 (\<lambda>_. Link None)"

lemma example_pool_alloc: "allocate 7 example_pool =
    Some (Some 1, example_pool\<lparr>pool_free_head := Some 0, pool_free_count := 1,
      pool_storage := (pool_storage example_pool)(1 := Object 7)\<rparr>)"
  by (simp add: example_pool_def MemoryPool_init_def thread_slot_def allocate_def upt_conv_Cons)

lemma example_pool_reach: "reach (pool_start 2 (\<lambda>_. Link None)) pool_step
    (example_pool\<lparr>pool_free_head := Some 0, pool_free_count := 1,
      pool_storage := (pool_storage example_pool)(1 := Object 7)\<rparr>, [1 \<mapsto> 7])"
  using reach_step [OF reach_init [of "pool_start 2 (\<lambda>_. Link None)" "(example_pool, Map.empty)" pool_step]
      alloc_ok [OF example_pool_alloc, of Map.empty]]
  by (simp add: pool_start_def example_pool_def)

theorem pool_never_aliases_witness:
  "\<exists>r p'. allocate 9 (example_pool\<lparr>pool_free_head := Some 0, pool_free_count := 1,
      pool_storage := (pool_storage example_pool)(1 := Object 7)\<rparr>) = Some (r, p') \<and> r = Some 0"
  using pool_never_aliases [OF example_pool_reach, of 9] by (fastforce simp: less_2_cases_iff)

end
