(* ===== verification/Market_Data_Gateway.thy ===== *)
theory Market_Data_Gateway
  imports Feed_Handler Ring_Buffer
begin

text \<open>
  The market-data gateway of \<^verbatim>\<open>src/gateway/market_data_gateway.hpp\<close> over the sockets of
  \<^verbatim>\<open>src/gateway/udp_socket.hpp\<close>.

  The operating system is a parameter: a socket carries the datagrams the kernel holds for it,
  oldest first, and \<open>recv_batch\<close> takes them from there as \<open>recvmmsg\<close> does, at most \<open>count\<close> of
  them and each cut to the buffer's size; the results of the calls that open a socket are
  arguments of the operations that make them. Socket options that only tune the kernel have no
  effect on the values and are left out.

  The events the feed handler emits go to the ring buffer one by one, and the ones it refuses are
  counted: the interface \<open>bounded_queue\<close> gives what the queue then holds.
\<close>

subsection \<open>Sockets\<close>

record UdpSocket =
  us_fd :: int
  us_kernel :: "u8 list list"

definition UdpSocket_default :: UdpSocket where
  "UdpSocket_default = \<lparr>us_fd = -1, us_kernel = []\<rparr>"

definition UdpSocket_valid :: "UdpSocket \<Rightarrow> bool" where
  "UdpSocket_valid s \<longleftrightarrow> us_fd s \<ge> 0"

definition UdpSocket_close :: "UdpSocket \<Rightarrow> UdpSocket" where
  "UdpSocket_close s = (if us_fd s \<ge> 0 then s\<lparr>us_fd := -1, us_kernel := []\<rparr> else s)"

text \<open>The results of \<open>socket\<close> and \<open>bind\<close> are arguments.\<close>

definition bind_rx :: "int \<Rightarrow> int \<Rightarrow> UdpSocket \<Rightarrow> bool \<times> UdpSocket" where
  "bind_rx socket_result bind_result s =
     (let s = s\<lparr>us_fd := socket_result\<rparr>
      in if us_fd s < 0 then (False, s)
         else if bind_result \<noteq> 0 then (False, UdpSocket_close s)
         else (True, s))"

definition join_multicast :: "int \<Rightarrow> UdpSocket \<Rightarrow> bool" where
  "join_multicast setsockopt_result s = (if us_fd s < 0 then False else setsockopt_result = 0)"

definition recv_batch :: "nat \<Rightarrow> nat \<Rightarrow> UdpSocket \<Rightarrow> u8 list list \<times> UdpSocket" where
  "recv_batch cap n s =
     (let kMax = 32; n = (if n > kMax then kMax else n)
      in (map (take cap) (take n (us_kernel s)), s\<lparr>us_kernel := drop n (us_kernel s)\<rparr>))"

subsection \<open>Gateway\<close>

definition kEventCapacity :: u64 where "kEventCapacity = 2 ^ 16"

definition kBatch :: nat where "kBatch = 32"

definition kPktCap :: nat where "kPktCap = 2048"

record StreamConfig =
  sc_source1_group :: string
  sc_source2_group :: string
  sc_port :: u16
  sc_stream_id :: u16

record Subscription =
  sub_cfg :: StreamConfig
  sub_s1 :: UdpSocket
  sub_s2 :: UdpSocket

record MarketDataGateway =
  gw_feed :: FeedHandler
  gw_out :: "MarketEvent RingBuffer"
  gw_subs :: "Subscription list"
  gw_dropped :: u64

text \<open>What the system answers while one source is opened: \<open>socket\<close>, \<open>bind\<close>, the group membership.\<close>

type_synonym opened = "int \<times> int \<times> int"

definition open_source :: "opened \<Rightarrow> UdpSocket option" where
  "open_source = (\<lambda>(fd, bound, joined).
     case bind_rx fd bound UdpSocket_default of (ok, s) \<Rightarrow>
       if \<not> ok \<or> \<not> join_multicast joined s then None else Some s)"

definition subscribe :: "StreamConfig \<Rightarrow> opened \<Rightarrow> opened \<Rightarrow> MarketDataGateway \<Rightarrow> bool \<times> MarketDataGateway" where
  "subscribe cfg os1 os2 gw =
     (case open_source os1 of
        None \<Rightarrow> (False, gw)
      | Some s1 \<Rightarrow>
          (case open_source os2 of
             None \<Rightarrow> (False, gw)
           | Some s2 \<Rightarrow> (True, gw\<lparr>gw_subs := gw_subs gw @ [\<lparr>sub_cfg = cfg, sub_s1 = s1, sub_s2 = s2\<rparr>]\<rparr>)))"

text \<open>The packets of one batch go through the feed handler in turn; its callback pushes.\<close>

fun drain_packets :: "FeedSource \<Rightarrow> u8 list list \<Rightarrow> MarketDataGateway \<Rightarrow> (nat \<times> MarketDataGateway) option" where
  "drain_packets source [] gw = Some (0, gw)"
| "drain_packets source (pkt # pkts) gw = do {
     (evs, feed) \<leftarrow> on_packet source pkt (gw_feed gw);
     let (out, dropped) = push_each (RingBuffer_push kEventCapacity) evs (gw_out gw, gw_dropped gw);
     (pushed, gw) \<leftarrow> drain_packets source pkts (gw\<lparr>gw_feed := feed, gw_out := out, gw_dropped := dropped\<rparr>);
     Some (length evs + pushed, gw)
   }"

definition DrainSource :: "UdpSocket \<Rightarrow> FeedSource \<Rightarrow> MarketDataGateway \<Rightarrow> (nat \<times> UdpSocket \<times> MarketDataGateway) option" where
  "DrainSource sock source gw =
     (if \<not> UdpSocket_valid sock then Some (0, sock, gw)
      else let (pkts, sock) = recv_batch kPktCap kBatch sock
           in do { (pushed, gw) \<leftarrow> drain_packets source pkts gw; Some (pushed, sock, gw) })"

fun poll_subs :: "Subscription list \<Rightarrow> MarketDataGateway \<Rightarrow> (nat \<times> Subscription list \<times> MarketDataGateway) option" where
  "poll_subs [] gw = Some (0, [], gw)"
| "poll_subs (sub # subs) gw = do {
     (n1, s1, gw) \<leftarrow> DrainSource (sub_s1 sub) kPrimary gw;
     (n2, s2, gw) \<leftarrow> DrainSource (sub_s2 sub) kSecondary gw;
     (n, subs, gw) \<leftarrow> poll_subs subs gw;
     Some (n1 + n2 + n, sub\<lparr>sub_s1 := s1, sub_s2 := s2\<rparr> # subs, gw)
   }"

definition poll_once :: "MarketDataGateway \<Rightarrow> (nat \<times> MarketDataGateway) option" where
  "poll_once gw = do {
     (pushed, subs, gw) \<leftarrow> poll_subs (gw_subs gw) gw;
     Some (pushed, gw\<lparr>gw_subs := subs\<rparr>)
   }"

text \<open>The spin loop, for the number of passes it makes until it sees the stop flag.\<close>

fun gateway_run :: "nat \<Rightarrow> MarketDataGateway \<Rightarrow> MarketDataGateway option" where
  "gateway_run 0 gw = Some gw"
| "gateway_run (Suc n) gw = do { (pushed, gw) \<leftarrow> poll_once gw; gateway_run n gw }"

subsection \<open>What one pass hands to the feed handler\<close>

definition polled_from :: "UdpSocket \<Rightarrow> FeedSource \<Rightarrow> (FeedSource \<times> u8 list) list" where
  "polled_from s source = (if UdpSocket_valid s then map (\<lambda>d. (source, take kPktCap d)) (take kBatch (us_kernel s)) else [])"

definition polled :: "Subscription list \<Rightarrow> (FeedSource \<times> u8 list) list" where
  "polled subs = concat (map (\<lambda>sub. polled_from (sub_s1 sub) kPrimary @ polled_from (sub_s2 sub) kSecondary) subs)"

definition socket_rest :: "UdpSocket \<Rightarrow> UdpSocket" where
  "socket_rest s = (if UdpSocket_valid s then s\<lparr>us_kernel := drop kBatch (us_kernel s)\<rparr> else s)"

definition rest_of :: "Subscription \<Rightarrow> Subscription" where
  "rest_of sub = sub\<lparr>sub_s1 := socket_rest (sub_s1 sub), sub_s2 := socket_rest (sub_s2 sub)\<rparr>"

text \<open>The gateway after the events \<open>evs\<close> went to the queue.\<close>

definition emitted :: "MarketEvent list \<Rightarrow> FeedHandler \<Rightarrow> MarketDataGateway \<Rightarrow> MarketDataGateway" where
  "emitted evs feed gw =
     (case push_each (RingBuffer_push kEventCapacity) evs (gw_out gw, gw_dropped gw) of (out, dropped) \<Rightarrow>
        gw\<lparr>gw_feed := feed, gw_out := out, gw_dropped := dropped\<rparr>)"

lemma push_each_append: "push_each f (xs @ ys) s = push_each f ys (push_each f xs s)"
  by (induction f xs s rule: push_each.induct) (simp_all split: prod.split)

lemma emitted_append: "emitted ys feed' (emitted xs feed gw) = emitted (xs @ ys) feed' gw"
  by (simp add: emitted_def push_each_append split_beta)

lemma emitted_fields [simp]: "gw_feed (emitted evs feed gw) = feed" "gw_subs (emitted evs feed gw) = gw_subs gw"
  by (simp_all add: emitted_def split_beta)

lemma emitted_Nil [simp]: "emitted [] (gw_feed gw) gw = gw"
  by (simp add: emitted_def)

lemma on_packets_append: "on_packets (ps @ qs) fh = do {
    (evs, fh) \<leftarrow> on_packets ps fh; (evs', fh) \<leftarrow> on_packets qs fh; Some (evs @ evs', fh) }"
proof (induction ps arbitrary: fh)
  case Nil
  then show ?case by (cases "on_packets qs fh") auto
next
  case (Cons p ps)
  then show ?case by (cases p; cases "on_packet (fst p) (snd p) fh") (auto simp: split_beta bind_assoc)
qed

lemma drain_packets_eq:
  "drain_packets source pkts gw = do {
     (evs, feed) \<leftarrow> on_packets (map (Pair source) pkts) (gw_feed gw); Some (length evs, emitted evs feed gw) }"
proof (induction pkts arbitrary: gw)
  case (Cons pkt pkts)
  show ?case
  proof (cases "on_packet source pkt (gw_feed gw)")
    case (Some r)
    obtain evs feed where r: "r = (evs, feed)" by (cases r)
    have "drain_packets source (pkt # pkts) gw =
        do { (pushed, gw) \<leftarrow> drain_packets source pkts (emitted evs feed gw); Some (length evs + pushed, gw) }"
      using Some r by (simp add: emitted_def split_beta)
    then show ?thesis
      using Some r by (cases "on_packets (map (Pair source) pkts) feed") (auto simp: Cons.IH emitted_append)
  qed simp
qed simp

lemma DrainSource_eq:
  "DrainSource s source gw = do {
     (evs, feed) \<leftarrow> on_packets (polled_from s source) (gw_feed gw); Some (length evs, socket_rest s, emitted evs feed gw) }"
  by (cases "UdpSocket_valid s"; cases "on_packets (polled_from s source) (gw_feed gw)")
     (auto simp: DrainSource_def polled_from_def socket_rest_def recv_batch_def kBatch_def drain_packets_eq comp_def)

lemma poll_subs_eq:
  "poll_subs subs gw = do {
     (evs, feed) \<leftarrow> on_packets (polled subs) (gw_feed gw); Some (length evs, map rest_of subs, emitted evs feed gw) }"
proof (induction subs arbitrary: gw)
  case Nil
  then show ?case by (simp add: polled_def)
next
  case (Cons sub subs)
  let ?p1 = "polled_from (sub_s1 sub) kPrimary" and ?p2 = "polled_from (sub_s2 sub) kSecondary"
  have p: "polled (sub # subs) = ?p1 @ ?p2 @ polled subs" by (simp add: polled_def)
  show ?case
  proof (cases "on_packets ?p1 (gw_feed gw)")
    case 1: (Some r1)
    show ?thesis
    proof (cases "on_packets ?p2 (snd r1)")
      case 2: (Some r2)
      show ?thesis
        by (cases "on_packets (polled subs) (snd r2)")
           (auto simp: p 1 2 on_packets_append DrainSource_eq split_beta Cons.IH emitted_append rest_of_def)
    qed (auto simp: p 1 on_packets_append DrainSource_eq split_beta)
  qed (auto simp: p on_packets_append DrainSource_eq)
qed

lemma poll_once_eq:
  "poll_once gw = do {
     (evs, feed) \<leftarrow> on_packets (polled (gw_subs gw)) (gw_feed gw);
     Some (length evs, (emitted evs feed gw)\<lparr>gw_subs := map rest_of (gw_subs gw)\<rparr>) }"
  by (cases "on_packets (polled (gw_subs gw)) (gw_feed gw)") (auto simp: poll_once_def poll_subs_eq)

text \<open>What the queue then holds, from the laws of the bounded queue.\<close>

lemma emitted_queue:
  assumes "rb_inv kEventCapacity (gw_out gw)"
  shows "rb_inv kEventCapacity (gw_out (emitted evs feed gw))"
    and "rb_contents kEventCapacity (gw_out (emitted evs feed gw)) = rb_contents kEventCapacity (gw_out gw) @
      take (65536 - length (rb_contents kEventCapacity (gw_out gw))) evs"
    and "gw_dropped (emitted evs feed gw) = gw_dropped gw +
      of_nat (length evs - (65536 - length (rb_contents kEventCapacity (gw_out gw))))"
proof -
  have cap: "unat kEventCapacity = 65536" by (simp add: kEventCapacity_def)
  obtain q d where q: "push_each (RingBuffer_push kEventCapacity) evs (gw_out gw, gw_dropped gw) = (q, d)" by fastforce
  show "rb_inv kEventCapacity (gw_out (emitted evs feed gw))"
    "rb_contents kEventCapacity (gw_out (emitted evs feed gw)) = rb_contents kEventCapacity (gw_out gw) @
      take (65536 - length (rb_contents kEventCapacity (gw_out gw))) evs"
    "gw_dropped (emitted evs feed gw) = gw_dropped gw +
      of_nat (length evs - (65536 - length (rb_contents kEventCapacity (gw_out gw))))"
    using rbq.push_each_contents [OF assms, of evs "gw_dropped gw"] rbq.push_each_dropped [OF assms, of evs "gw_dropped gw"]
    by (simp_all add: emitted_def q cap)
qed

subsection \<open>A packet ahead of the stream\<close>





subsection \<open>Properties\<close>

text \<open>C32: One pass of the gateway delivers each message once. When the datagrams waiting at the sockets
  are copies of the packets of a gapless stream in which no packet is first seen before the one that
  precedes it, the pass reads them, queues behind what the queue held exactly the events of
  the packets not seen before, in stream order and as far as the queue has room, counts the rest as
  dropped, and returns the number of events the feed handler emitted, dropped ones included.\<close>

theorem poll_delivers_once:
  assumes "gapless sid start ps" and "arrival_ok (length ps) as m" and "m \<le> length ps"
    and "stream_at sid start ps m (gw_feed gw)" and "rb_inv kEventCapacity (gw_out gw)"
    and "polled (gw_subs gw) = map (\<lambda>(src, k). (src, fst (ps ! k))) as"
  shows "let evs = concat (map snd (drop m (take (arrived as m) ps)));
             room = 65536 - length (rb_contents kEventCapacity (gw_out gw))
    in \<exists>gw'. poll_once gw = Some (length evs, gw') \<and>
      rb_contents kEventCapacity (gw_out gw') = rb_contents kEventCapacity (gw_out gw) @ take room evs \<and>
      gw_dropped gw' = gw_dropped gw + of_nat (length evs - room) \<and>
      stream_at sid start ps (arrived as m) (gw_feed gw') \<and> rb_inv kEventCapacity (gw_out gw') \<and>
      gw_subs gw' = map rest_of (gw_subs gw)"
  using arrivals_emit [OF assms(1-4)] emitted_queue [OF assms(5)]
  by (fastforce simp: poll_once_eq assms(6) Let_def)

definition example_socket :: "u8 list list \<Rightarrow> UdpSocket" where
  "example_socket ds = \<lparr>us_fd = 3, us_kernel = ds\<rparr>"

definition example_subscription :: "u8 list list \<Rightarrow> u8 list list \<Rightarrow> Subscription" where
  "example_subscription ds1 ds2 = \<lparr>sub_cfg = \<lparr>sc_source1_group = [], sc_source2_group = [], sc_port = 0, sc_stream_id = 3\<rparr>,
     sub_s1 = example_socket ds1, sub_s2 = example_socket ds2\<rparr>"

definition example_gateway :: "u8 list list \<Rightarrow> u8 list list \<Rightarrow> MarketDataGateway" where
  "example_gateway ds1 ds2 = \<lparr>gw_feed = FeedHandler_init, gw_out = RingBuffer_init (\<lambda>_. zero_event),
     gw_subs = [example_subscription ds1 ds2], gw_dropped = 0\<rparr>"

lemma example_queue: "rb_inv kEventCapacity (gw_out (example_gateway ds1 ds2))"
  "rb_contents kEventCapacity (gw_out (example_gateway ds1 ds2)) = []"
  by (simp_all add: example_gateway_def rb_init_inv valid_capacity_def kEventCapacity_def)

lemma example_polled:
  "polled (gw_subs (example_gateway ds1 ds2)) =
     map (\<lambda>d. (kPrimary, take kPktCap d)) (take kBatch ds1) @ map (\<lambda>d. (kSecondary, take kPktCap d)) (take kBatch ds2)"
  by (simp add: polled_def polled_from_def example_gateway_def example_subscription_def example_socket_def UdpSocket_valid_def)

lemma example_packet_short: "take kPktCap example_packet = example_packet"
  by (simp add: example_packet_def kPktCap_def)

theorem poll_delivers_once_witness:
  "let ev = (base_event kOrderCancel 3 5 0)\<lparr>me_order_no := 77, me_token := 7\<rparr>
   in \<exists>gw'. poll_once (example_gateway [example_packet] [example_packet]) = Some (1, gw') \<and>
      rb_contents kEventCapacity (gw_out gw') = [ev] \<and> gw_dropped gw' = 0"
proof -
  let ?ev = "(base_event kOrderCancel 3 5 0)\<lparr>me_order_no := 77, me_token := 7\<rparr>"
  let ?gw = "example_gateway [example_packet] [example_packet]"
  let ?ps = "[(example_packet, [?ev])]" and ?as = "[(kPrimary, 0::nat), (kSecondary, 0)]"
  have g: "gapless 3 5 ?ps" by (simp add: example_packet_parse) (simp add: MtbtParser_init_def)
  have a: "arrival_ok (length ?ps) ?as 0" by simp
  have s: "stream_at 3 5 ?ps 0 (gw_feed ?gw)"
    by (simp add: example_gateway_def stream_at_def FeedHandler_init_def StreamStats_default_def)
  have p: "polled (gw_subs ?gw) = map (\<lambda>(src, k). (src, fst (?ps ! k))) ?as"
    by (simp add: example_polled example_packet_short kBatch_def)
  have d: "gw_dropped ?gw = 0" by (simp add: example_gateway_def)
  from poll_delivers_once [OF g a le0 s example_queue(1) p] show ?thesis
    by (auto simp: example_queue(2) d Let_def)
qed






end
