(* ===== verification/Order_Gateway.thy ===== *)
theory Order_Gateway
  imports Prelude "HOL-Library.Sublist"
begin

text \<open>
  The TCP order gateway of \<^verbatim>\<open>src/gateway/order_gateway.hpp\<close>.

  The kernel is a parameter: a state, \<open>send\<close> with its result for the bytes offered, and \<open>recv\<close>
  with its result and the bytes it delivers. \<open>ts_wire\<close> records the bytes the kernel has accepted. What
  the code relies on is the documented bound \<open>send_bounded\<close>: \<open>send\<close> never reports more bytes than it
  was offered. The loop of \<open>send_all\<close> is a recursion that terminates because every turn either returns or
  advances the offset. Socket options that only tune the kernel have no effect on the values.
\<close>

subsection \<open>Socket\<close>

type_synonym 'k sender = "'k \<Rightarrow> u8 list \<Rightarrow> int \<times> 'k"
type_synonym 'k receiver = "'k \<Rightarrow> nat \<Rightarrow> int \<times> u8 list \<times> 'k"

record 'k TcpSocket =
  ts_fd :: int
  ts_kernel :: 'k
  ts_wire :: "u8 list"

definition TcpSocket_close :: "'k TcpSocket \<Rightarrow> 'k TcpSocket" where
  "TcpSocket_close s = (if ts_fd s \<ge> 0 then s\<lparr>ts_fd := -1\<rparr> else s)"

definition connect_to :: "int \<Rightarrow> int \<Rightarrow> 'k TcpSocket \<Rightarrow> bool \<times> 'k TcpSocket" where
  "connect_to socket_result connect_result s =
     (let s = s\<lparr>ts_fd := socket_result\<rparr>
      in if ts_fd s < 0 then (False, s)
         else if connect_result \<noteq> 0 then (False, TcpSocket_close s)
         else (True, s))"

definition TcpSocket_adopt :: "int \<Rightarrow> 'k TcpSocket \<Rightarrow> 'k TcpSocket" where
  "TcpSocket_adopt fd s = (TcpSocket_close s)\<lparr>ts_fd := fd\<rparr>"

function send_loop :: "'k sender \<Rightarrow> u8 list \<Rightarrow> nat \<Rightarrow> 'k TcpSocket \<Rightarrow> bool \<times> 'k TcpSocket" where
  "send_loop send buf off s =
     (if off < length buf
      then let (n, k) = send (ts_kernel s) (drop off buf)
           in if n \<le> 0 then (False, s\<lparr>ts_kernel := k\<rparr>)
              else send_loop send buf (off + nat n)
                     (s\<lparr>ts_kernel := k, ts_wire := ts_wire s @ take (nat n) (drop off buf)\<rparr>)
      else (True, s))"
  by pat_completeness auto
termination by (relation "measure (\<lambda>(send, buf, off, s). length buf - off)") auto

declare send_loop.simps [simp del]

definition send_all :: "'k sender \<Rightarrow> u8 list \<Rightarrow> 'k TcpSocket \<Rightarrow> bool \<times> 'k TcpSocket" where
  "send_all send buf s = send_loop send buf 0 s"

definition TcpSocket_recv :: "'k receiver \<Rightarrow> nat \<Rightarrow> 'k TcpSocket \<Rightarrow> int \<times> u8 list \<times> 'k TcpSocket" where
  "TcpSocket_recv recv cap s = (let (n, bs, k) = recv (ts_kernel s) cap in (n, bs, s\<lparr>ts_kernel := k\<rparr>))"

subsection \<open>Gateway\<close>

record 'k OrderGateway =
  og_sock :: "'k TcpSocket"
  og_connected :: bool
  og_sent :: u64
  og_received :: u64
  og_last_send_tsc :: u64

definition OrderGateway_init :: "'k \<Rightarrow> 'k OrderGateway" where
  "OrderGateway_init k = \<lparr>og_sock = \<lparr>ts_fd = -1, ts_kernel = k, ts_wire = []\<rparr>, og_connected = False, og_sent = 0,
     og_received = 0, og_last_send_tsc = 0\<rparr>"

definition OrderGateway_connect :: "int \<Rightarrow> int \<Rightarrow> 'k OrderGateway \<Rightarrow> bool \<times> 'k OrderGateway" where
  "OrderGateway_connect socket_result connect_result g =
     (let (ok, s) = connect_to socket_result connect_result (og_sock g); g = g\<lparr>og_sock := s\<rparr>
      in if \<not> ok then (False, g) else (True, g\<lparr>og_connected := True\<rparr>))"

definition OrderGateway_adopt :: "int \<Rightarrow> 'k OrderGateway \<Rightarrow> 'k OrderGateway" where
  "OrderGateway_adopt fd g = g\<lparr>og_sock := TcpSocket_adopt fd (og_sock g), og_connected := True\<rparr>"

definition send_order :: "'k sender \<Rightarrow> u64 \<Rightarrow> u8 list \<Rightarrow> 'k OrderGateway \<Rightarrow> bool \<times> 'k OrderGateway" where
  "send_order send tsc nnf_msg g =
     (let g = g\<lparr>og_last_send_tsc := tsc\<rparr>;
          (ok, s) = send_all send nnf_msg (og_sock g);
          g = g\<lparr>og_sock := s\<rparr>
      in if \<not> ok then (False, g\<lparr>og_connected := False\<rparr>) else (True, g\<lparr>og_sent := og_sent g + 1\<rparr>))"

definition poll_response :: "'k receiver \<Rightarrow> nat \<Rightarrow> 'k OrderGateway \<Rightarrow> int \<times> u8 list \<times> 'k OrderGateway" where
  "poll_response recv cap g =
     (let (n, bs, s) = TcpSocket_recv recv cap (og_sock g); g = g\<lparr>og_sock := s\<rparr>
      in (n, bs, if n > 0 then g\<lparr>og_received := og_received g + 1\<rparr>
                 else if n = 0 then g\<lparr>og_connected := False\<rparr> else g))"

text \<open>The messages of a session, each with the counter read at the send.\<close>

fun send_messages :: "'k sender \<Rightarrow> (u64 \<times> u8 list) list \<Rightarrow> 'k OrderGateway \<Rightarrow> bool list \<times> 'k OrderGateway" where
  "send_messages send [] g = ([], g)"
| "send_messages send ((tsc, msg) # msgs) g =
     (let (ok, g) = send_order send tsc msg g; (oks, g) = send_messages send msgs g in (ok # oks, g))"

subsection \<open>One message\<close>

definition send_bounded :: "'k sender \<Rightarrow> bool" where
  "send_bounded send \<longleftrightarrow> (\<forall>k bs. fst (send k bs) \<le> int (length bs))"

text \<open>The bytes of \<open>msg\<close> that went out: all of them, or a proper prefix when the call failed.\<close>

definition piece_ok :: "bool \<Rightarrow> u8 list \<Rightarrow> u8 list \<Rightarrow> bool" where
  "piece_ok ok msg piece \<longleftrightarrow> (if ok then piece = msg else strict_prefix piece msg)"

lemma piece_ok_append: "piece_ok ok msg piece \<Longrightarrow> piece_ok ok (sent @ msg) (sent @ piece)"
  by (auto simp: piece_ok_def strict_prefix_def split: if_splits)

lemma send_loop_done: "\<not> off < length buf \<Longrightarrow> send_loop send buf off s = (True, s)"
  by (simp add: send_loop.simps [of send buf off])

lemma send_loop_fails:
  "off < length buf \<Longrightarrow> send (ts_kernel s) (drop off buf) = (n, k) \<Longrightarrow> n \<le> 0 \<Longrightarrow>
    send_loop send buf off s = (False, s\<lparr>ts_kernel := k\<rparr>)"
  by (simp add: send_loop.simps [of send buf off])

lemma send_loop_goes_on:
  "off < length buf \<Longrightarrow> send (ts_kernel s) (drop off buf) = (n, k) \<Longrightarrow> \<not> n \<le> 0 \<Longrightarrow>
    send_loop send buf off s = send_loop send buf (off + nat n)
      (s\<lparr>ts_kernel := k, ts_wire := ts_wire s @ take (nat n) (drop off buf)\<rparr>)"
  by (simp add: send_loop.simps [of send buf off])

lemmas send_loop_steps = send_loop_done send_loop_fails send_loop_goes_on

lemma send_loop_piece:
  "send_bounded send \<Longrightarrow> send_loop send buf off s = (ok, s') \<Longrightarrow>
    \<exists>piece. ts_wire s' = ts_wire s @ piece \<and> piece_ok ok (drop off buf) piece \<and> ts_fd s' = ts_fd s"
proof (induction send buf off s rule: send_loop.induct)
  case (1 send buf off s)
  show ?case
  proof (cases "off < length buf")
    case True
    obtain n k where nk: "send (ts_kernel s) (drop off buf) = (n, k)" by fastforce
    have le: "n \<le> int (length buf - off)" using "1.prems"(1) nk unfolding send_bounded_def
      by (metis fst_conv length_drop)
    show ?thesis
    proof (cases "n \<le> 0")
      case neg: True
      have "strict_prefix [] (drop off buf)" using True by (auto simp: strict_prefix_def)
      then show ?thesis using neg True nk "1.prems"(2)
        by (intro exI [of _ "[]"]) (auto simp: send_loop_fails piece_ok_def)
    next
      case pos: False
      let ?s = "s\<lparr>ts_kernel := k, ts_wire := ts_wire s @ take (nat n) (drop off buf)\<rparr>"
      have "send_loop send buf (off + nat n) ?s = (ok, s')"
        using "1.prems"(2) True nk pos by (simp add: send_loop_goes_on)
      from "1.IH" [OF True nk [symmetric] refl pos "1.prems"(1) this] obtain piece where
        p: "ts_wire s' = ts_wire ?s @ piece" "piece_ok ok (drop (off + nat n) buf) piece" "ts_fd s' = ts_fd s"
        by auto
      have split: "drop off buf = take (nat n) (drop off buf) @ drop (off + nat n) buf"
        by (metis append_take_drop_id drop_drop add.commute)
      have "piece_ok ok (drop off buf) (take (nat n) (drop off buf) @ piece)"
        using piece_ok_append [OF p(2), of "take (nat n) (drop off buf)"] by (simp only: split [symmetric])
      with p show ?thesis by auto
    qed
  next
    case False
    then show ?thesis using "1.prems"(2) by (simp add: send_loop_done piece_ok_def)
  qed
qed

lemma send_order_piece:
  assumes "send_bounded send" "send_order send tsc msg g = (ok, g')"
  shows "\<exists>piece. ts_wire (og_sock g') = ts_wire (og_sock g) @ piece \<and> piece_ok ok msg piece"
    and "og_connected g' = (og_connected g \<and> ok)" and "og_sent g' = (if ok then og_sent g + 1 else og_sent g)"
proof -
  obtain s where s: "send_all send msg (og_sock g) = (ok, s)" "og_sock g' = s"
    "og_connected g' = (og_connected g \<and> ok)" "og_sent g' = (if ok then og_sent g + 1 else og_sent g)"
    using assms(2) by (auto simp: send_order_def Let_def split: prod.splits if_splits)
  then show "\<exists>piece. ts_wire (og_sock g') = ts_wire (og_sock g) @ piece \<and> piece_ok ok msg piece"
    using send_loop_piece [OF assms(1), of msg 0 "og_sock g" ok s] by (auto simp: send_all_def)
  show "og_connected g' = (og_connected g \<and> ok)" "og_sent g' = (if ok then og_sent g + 1 else og_sent g)"
    using s by auto
qed

subsection \<open>Properties\<close>

text \<open>C34: Over a whole session, whatever the kernel accepts at each call, the bytes on the wire are the
  messages in order, each complete when its \<open>send_order\<close> returned true and cut short when it
  returned false; the sent counter is the number of successes, and the gateway still counts as connected
  exactly when it was and every send succeeded. So while no send fails the stream is the
  concatenation of the messages.\<close>

theorem gateway_stream:
  assumes "send_bounded send" "send_messages send msgs g = (oks, g')"
  shows "\<exists>pieces. ts_wire (og_sock g') = ts_wire (og_sock g) @ concat pieces \<and>
    list_all2 (\<lambda>(ok, msg) piece. piece_ok ok msg piece) (zip oks (map snd msgs)) pieces \<and>
    length oks = length msgs \<and> og_connected g' = (og_connected g \<and> False \<notin> set oks) \<and>
    og_sent g' = og_sent g + of_nat (count_list oks True) \<and>
    (False \<notin> set oks \<longrightarrow> ts_wire (og_sock g') = ts_wire (og_sock g) @ concat (map snd msgs))"
  using assms
proof (induction msgs arbitrary: g oks)
  case (Cons m msgs)
  obtain tsc msg where m: "m = (tsc, msg)" by (cases m)
  obtain ok g1 oks1 where 1: "send_order send tsc msg g = (ok, g1)" "send_messages send msgs g1 = (oks1, g')" "oks = ok # oks1"
    using Cons.prems(2) m by (auto simp: Let_def split: prod.splits)
  from send_order_piece [OF Cons.prems(1) 1(1)] obtain piece where p: "ts_wire (og_sock g1) = ts_wire (og_sock g) @ piece"
    "piece_ok ok msg piece" "og_connected g1 = (og_connected g \<and> ok)" "og_sent g1 = (if ok then og_sent g + 1 else og_sent g)"
    by blast
  from Cons.IH [OF Cons.prems(1) 1(2)] obtain pieces where q: "ts_wire (og_sock g') = ts_wire (og_sock g1) @ concat pieces"
    "list_all2 (\<lambda>(ok, msg) piece. piece_ok ok msg piece) (zip oks1 (map snd msgs)) pieces"
    "length oks1 = length msgs" "og_connected g' = (og_connected g1 \<and> False \<notin> set oks1)"
    "og_sent g' = og_sent g1 + of_nat (count_list oks1 True)"
    "False \<notin> set oks1 \<longrightarrow> ts_wire (og_sock g') = ts_wire (og_sock g1) @ concat (map snd msgs)" by blast
  then show ?case
    using 1(3) m p by (intro exI [of _ "piece # pieces"]) (auto simp: piece_ok_def)
qed auto

text \<open>The kernel of the examples answers from a script.\<close>

definition scripted :: "int list sender" where
  "scripted k bs = (case k of [] \<Rightarrow> (-1, []) | n # ns \<Rightarrow> (min n (int (length bs)), ns))"

lemma scripted_bounded: "send_bounded scripted"
  by (auto simp: send_bounded_def scripted_def split: list.split)

theorem gateway_stream_witness:
  "ts_wire (og_sock (snd (send_messages scripted [(1, [10, 11, 12]), (2, [20, 21])]
      (OrderGateway_adopt 4 (OrderGateway_init [2, 1, 2]))))) = [10, 11, 12, 20, 21]"
proof -
  let ?g = "OrderGateway_adopt 4 (OrderGateway_init [2, 1, 2])"
  let ?msgs = "[(1, [10, 11, 12]), (2, [20, 21])]"
  obtain oks g' where r: "send_messages scripted ?msgs ?g = (oks, g')" by fastforce
  then have "False \<notin> set oks"
    by (auto simp: send_order_def send_all_def send_loop_steps scripted_def OrderGateway_adopt_def
        OrderGateway_init_def TcpSocket_adopt_def TcpSocket_close_def)
  then show ?thesis
    using gateway_stream [OF scripted_bounded r] r
    by (auto simp: OrderGateway_adopt_def OrderGateway_init_def TcpSocket_adopt_def TcpSocket_close_def)
qed

text \<open>A truncated message does not stop the stream. When the kernel takes only the first \<open>c\<close> bytes of a
  message and then refuses (a full buffer of a non-blocking socket), \<open>send_order\<close> reports failure and
  marks the gateway disconnected; but the next \<open>send_order\<close> does not look at that mark, and its
  message goes out directly behind the truncated one.\<close>

theorem truncated_message_followed:
  assumes "send k0 m1 = (int c, k1)" "0 < c" "c < length m1" "send k1 (drop c m1) = (-1, k2)"
    and "send k2 m2 = (int (length m2), k3)" "m2 \<noteq> []" "ts_kernel (og_sock g) = k0"
  shows "\<exists>g1 g2. send_order send t1 m1 g = (False, g1) \<and> \<not> og_connected g1 \<and> send_order send t2 m2 g1 = (True, g2) \<and>
    \<not> og_connected g2 \<and> ts_wire (og_sock g2) = ts_wire (og_sock g) @ take c m1 @ m2"
proof -
  let ?s = "og_sock g" and ?s1 = "(og_sock g)\<lparr>ts_kernel := k2, ts_wire := ts_wire (og_sock g) @ take c m1\<rparr>"
  have "send_loop send m1 0 ?s = send_loop send m1 c (?s\<lparr>ts_kernel := k1, ts_wire := ts_wire ?s @ take c m1\<rparr>)"
    using assms(1-3,7) send_loop_goes_on [of 0 m1 send ?s "int c" k1] by (cases "m1 = []") simp_all
  also have "\<dots> = (False, ?s1)"
    using assms(3,4) send_loop_fails [of c m1 send "?s\<lparr>ts_kernel := k1, ts_wire := ts_wire ?s @ take c m1\<rparr>" "-1" k2] by simp
  finally have 1: "send_loop send m1 0 ?s = (False, ?s1)" .
  have 2: "send_loop send m2 0 ?s1 = (True, ?s1\<lparr>ts_kernel := k3, ts_wire := ts_wire ?s1 @ m2\<rparr>)"
    using assms(5,6) send_loop_goes_on [of 0 m2 send ?s1 "int (length m2)" k3] by (simp add: send_loop_done)
  show ?thesis by (simp add: send_order_def send_all_def Let_def 1 2)
qed

theorem truncated_message_followed_witness:
  "\<exists>g1 g2. send_order scripted 1 [10, 11, 12] (OrderGateway_adopt 4 (OrderGateway_init [2, -1, 2])) = (False, g1) \<and>
    send_order scripted 2 [20, 21] g1 = (True, g2) \<and> ts_wire (og_sock g2) = [10, 11, 20, 21]"
  using truncated_message_followed [of scripted "[2, -1, 2]" "[10, 11, 12]" 2 "[-1, 2]" "[2]" "[20, 21]" "[]"
      "OrderGateway_adopt 4 (OrderGateway_init [2, -1, 2])" 1 2]
  by (fastforce simp: scripted_def OrderGateway_adopt_def OrderGateway_init_def TcpSocket_adopt_def TcpSocket_close_def)

end
