(* ===== verification/Logger.thy ===== *)
theory Logger
  imports Ring_Buffer Time_Utils Symbol_Master "HOL-Library.Sublist"
begin

text \<open>
  The asynchronous logger of \<^verbatim>\<open>src/common/logger.hpp\<close>.

  The hot path pushes fixed-size records into the ring buffer; the drain thread pops, formats and
  writes them. The file is the pair of the text that is certain to be written out and the text in the
  buffer of the C library (which may write it out earlier), or \<open>None\<close> when it could not be opened.
  The two threads meet in the ring buffer only, whose operations are atomic towards each other (the
  theory \<^verbatim>\<open>Ring_Buffer\<close>), so their behaviours are the interleavings of calls of \<open>log\<close> with the single
  pops and flushes of the drain thread.
\<close>

subsection \<open>Records\<close>

datatype LogLevel = kDebug | kInfo | kWarn | kError | kCritical

fun LogLevel_to_string :: "LogLevel \<Rightarrow> string" where
  "LogLevel_to_string kDebug = ''DEBUG''"
| "LogLevel_to_string kInfo = ''INFO''"
| "LogLevel_to_string kWarn = ''WARN''"
| "LogLevel_to_string kError = ''ERROR''"
| "LogLevel_to_string kCritical = ''CRITICAL''"

record LogEntry =
  le_ts_ist :: Timestamp
  le_level :: LogLevel
  le_tag :: string
  le_arg0 :: int
  le_arg1 :: int
  le_arg2 :: int
  le_arg3 :: int

text \<open>The copy into the 31 bytes of \<open>tag\<close>, of which the last is the terminator.\<close>

definition copy_tag :: "string \<Rightarrow> string" where
  "copy_tag tag = take 30 (takeWhile (\<lambda>c. c \<noteq> CHR 0x00) tag)"

record AsyncLogger =
  lg_queue :: "LogEntry RingBuffer"
  lg_file :: "(string \<times> string) option"
  lg_running :: bool
  lg_flush_request :: bool
  lg_dropped :: u64

definition AsyncLogger_init :: "(string \<times> string) option \<Rightarrow> (nat \<Rightarrow> LogEntry) \<Rightarrow> AsyncLogger" where
  "AsyncLogger_init file raw = \<lparr>lg_queue = RingBuffer_init raw, lg_file = file, lg_running = True,
     lg_flush_request = False, lg_dropped = 0\<rparr>"

subsection \<open>The hot path\<close>

definition make_entry :: "timespec \<Rightarrow> LogLevel \<Rightarrow> string \<Rightarrow> int \<times> int \<times> int \<times> int \<Rightarrow> LogEntry" where
  "make_entry wall level tag = (\<lambda>(a0, a1, a2, a3).
     \<lparr>le_ts_ist = ist_now_ns wall, le_level = level, le_tag = copy_tag tag,
      le_arg0 = a0, le_arg1 = a1, le_arg2 = a2, le_arg3 = a3\<rparr>)"

definition log :: "u64 \<Rightarrow> timespec \<Rightarrow> LogLevel \<Rightarrow> string \<Rightarrow> int \<times> int \<times> int \<times> int \<Rightarrow> AsyncLogger \<Rightarrow> bool \<times> AsyncLogger" where
  "log Capacity wall level tag args lg =
     (let e = make_entry wall level tag args;
          (ok, q) = RingBuffer_push Capacity e (lg_queue lg);
          lg = lg\<lparr>lg_queue := q\<rparr>
      in if \<not> ok then (False, lg\<lparr>lg_dropped := lg_dropped lg + 1\<rparr>)
         else (True, if level = kCritical then lg\<lparr>lg_flush_request := True\<rparr> else lg))"

subsection \<open>The drain thread\<close>

definition log_line :: "LogEntry \<Rightarrow> string" where
  "log_line e = dec (unat (le_ts_ist e)) @ '' ['' @ LogLevel_to_string (le_level e) @ ''] '' @ le_tag e @
     '' '' @ dec_int (le_arg0 e) @ '' '' @ dec_int (le_arg1 e) @ '' '' @ dec_int (le_arg2 e) @ '' '' @ dec_int (le_arg3 e) @
     [CHR 0x0A]"

definition Render :: "LogEntry \<Rightarrow> AsyncLogger \<Rightarrow> AsyncLogger" where
  "Render e lg =
     (case lg_file lg of None \<Rightarrow> lg
      | Some (disk, buf) \<Rightarrow> lg\<lparr>lg_file := Some (disk, buf @ log_line e)\<rparr>)"

definition fflush :: "AsyncLogger \<Rightarrow> AsyncLogger" where
  "fflush lg = (case lg_file lg of None \<Rightarrow> lg | Some (disk, buf) \<Rightarrow> lg\<lparr>lg_file := Some (disk @ buf, [])\<rparr>)"

definition drain_one :: "u64 \<Rightarrow> AsyncLogger \<Rightarrow> bool \<times> AsyncLogger" where
  "drain_one Capacity lg =
     (case RingBuffer_pop Capacity (lg_queue lg) of
        (None, q) \<Rightarrow> (False, lg\<lparr>lg_queue := q\<rparr>)
      | (Some e, q) \<Rightarrow> (True, Render e (lg\<lparr>lg_queue := q\<rparr>)))"

text \<open>The inner loop: pop and render until the queue is empty. It ends because the number of queued
  records decreases with every turn.\<close>

lemma Render_queue [simp]: "lg_queue (Render e lg) = lg_queue lg"
  by (auto simp: Render_def split: option.split)

lemma drain_one_less:
  "fst (drain_one C lg) \<Longrightarrow>
    unat (RingBuffer_size (lg_queue (snd (drain_one C lg)))) < unat (RingBuffer_size (lg_queue lg))"
proof -
  assume "fst (drain_one C lg)"
  then have ne: "rb_tail (lg_queue lg) - rb_head (lg_queue lg) \<noteq> 0"
    by (auto simp: drain_one_def RingBuffer_pop_def Let_def split: if_splits)
  then have "lg_queue (snd (drain_one C lg)) = (lg_queue lg)\<lparr>rb_head := rb_head (lg_queue lg) + 1\<rparr>"
    by (auto simp: drain_one_def RingBuffer_pop_def Let_def)
  moreover have "unat (rb_tail (lg_queue lg) - (rb_head (lg_queue lg) + 1)) = unat (rb_tail (lg_queue lg) - rb_head (lg_queue lg)) - 1"
    using unat_minus_one [OF ne] by (simp add: diff_diff_eq)
  moreover have "0 < unat (rb_tail (lg_queue lg) - rb_head (lg_queue lg))" using ne by (metis unat_gt_0)
  ultimately show ?thesis by (simp add: RingBuffer_size_def)
qed

function drain_queue :: "u64 \<Rightarrow> AsyncLogger \<Rightarrow> bool \<times> AsyncLogger" where
  "drain_queue Capacity lg =
     (if fst (drain_one Capacity lg) then (True, snd (drain_queue Capacity (snd (drain_one Capacity lg))))
      else (False, snd (drain_one Capacity lg)))"
  by pat_completeness auto
termination
  by (relation "measure (\<lambda>(C, lg). unat (RingBuffer_size (lg_queue lg)))") (auto intro: drain_one_less)

declare drain_queue.simps [simp del]

definition Flush :: "u64 \<Rightarrow> AsyncLogger \<Rightarrow> AsyncLogger" where
  "Flush Capacity lg = fflush (snd (drain_queue Capacity lg))"

definition drain_turn :: "u64 \<Rightarrow> AsyncLogger \<Rightarrow> AsyncLogger" where
  "drain_turn Capacity lg =
     (let (any, lg) = drain_queue Capacity lg;
          requested = lg_flush_request lg;
          lg = lg\<lparr>lg_flush_request := False\<rparr>
      in if requested \<or> any then fflush lg else lg)"

text \<open>The destructor, after the drain thread has been joined.\<close>

definition AsyncLogger_destroy :: "u64 \<Rightarrow> AsyncLogger \<Rightarrow> AsyncLogger" where
  "AsyncLogger_destroy Capacity lg = Flush Capacity (lg\<lparr>lg_running := False\<rparr>)"

subsection \<open>Interleavings\<close>

datatype log_op = Log timespec LogLevel string "int \<times> int \<times> int \<times> int" | DrainOne | FileFlush

text \<open>The run of a sequence of operations, with the records whose call of \<open>log\<close> returned true and
  the number of calls that returned false.\<close>

fun log_run :: "u64 \<Rightarrow> log_op list \<Rightarrow> AsyncLogger \<Rightarrow> LogEntry list \<times> nat \<times> AsyncLogger" where
  "log_run C [] lg = ([], 0, lg)"
| "log_run C (Log wall level tag args # ops) lg =
     (let (ok, lg) = log C wall level tag args lg; (acc, refused, lg) = log_run C ops lg
      in (if ok then make_entry wall level tag args # acc else acc, if ok then refused else refused + 1, lg))"
| "log_run C (DrainOne # ops) lg = log_run C ops (snd (drain_one C lg))"
| "log_run C (FileFlush # ops) lg = log_run C ops (fflush lg)"

fun entries :: "log_op list \<Rightarrow> LogEntry list" where
  "entries [] = []"
| "entries (Log wall level tag args # ops) = make_entry wall level tag args # entries ops"
| "entries (_ # ops) = entries ops"

text \<open>The text a logger has written or will write from what it holds.\<close>

definition eventual_text :: "u64 \<Rightarrow> AsyncLogger \<Rightarrow> string" where
  "eventual_text C lg = (case lg_file lg of None \<Rightarrow> []
     | Some (disk, buf) \<Rightarrow> disk @ buf @ concat (map log_line (rb_contents C (lg_queue lg))))"

lemma eventual_text_running [simp]: "eventual_text C (lg\<lparr>lg_running := b\<rparr>) = eventual_text C lg"
  by (auto simp: eventual_text_def split: option.split)

definition lg_inv :: "u64 \<Rightarrow> AsyncLogger \<Rightarrow> bool" where
  "lg_inv C lg \<longleftrightarrow> rb_inv C (lg_queue lg) \<and> lg_file lg \<noteq> None"

lemma log_effect:
  assumes "lg_inv C lg" "log C wall level tag args lg = (ok, lg')"
  shows "lg_inv C lg'"
    and "eventual_text C lg' = eventual_text C lg @ (if ok then log_line (make_entry wall level tag args) else [])"
    and "lg_dropped lg' = lg_dropped lg + (if ok then 0 else 1)"
proof -
  let ?e = "make_entry wall level tag args"
  have q: "rb_inv C (lg_queue lg)" "lg_file lg \<noteq> None" using assms(1) by (auto simp: lg_inv_def)
  obtain q' where p: "RingBuffer_push C ?e (lg_queue lg) = (ok, q')" "lg_queue lg' = q'" "lg_file lg' = lg_file lg"
    "lg_dropped lg' = lg_dropped lg + (if ok then 0 else 1)"
    using assms(2) by (auto simp: log_def Let_def split: prod.splits if_splits)
  have "rb_contents C q' = rb_contents C (lg_queue lg) @ (if ok then [?e] else [])"
    using rbq.push_room [OF q(1), of ?e] rbq.push_full [OF q(1), of ?e] p(1)
    by (cases "length (rb_contents C (lg_queue lg)) < unat C") auto
  with p q show "eventual_text C lg' = eventual_text C lg @ (if ok then log_line ?e else [])"
    by (auto simp: eventual_text_def split: option.split)
  show "lg_inv C lg'" using rbq.invar_push [OF q(1), of ?e] p q by (simp add: lg_inv_def)
  show "lg_dropped lg' = lg_dropped lg + (if ok then 0 else 1)" by (rule p(4))
qed

lemma drain_one_effect:
  assumes "lg_inv C lg"
  shows "lg_inv C (snd (drain_one C lg))" "eventual_text C (snd (drain_one C lg)) = eventual_text C lg"
    "lg_dropped (snd (drain_one C lg)) = lg_dropped lg"
    "\<not> fst (drain_one C lg) \<Longrightarrow> rb_contents C (lg_queue (snd (drain_one C lg))) = []"
proof -
  have q: "rb_inv C (lg_queue lg)" and f: "lg_file lg \<noteq> None" using assms by (auto simp: lg_inv_def)
  have "lg_inv C (snd (drain_one C lg)) \<and> eventual_text C (snd (drain_one C lg)) = eventual_text C lg \<and>
    lg_dropped (snd (drain_one C lg)) = lg_dropped lg \<and>
    (\<not> fst (drain_one C lg) \<longrightarrow> rb_contents C (lg_queue (snd (drain_one C lg))) = [])"
  proof (cases "rb_contents C (lg_queue lg)")
    case Nil
    then show ?thesis using rbq.pop_none [OF q] q f by (simp add: drain_one_def lg_inv_def)
  next
    case (Cons e es)
    obtain q' where p: "RingBuffer_pop C (lg_queue lg) = (Some e, q')" "rb_contents C q' = es"
      using rbq.pop_front [OF q Cons] by (cases "RingBuffer_pop C (lg_queue lg)") auto
    then show ?thesis
      using rbq.invar_pop [OF q] f Cons by (auto simp: drain_one_def lg_inv_def Render_def eventual_text_def)
  qed
  then show "lg_inv C (snd (drain_one C lg))" "eventual_text C (snd (drain_one C lg)) = eventual_text C lg"
    "lg_dropped (snd (drain_one C lg)) = lg_dropped lg"
    "\<not> fst (drain_one C lg) \<Longrightarrow> rb_contents C (lg_queue (snd (drain_one C lg))) = []" by auto
qed

lemma fflush_effect:
  "eventual_text C (fflush lg) = eventual_text C lg" "lg_inv C (fflush lg) = lg_inv C lg" "lg_dropped (fflush lg) = lg_dropped lg"
  by (auto simp: fflush_def eventual_text_def lg_inv_def split: option.split)

lemma drain_queue_effect:
  "lg_inv C lg \<Longrightarrow> lg_inv C (snd (drain_queue C lg)) \<and> eventual_text C (snd (drain_queue C lg)) = eventual_text C lg \<and>
    rb_contents C (lg_queue (snd (drain_queue C lg))) = []"
proof (induction C lg rule: drain_queue.induct)
  case (1 C lg)
  then show ?case
    using drain_one_effect [OF 1(2)] by (cases "fst (drain_one C lg)") (simp_all add: drain_queue.simps [of C lg])
qed

lemma log_run_effect:
  "lg_inv C lg \<Longrightarrow> log_run C ops lg = (acc, refused, lg') \<Longrightarrow>
    lg_inv C lg' \<and> eventual_text C lg' = eventual_text C lg @ concat (map log_line acc) \<and>
    lg_dropped lg' = lg_dropped lg + of_nat refused \<and> subseq acc (entries ops) \<and> length acc + refused = length (entries ops)"
proof (induction C ops lg arbitrary: acc refused rule: log_run.induct)
  case (2 C wall level tag args ops lg)
  obtain ok lg1 where 1: "log C wall level tag args lg = (ok, lg1)" by fastforce
  obtain acc' refused' where r: "log_run C ops lg1 = (acc', refused', lg')"
    "acc = (if ok then make_entry wall level tag args # acc' else acc')" "refused = (if ok then refused' else refused' + 1)"
    using "2.prems"(2) 1 by (auto split: prod.splits)
  note e = log_effect [OF "2.prems"(1) 1]
  from "2.IH" [OF 1 [symmetric] refl e(1) r(1)] e(2,3) r(2,3) show ?case by auto
qed (simp_all add: drain_one_effect fflush_effect)

subsection \<open>Property\<close>

text \<open>C35: The log is complete. However the calls of \<open>log\<close> interleave with the pops and flushes of the drain
  thread, once the logger has been destroyed the file holds exactly the lines of the records whose call
  returned true, in the order of the calls, all written out; and the dropped counter is the number of the other
  calls.\<close>

theorem log_complete:
  assumes "valid_capacity C" "log_run C ops (AsyncLogger_init (Some ([], [])) raw) = (acc, refused, lg)"
  shows "lg_file (AsyncLogger_destroy C lg) = Some (concat (map log_line acc), []) \<and> subseq acc (entries ops) \<and>
    lg_dropped lg = of_nat refused \<and> length acc + refused = length (entries ops)"
proof -
  let ?lg0 = "AsyncLogger_init (Some ([], [])) raw"
  have i: "lg_inv C ?lg0" "eventual_text C ?lg0 = []" "lg_dropped ?lg0 = 0"
    using assms(1) by (simp_all add: lg_inv_def AsyncLogger_init_def rb_init_inv eventual_text_def)
  note r = log_run_effect [OF i(1) assms(2)]
  let ?lg = "lg\<lparr>lg_running := False\<rparr>"
  have "lg_inv C ?lg" "eventual_text C ?lg = concat (map log_line acc)" using r i by (simp_all add: lg_inv_def)
  with drain_queue_effect [of C ?lg] obtain disk buf where
    "lg_file (snd (drain_queue C ?lg)) = Some (disk, buf)" "disk @ buf = concat (map log_line acc)"
    by (fastforce simp: lg_inv_def eventual_text_def)
  then show ?thesis using r i(3) by (simp add: AsyncLogger_destroy_def Flush_def fflush_def)
qed

text \<open>Four records into a logger for two, with one pop between the third and the fourth.\<close>

definition example_ops :: "log_op list" where
  "example_ops = [Log (0, 0) kInfo ''a'' (1, 0, 0, 0), Log (0, 0) kInfo ''b'' (2, 0, 0, 0), Log (0, 0) kCritical ''c'' (3, 0, 0, 0),
     DrainOne, Log (0, 0) kWarn ''d'' (4, 0, 0, 0)]"

theorem log_complete_witness:
  "\<exists>acc lg. log_run 2 example_ops (AsyncLogger_init (Some ([], [])) (\<lambda>_. make_entry (0, 0) kInfo [] (0, 0, 0, 0))) = (acc, 1, lg) \<and>
    map le_tag acc = [''a'', ''b'', ''d''] \<and> lg_dropped lg = 1 \<and>
    lg_file (AsyncLogger_destroy 2 lg) = Some (concat (map log_line acc), [])"
proof -
  let ?lg0 = "AsyncLogger_init (Some ([], [])) (\<lambda>_. make_entry (0, 0) kInfo [] (0, 0, 0, 0))"
  have v: "valid_capacity 2" by (simp add: valid_capacity_def)
  obtain acc refused lg where r: "log_run 2 example_ops ?lg0 = (acc, refused, lg)" by (metis prod_cases3)
  then have "refused = 1" "map le_tag acc = [''a'', ''b'', ''d'']"
    by (auto simp: example_ops_def AsyncLogger_init_def RingBuffer_init_def log_def RingBuffer_push_def kMask_def drain_one_def
        RingBuffer_pop_def Render_def make_entry_def copy_tag_def Let_def)
  with r log_complete [OF v r] show ?thesis by auto
qed

end
