(* ===== verification/Irage_Platform.thy ===== *)
theory Irage_Platform
  imports Prelude
begin

text \<open>
  The platform below the adapter strategy of \<^verbatim>\<open>irage/\<close>.

  The vendor's library is not part of the repository. What the strategy calls of it is the record
  \<open>Impl\<close> of operations over an unknown state \<open>'p\<close>, a parameter of the strategy's definitions. The
  locale \<open>quiet_platform\<close> names what the strategy's decisions rely on: sending an order or writing to the log
  does not change the data the strategy reads. The mock of the library in
  \<^verbatim>\<open>irage/mock/ConnectHeader.h\<close>, which follows the vendor's document, is the record \<open>ConnectImpl\<close> with
  its operations; it instantiates the parameter and the locale.
\<close>

subsection \<open>Types\<close>

type_synonym SymbolIdType = int

datatype enOrdSide = SIDE_BUY | SIDE_SELL

datatype enOrdState = NO_ORDER | UNACKED | STANDING_ACKED | STANDING_UNACKED

record Quote =
  qt_symId :: SymbolIdType
  qt_price :: int
  qt_qty :: int
  qt_side :: enOrdSide
  qt_index :: u8
  qt_minPriceChange :: int

definition Quote_default :: Quote where
  "Quote_default = \<lparr>qt_symId = 0, qt_price = 0, qt_qty = 0, qt_side = SIDE_BUY, qt_index = 0, qt_minPriceChange = 0\<rparr>"

text \<open>Of a tick, the five levels of the book are read.\<close>

record MTICK =
  mt_id :: SymbolIdType
  mt_bid :: "nat \<Rightarrow> int"
  mt_ask :: "nat \<Rightarrow> int"
  mt_bid_size :: "nat \<Rightarrow> int"
  mt_ask_size :: "nat \<Rightarrow> int"

definition MTICK_default :: MTICK where
  "MTICK_default = \<lparr>mt_id = 0, mt_bid = (\<lambda>_. 0), mt_ask = (\<lambda>_. 0), mt_bid_size = (\<lambda>_. 0), mt_ask_size = (\<lambda>_. 0)\<rparr>"

record EXEC_REPORT =
  er_securityId :: SymbolIdType
  er_price :: int
  er_orderSide :: int
  er_fillQty :: int
  er_rejCode :: int

subsection \<open>The interface\<close>

record 'p Impl =
  im_init :: "(int \<rightharpoonup> string) \<Rightarrow> 'p \<Rightarrow> 'p"
  im_running :: "'p \<Rightarrow> bool"
  im_getMtick :: "'p \<Rightarrow> SymbolIdType \<Rightarrow> MTICK"
  im_getDprLow :: "'p \<Rightarrow> SymbolIdType \<Rightarrow> int"
  im_getDprHigh :: "'p \<Rightarrow> SymbolIdType \<Rightarrow> int"
  im_getSymInfo :: "'p \<Rightarrow> SymbolIdType \<Rightarrow> (string \<rightharpoonup> string) option"
  im_sendOrder :: "Quote \<Rightarrow> bool \<Rightarrow> 'p \<Rightarrow> bool \<times> 'p"
  im_getStandingOrder :: "'p \<Rightarrow> SymbolIdType \<Rightarrow> enOrdSide \<Rightarrow> u8 \<Rightarrow> bool"
  im_getError :: "'p \<Rightarrow> string"
  im_getErrorCode :: "'p \<Rightarrow> int"
  im_getOpsConsumed :: "'p \<Rightarrow> int"
  im_getTotalOps :: "'p \<Rightarrow> int"
  im_getSeconds :: "'p \<Rightarrow> int"
  im_getMaxInventory :: "'p \<Rightarrow> SymbolIdType \<Rightarrow> int"
  im_getInventory :: "'p \<Rightarrow> SymbolIdType \<Rightarrow> int"
  im_readGConfig :: "'p \<Rightarrow> string \<Rightarrow> string option"
  im_logMsg :: "string \<Rightarrow> 'p \<Rightarrow> 'p"
  im_E_NO_ACK :: int
  im_E_SAME_ORD :: int

text \<open>The data an order decision reads.\<close>

definition market_view :: "'p Impl \<Rightarrow> 'p \<Rightarrow>
    (SymbolIdType \<Rightarrow> MTICK) \<times> (SymbolIdType \<Rightarrow> int) \<times> (SymbolIdType \<Rightarrow> int) \<times> (SymbolIdType \<Rightarrow> int) \<times> (SymbolIdType \<Rightarrow> int)" where
  "market_view im p = (im_getMtick im p, im_getDprLow im p, im_getDprHigh im p, im_getMaxInventory im p, im_getInventory im p)"

locale quiet_platform =
  fixes im :: "'p Impl"
  assumes send_quiet: "market_view im (snd (im_sendOrder im q ioc p)) = market_view im p"
    and log_quiet: "market_view im (im_logMsg im msg p) = market_view im p"

text \<open>The same platform with a record of the order messages it was given.\<close>

definition traced :: "'p Impl \<Rightarrow> ('p \<times> Quote list) Impl" where
  "traced im = \<lparr>
     im_init = (\<lambda>cfg (p, tr). (im_init im cfg p, tr)), im_running = im_running im \<circ> fst, im_getMtick = im_getMtick im \<circ> fst,
     im_getDprLow = im_getDprLow im \<circ> fst, im_getDprHigh = im_getDprHigh im \<circ> fst, im_getSymInfo = im_getSymInfo im \<circ> fst,
     im_sendOrder = (\<lambda>q ioc (p, tr). case im_sendOrder im q ioc p of (ok, p') \<Rightarrow> (ok, p', tr @ [q])),
     im_getStandingOrder = im_getStandingOrder im \<circ> fst, im_getError = im_getError im \<circ> fst,
     im_getErrorCode = im_getErrorCode im \<circ> fst, im_getOpsConsumed = im_getOpsConsumed im \<circ> fst,
     im_getTotalOps = im_getTotalOps im \<circ> fst, im_getSeconds = im_getSeconds im \<circ> fst,
     im_getMaxInventory = im_getMaxInventory im \<circ> fst, im_getInventory = im_getInventory im \<circ> fst,
     im_readGConfig = im_readGConfig im \<circ> fst, im_logMsg = (\<lambda>msg (p, tr). (im_logMsg im msg p, tr)),
     im_E_NO_ACK = im_E_NO_ACK im, im_E_SAME_ORD = im_E_SAME_ORD im\<rparr>"

subsection \<open>The mock\<close>

record OrderSlot =
  os_quote :: Quote
  os_state :: enOrdState
  os_pending_cancel :: bool

definition OrderSlot_default :: OrderSlot where
  "OrderSlot_default = \<lparr>os_quote = Quote_default, os_state = NO_ORDER, os_pending_cancel = False\<rparr>"

record SentOrder =
  so_quote :: Quote
  so_ioc :: bool
  so_type :: char

text \<open>A map that is read with a default for absent keys is a total function.\<close>

record ConnectImpl =
  ci_ticks :: "SymbolIdType \<Rightarrow> MTICK"
  ci_orders :: "int \<Rightarrow> OrderSlot"
  ci_sent :: "SentOrder list"
  ci_dpr :: "SymbolIdType \<rightharpoonup> int \<times> int"
  ci_inventory :: "SymbolIdType \<Rightarrow> int"
  ci_max_inv :: "SymbolIdType \<rightharpoonup> int"
  ci_syminfo :: "SymbolIdType \<rightharpoonup> (string \<rightharpoonup> string)"
  ci_gconfig :: "string \<rightharpoonup> string"
  ci_log :: "string list"
  ci_running :: bool
  ci_inited :: bool
  ci_ops_consumed :: int
  ci_total_ops :: int
  ci_seconds :: int
  ci_last_error :: int

definition ConnectImpl_init :: ConnectImpl where
  "ConnectImpl_init = \<lparr>ci_ticks = (\<lambda>_. MTICK_default), ci_orders = (\<lambda>_. OrderSlot_default), ci_sent = [], ci_dpr = Map.empty,
     ci_inventory = (\<lambda>_. 0), ci_max_inv = Map.empty, ci_syminfo = Map.empty, ci_gconfig = Map.empty, ci_log = [],
     ci_running = False, ci_inited = False, ci_ops_consumed = 0, ci_total_ops = 1000, ci_seconds = 0, ci_last_error = 0\<rparr>"

definition E_OK :: int where "E_OK = 0"
definition E_NO_ACK :: int where "E_NO_ACK = 1"
definition E_SAME_ORD :: int where "E_SAME_ORD = 3"
definition E_OPS :: int where "E_OPS = 5"
definition E_NO_ORDER :: int where "E_NO_ORDER = 7"
definition E_RMS_DPR :: int where "E_RMS_DPR = 8"

definition ErrorName :: "int \<Rightarrow> string" where
  "ErrorName code =
     (if code = E_OK then ''E_OK'' else if code = E_NO_ACK then ''E_NO_ACK'' else if code = E_SAME_ORD then ''E_SAME_ORD''
      else if code = E_NO_ORDER then ''E_NO_ORDER'' else if code = E_RMS_DPR then ''E_RMS_DPR''
      else if code = E_OPS then ''E_OPS'' else ''E_UNKNOWN'')"

fun side_code :: "enOrdSide \<Rightarrow> int" where
  "side_code SIDE_BUY = 1"
| "side_code SIDE_SELL = 2"

definition Key :: "SymbolIdType \<Rightarrow> enOrdSide \<Rightarrow> u8 \<Rightarrow> int" where
  "Key sid side index = (push_bit 16 sid OR push_bit 8 (side_code side)) OR uint index"

definition ConnectImpl_sendOrder :: "Quote \<Rightarrow> bool \<Rightarrow> ConnectImpl \<Rightarrow> bool \<times> ConnectImpl" where
  "ConnectImpl_sendOrder q ioc ci =
     (let key = Key (qt_symId q) (qt_side q) (qt_index q);
          slot = ci_orders ci key;
          cancel = (qt_price q = 0 \<or> qt_qty q = 0);
          send = (\<lambda>slot type. (True, ci\<lparr>ci_orders := (ci_orders ci)(key := slot), ci_last_error := E_OK,
                     ci_sent := ci_sent ci @ [\<lparr>so_quote = q, so_ioc = ioc, so_type = type\<rparr>]\<rparr>));
          fail = (\<lambda>err. (False, ci\<lparr>ci_last_error := err\<rparr>))
      in if os_state slot = UNACKED \<or> os_state slot = STANDING_UNACKED then fail E_NO_ACK
         else if cancel
         then if os_state slot = NO_ORDER then fail E_NO_ORDER
              else send (slot\<lparr>os_state := STANDING_UNACKED, os_pending_cancel := True\<rparr>) CHR ''X''
         else if os_state slot = STANDING_ACKED
         then if qt_price (os_quote slot) = qt_price q \<and> qt_qty (os_quote slot) = qt_qty q then fail E_SAME_ORD
              else if qt_minPriceChange q > 0 \<and> \<bar>qt_price q - qt_price (os_quote slot)\<bar> < qt_minPriceChange q
              then fail E_SAME_ORD
              else send (slot\<lparr>os_quote := q, os_state := STANDING_UNACKED\<rparr>) CHR ''R''
         else send (slot\<lparr>os_quote := q, os_state := (if ioc then NO_ORDER else UNACKED)\<rparr>) CHR ''N'')"

definition ConnectImpl_getStandingOrder :: "ConnectImpl \<Rightarrow> SymbolIdType \<Rightarrow> enOrdSide \<Rightarrow> u8 \<Rightarrow> bool" where
  "ConnectImpl_getStandingOrder ci sid side index \<longleftrightarrow> os_state (ci_orders ci (Key sid side index)) \<noteq> NO_ORDER"

text \<open>The exchange acknowledges every request in flight.\<close>

definition ack_slot :: "OrderSlot \<Rightarrow> OrderSlot" where
  "ack_slot slot =
     (if os_state slot = UNACKED \<or> os_state slot = STANDING_UNACKED
      then slot\<lparr>os_state := (if os_pending_cancel slot then NO_ORDER else STANDING_ACKED), os_pending_cancel := False\<rparr>
      else slot)"

definition test_ackAll :: "ConnectImpl \<Rightarrow> ConnectImpl" where
  "test_ackAll ci = ci\<lparr>ci_orders := ack_slot \<circ> ci_orders ci\<rparr>"

definition mock_impl :: "ConnectImpl Impl" where
  "mock_impl = \<lparr>
     im_init = (\<lambda>_ ci. ci\<lparr>ci_inited := True\<rparr>), im_running = ci_running, im_getMtick = ci_ticks,
     im_getDprLow = (\<lambda>ci sid. case ci_dpr ci sid of None \<Rightarrow> 0 | Some (lo, hi) \<Rightarrow> lo),
     im_getDprHigh = (\<lambda>ci sid. case ci_dpr ci sid of None \<Rightarrow> 2 ^ 30 | Some (lo, hi) \<Rightarrow> hi),
     im_getSymInfo = ci_syminfo, im_sendOrder = ConnectImpl_sendOrder, im_getStandingOrder = ConnectImpl_getStandingOrder,
     im_getError = (\<lambda>ci. ErrorName (ci_last_error ci)), im_getErrorCode = ci_last_error,
     im_getOpsConsumed = ci_ops_consumed, im_getTotalOps = ci_total_ops, im_getSeconds = ci_seconds,
     im_getMaxInventory = (\<lambda>ci sid. case ci_max_inv ci sid of None \<Rightarrow> 2 ^ 20 | Some v \<Rightarrow> v), im_getInventory = ci_inventory,
     im_readGConfig = ci_gconfig, im_logMsg = (\<lambda>msg ci. ci\<lparr>ci_log := ci_log ci @ [msg]\<rparr>),
     im_E_NO_ACK = E_NO_ACK, im_E_SAME_ORD = E_SAME_ORD\<rparr>"

lemma mock_send_fields:
  assumes "ConnectImpl_sendOrder q ioc ci = (ok, ci')"
  shows "ci_ticks ci' = ci_ticks ci" "ci_dpr ci' = ci_dpr ci" "ci_inventory ci' = ci_inventory ci" "ci_max_inv ci' = ci_max_inv ci"
    "ci_running ci' = ci_running ci" "ci_seconds ci' = ci_seconds ci"
  using assms by (auto simp: ConnectImpl_sendOrder_def Let_def split: if_splits)

interpretation mock: quiet_platform mock_impl
proof (unfold_locales, goal_cases)
  case (1 q ioc p)
  then show ?case
    using mock_send_fields [of q ioc p] by (cases "ConnectImpl_sendOrder q ioc p") (simp add: market_view_def mock_impl_def)
next
  case (2 msg p)
  then show ?case by (simp add: market_view_def mock_impl_def)
qed

text \<open>Keys of different slots differ.\<close>

lemma bit_side_code: "bit (side_code side) n \<longleftrightarrow> (side = SIDE_BUY \<and> n = 0) \<or> (side = SIDE_SELL \<and> n = 1)"
  using bit_exp_iff [of 1 n, where 'a = int] by (cases side) (auto simp: bit_1_iff)

lemma bit_Key: "bit (Key sid side index) n \<longleftrightarrow>
    16 \<le> n \<and> bit sid (n - 16) \<or> (side = SIDE_BUY \<and> n = 8) \<or> (side = SIDE_SELL \<and> n = 9) \<or> bit index n"
  by (auto simp: Key_def bit_or_iff bit_push_bit_iff bit_side_code bit_uint_iff dest: bit_imp_le_length)

lemma Key_inj: "Key sid side 0 = Key sid' side' 0 \<longleftrightarrow> sid = sid' \<and> side = side'"
proof
  assume eq: "Key sid side 0 = Key sid' side' 0"
  have "bit sid n \<longleftrightarrow> bit sid' n" for n
    using arg_cong [OF eq, of "\<lambda>k. bit k (n + 16)"] by (simp add: bit_Key)
  then have "sid = sid'" by (simp add: bit_eq_iff)
  moreover have "side = side'"
    using arg_cong [OF eq, of "\<lambda>k. bit k 8"] by (cases side; cases side') (simp_all add: bit_Key)
  ultimately show "sid = sid' \<and> side = side'" by simp
qed simp

end
