(* ===== verification/Irage_Strategy.thy ===== *)
theory Irage_Strategy
  imports Irage_Platform Quoting_Math Symbol_Master Fp64
begin

text \<open>
  The adapter strategy \<open>strat_1\<close> of \<^verbatim>\<open>irage/mystrat.h\<close> and \<^verbatim>\<open>irage/mystrat.cpp\<close>: configuration, the
  market-data callback with its guards, the execution callbacks, live parameter updates and the two reports.

  Every definition that calls the platform takes its operations \<open>im\<close> and threads its state. Exceptions
  are values of \<open>strat_error\<close>. The counters are atomics of type \<open>long long\<close>, whose arithmetic wraps.
\<close>

subsection \<open>State\<close>

record SymState =
  sy_id :: SymbolIdType
  sy_tick_size :: int
  sy_lot_size :: int
  sy_rejects_buy :: int
  sy_rejects_sell :: int
  sy_last_mid :: int
  sy_last_bid_quote :: int
  sy_last_ask_quote :: int

definition SymState_default :: SymState where
  "SymState_default = \<lparr>sy_id = 0, sy_tick_size = 1, sy_lot_size = 1, sy_rejects_buy = 0, sy_rejects_sell = 0, sy_last_mid = 0,
     sy_last_bid_quote = 0, sy_last_ask_quote = 0\<rparr>"

definition kMaxSymbols :: int where "kMaxSymbols = 16"

definition kMaxConsecutiveRejects :: int where "kMaxConsecutiveRejects = 3"

definition kOpsHeadroom :: rat where "kOpsHeadroom = fl (8 / 10)"

record strat_1 =
  sg_max_spread_ticks :: int
  sg_inv_skew_ticks :: int
  sg_flow_skew_ticks :: int
  sg_quote_lots :: int
  sg_preclose_ist_sod :: int
  sg_sym_count :: int
  sg_syms :: "nat \<Rightarrow> SymState"
  sg_cash_paise :: int
  sg_fills :: int
  sg_orders_sent :: int
  sg_killed :: bool
  sg_metrics_path :: string

definition strat_1_default :: strat_1 where
  "strat_1_default = \<lparr>sg_max_spread_ticks = 3, sg_inv_skew_ticks = 2, sg_flow_skew_ticks = 1, sg_quote_lots = 1,
     sg_preclose_ist_sod = 15 * 3600 + 25 * 60, sg_sym_count = 0, sg_syms = (\<lambda>_. SymState_default), sg_cash_paise = 0,
     sg_fills = 0, sg_orders_sent = 0, sg_killed = False, sg_metrics_path = []\<rparr>"

definition upd_sym :: "nat \<Rightarrow> (SymState \<Rightarrow> SymState) \<Rightarrow> strat_1 \<Rightarrow> strat_1" where
  "upd_sym i f st = st\<lparr>sg_syms := (sg_syms st)(i := f (sg_syms st i))\<rparr>"

subsection \<open>Reading numbers\<close>

datatype strat_error = InvalidArgument | OutOfRange | RuntimeError string

text \<open>\<open>std::stoi\<close> and \<open>std::stol\<close>: white space, a sign, digits; what follows the digits is ignored.\<close>

definition parse_long :: "string \<Rightarrow> int option" where
  "parse_long s =
     (let body = (case dropWhile isspace s of [] \<Rightarrow> [] | c # cs \<Rightarrow> if c = CHR ''-'' \<or> c = CHR ''+'' then cs else c # cs)
      in case body of [] \<Rightarrow> None
         | c # _ \<Rightarrow> if digit_value c = None then None
                   else case scan_number s of (neg, v) \<Rightarrow> Some (if neg then - int v else int v))"

definition stoi :: "string \<Rightarrow> strat_error + int" where
  "stoi s = (case parse_long s of None \<Rightarrow> Inl InvalidArgument | Some v \<Rightarrow> if in_i32 v then Inr v else Inl OutOfRange)"

definition stol :: "string \<Rightarrow> strat_error + int" where
  "stol s = (case parse_long s of None \<Rightarrow> Inl InvalidArgument | Some v \<Rightarrow> if in_i64 v then Inr v else Inl OutOfRange)"

text \<open>The subscript operator of a map yields an empty string for an absent key.\<close>

definition map_at :: "('k \<rightharpoonup> string) \<Rightarrow> 'k \<Rightarrow> string" where
  "map_at m k = (case m k of None \<Rightarrow> [] | Some s \<Rightarrow> s)"

subsection \<open>Configuration\<close>

definition init_sym :: "'p Impl \<Rightarrow> 'p \<Rightarrow> (int \<rightharpoonup> string) \<Rightarrow> nat \<Rightarrow> SymState \<Rightarrow> strat_error + SymState" where
  "init_sym im p configMap i s =
     (case stol (map_at configMap (751 + int i)) of Inl e \<Rightarrow> Inl e
      | Inr v \<Rightarrow>
          (let curr_id = to_i32 v
           in case im_getSymInfo im p curr_id of None \<Rightarrow> Inl (RuntimeError ''Symbol not found in syminfo'')
              | Some syminfo \<Rightarrow>
                  (case stoi (map_at syminfo ''tick_size'') of Inl e \<Rightarrow> Inl e
                   | Inr tick \<Rightarrow>
                       (case stoi (map_at syminfo ''lot_size'') of Inl e \<Rightarrow> Inl e
                        | Inr lot \<Rightarrow> Inr (s\<lparr>sy_id := curr_id, sy_tick_size := (if tick \<le> 0 then 1 else tick),
                                          sy_lot_size := (if lot \<le> 0 then 1 else lot)\<rparr>)))))"

fun init_syms :: "'p Impl \<Rightarrow> 'p \<Rightarrow> (int \<rightharpoonup> string) \<Rightarrow> nat list \<Rightarrow> (nat \<Rightarrow> SymState) \<Rightarrow> strat_error + (nat \<Rightarrow> SymState)" where
  "init_syms im p configMap [] syms = Inr syms"
| "init_syms im p configMap (i # is) syms =
     (case init_sym im p configMap i (syms i) of Inl e \<Rightarrow> Inl e
      | Inr s \<Rightarrow> init_syms im p configMap is (syms(i := s)))"

text \<open>\<open>operator[]\<close> adds an empty entry for a key that is missing, but the number scanner then throws on the empty text, so that
  the map handed to the platform is the one given. An exception leaves \<open>initialize\<close> before the strategy is configured; the
  model returns the exception and not the partly written symbols.\<close>

definition initialize :: "'p Impl \<Rightarrow> (int \<rightharpoonup> string) \<Rightarrow> strat_1 \<Rightarrow> 'p \<Rightarrow> strat_error + strat_1 \<times> 'p" where
  "initialize im configMap st p =
     (case stoi (map_at configMap 16) of Inl e \<Rightarrow> Inl e
      | Inr n \<Rightarrow>
          (let n = (if n > kMaxSymbols then kMaxSymbols else n)
           in case init_syms im p configMap [0..<nat n] (sg_syms st) of Inl e \<Rightarrow> Inl e
              | Inr syms \<Rightarrow>
                  (let p = im_init im configMap p;
                       st = st\<lparr>sg_sym_count := n, sg_syms := syms\<rparr>
                   in case im_readGConfig im p ''MetricsJsonlPath'' of None \<Rightarrow> Inr (st, p)
                      | Some path \<Rightarrow> Inr (st\<lparr>sg_metrics_path := path\<rparr>, p))))"

subsection \<open>Helpers\<close>

fun find_sym :: "(nat \<Rightarrow> SymState) \<Rightarrow> SymbolIdType \<Rightarrow> nat list \<Rightarrow> nat option" where
  "find_sym syms sid [] = None"
| "find_sym syms sid (i # is) = (if sy_id (syms i) = sid then Some i else find_sym syms sid is)"

definition FindSym :: "strat_1 \<Rightarrow> SymbolIdType \<Rightarrow> nat option" where
  "FindSym st sid = find_sym (sg_syms st) sid [0..<nat (sg_sym_count st)]"

definition IstSecondsOfDay :: "'p Impl \<Rightarrow> 'p \<Rightarrow> int" where
  "IstSecondsOfDay im p = to_i32 ((im_getSeconds im p + 19800) smod 86400)"

definition sanityCheck :: "MTICK \<Rightarrow> bool" where
  "sanityCheck tick \<longleftrightarrow> mt_bid_size tick 0 > 0 \<and> mt_ask_size tick 0 > 0"

definition QuoteSide :: "'p Impl \<Rightarrow> SymState \<Rightarrow> enOrdSide \<Rightarrow> int \<Rightarrow> int \<Rightarrow> strat_1 \<times> 'p \<Rightarrow> bool \<times> strat_1 \<times> 'p" where
  "QuoteSide im s side price qty = (\<lambda>(st, p).
     let q = \<lparr>qt_symId = sy_id s, qt_price = price, qt_qty = qty, qt_side = side, qt_index = 0,
              qt_minPriceChange = sy_tick_size s\<rparr>;
         (ok, p) = im_sendOrder im q False p
     in if ok then (True, st\<lparr>sg_orders_sent := to_i64 (sg_orders_sent st + 1)\<rparr>, p)
        else let err = im_getErrorCode im p
             in (False, st, if err \<noteq> im_E_NO_ACK im \<and> err \<noteq> im_E_SAME_ORD im
                            then im_logMsg im (''sendOrder failed: '' @ im_getError im p) p else p))"

definition cancel_quote :: "SymbolIdType \<Rightarrow> enOrdSide \<Rightarrow> Quote" where
  "cancel_quote sid side = Quote_default\<lparr>qt_symId := sid, qt_side := side\<rparr>"

definition strat_1_CancelSide :: "'p Impl \<Rightarrow> SymState \<Rightarrow> enOrdSide \<Rightarrow> 'p \<Rightarrow> 'p" where
  "strat_1_CancelSide im s side p =
     (if \<not> im_getStandingOrder im p (sy_id s) side 0 then p
      else snd (im_sendOrder im (cancel_quote (sy_id s) side) False p))"

definition cancel_both :: "'p Impl \<Rightarrow> SymState \<Rightarrow> 'p \<Rightarrow> 'p" where
  "cancel_both im s p = strat_1_CancelSide im s SIDE_SELL (strat_1_CancelSide im s SIDE_BUY p)"

definition CancelAll :: "'p Impl \<Rightarrow> strat_1 \<Rightarrow> 'p \<Rightarrow> 'p" where
  "CancelAll im st p = fold (\<lambda>i. cancel_both im (sg_syms st i)) [0..<nat (sg_sym_count st)] p"

subsection \<open>The market-data callback\<close>

definition ops_headroom :: "'p Impl \<Rightarrow> 'p \<Rightarrow> bool" where
  "ops_headroom im p =
     (let total_ops = im_getTotalOps im p
      in total_ops \<le> 0 \<or> im_getOpsConsumed im p < \<lfloor>fl (of_int total_ops * kOpsHeadroom)\<rfloor>)"

text \<open>Prices and permissions of the two sides: bid price, bid allowed, ask price, ask allowed.\<close>

definition side_decisions :: "'p Impl \<Rightarrow> 'p \<Rightarrow> strat_1 \<Rightarrow> SymState \<Rightarrow> MTICK \<Rightarrow> int \<times> bool \<times> int \<times> bool" where
  "side_decisions im p st s t =
     (let position = im_getInventory im p (sy_id s);
          max_pos_units = im_getMaxInventory im p (sy_id s) * sy_lot_size s;
          dq = desired_quotes (mt_bid t 0) (mt_ask t 0) (sy_tick_size s) (mt_bid_size t 0) (mt_ask_size t 0) position
                 max_pos_units (sg_inv_skew_ticks st) (sg_flow_skew_ticks st);
          bid_px = to_i32 (dq_bid_price dq);
          ask_px = to_i32 (dq_ask_price dq);
          dpr_lo = im_getDprLow im p (sy_id s);
          dpr_hi = im_getDprHigh im p (sy_id s);
          (bid_px, bid_ok, ask_px, ask_ok) =
            (if dpr_hi > 0 \<and> dpr_hi > dpr_lo
             then let bid_px = (if bid_px < dpr_lo
                                then ((dpr_lo + sy_tick_size s - 1) sdiv sy_tick_size s) * sy_tick_size s else bid_px);
                      ask_px = (if ask_px > dpr_hi then (dpr_hi sdiv sy_tick_size s) * sy_tick_size s else ask_px)
                  in (bid_px, \<not> bid_px > dpr_hi, ask_px, \<not> ask_px < dpr_lo)
             else (bid_px, True, ask_px, True));
          bid_ok = (bid_ok \<and> \<not> (max_pos_units > 0 \<and> position \<ge> max_pos_units));
          ask_ok = (ask_ok \<and> \<not> (max_pos_units > 0 \<and> position \<le> - max_pos_units));
          bid_ok = (bid_ok \<and> \<not> sy_rejects_buy s \<ge> kMaxConsecutiveRejects);
          ask_ok = (ask_ok \<and> \<not> sy_rejects_sell s \<ge> kMaxConsecutiveRejects)
      in (bid_px, bid_ok, ask_px, ask_ok))"

definition set_last_quote :: "enOrdSide \<Rightarrow> int \<Rightarrow> SymState \<Rightarrow> SymState" where
  "set_last_quote side px s =
     (case side of SIDE_BUY \<Rightarrow> s\<lparr>sy_last_bid_quote := px\<rparr> | SIDE_SELL \<Rightarrow> s\<lparr>sy_last_ask_quote := px\<rparr>)"

definition act_side :: "'p Impl \<Rightarrow> nat \<Rightarrow> bool \<Rightarrow> enOrdSide \<Rightarrow> int \<Rightarrow> bool \<Rightarrow> strat_1 \<times> 'p \<Rightarrow> strat_1 \<times> 'p" where
  "act_side im i ops_ok side px ok = (\<lambda>(st, p).
     let s = sg_syms st i
     in if ok \<and> ops_ok
        then let (sent, st, p) = QuoteSide im s side px (sg_quote_lots st * sy_lot_size s) (st, p)
             in (if sent then upd_sym i (set_last_quote side px) st else st, p)
        else if \<not> ok then (upd_sym i (set_last_quote side 0) st, strat_1_CancelSide im s side p)
        else (st, p))"

definition quote_symbol :: "'p Impl \<Rightarrow> bool \<Rightarrow> nat \<Rightarrow> strat_1 \<times> 'p \<Rightarrow> strat_1 \<times> 'p" where
  "quote_symbol im ops_ok i = (\<lambda>(st, p).
     let s = sg_syms st i;
         t = im_getMtick im p (sy_id s)
     in if mt_bid_size t 0 \<le> 0 \<or> mt_ask_size t 0 \<le> 0 then (st, cancel_both im s p)
        else let st = upd_sym i (\<lambda>s. s\<lparr>sy_last_mid := (mt_bid t 0 + mt_ask t 0) sdiv 2\<rparr>) st;
                 s = sg_syms st i
             in if mt_ask t 0 - mt_bid t 0 > sg_max_spread_ticks st * sy_tick_size s then (st, cancel_both im s p)
                else let (bid_px, bid_ok, ask_px, ask_ok) = side_decisions im p st s t
                     in act_side im i ops_ok SIDE_SELL ask_px ask_ok (act_side im i ops_ok SIDE_BUY bid_px bid_ok (st, p)))"

definition onMarketData :: "'p Impl \<Rightarrow> strat_1 \<Rightarrow> 'p \<Rightarrow> int \<times> strat_1 \<times> 'p" where
  "onMarketData im st p =
     (if \<not> im_running im p then (1, st, p)
      else if sg_killed st then (1, st, CancelAll im st p)
      else if IstSecondsOfDay im p \<ge> sg_preclose_ist_sod st then (0, st, CancelAll im st p)
      else (0, fold (quote_symbol im (ops_headroom im p)) [0..<nat (sg_sym_count st)] (st, p)))"

subsection \<open>Execution callbacks\<close>

definition bump_rejects :: "EXEC_REPORT \<Rightarrow> (int \<Rightarrow> int) \<Rightarrow> strat_1 \<Rightarrow> strat_1" where
  "bump_rejects e f st =
     (case FindSym st (er_securityId e) of None \<Rightarrow> st
      | Some i \<Rightarrow> upd_sym i (\<lambda>s. if er_orderSide e = side_code SIDE_BUY then s\<lparr>sy_rejects_buy := f (sy_rejects_buy s)\<rparr>
                                  else s\<lparr>sy_rejects_sell := f (sy_rejects_sell s)\<rparr>) st)"

definition onAck :: "EXEC_REPORT \<Rightarrow> strat_1 \<Rightarrow> strat_1" where
  "onAck e st = bump_rejects e (\<lambda>_. 0) st"

definition notional :: "EXEC_REPORT \<Rightarrow> int" where
  "notional e = er_fillQty e * er_price e"

definition onExec :: "EXEC_REPORT \<Rightarrow> strat_1 \<Rightarrow> strat_1" where
  "onExec e st =
     (let st = st\<lparr>sg_fills := to_i64 (sg_fills st + 1)\<rparr>;
          st = (if er_orderSide e = side_code SIDE_BUY then st\<lparr>sg_cash_paise := to_i64 (sg_cash_paise st - notional e)\<rparr>
                else st\<lparr>sg_cash_paise := to_i64 (sg_cash_paise st + notional e)\<rparr>)
      in bump_rejects e (\<lambda>_. 0) st)"

definition onCxl :: "EXEC_REPORT \<Rightarrow> strat_1 \<Rightarrow> strat_1" where
  "onCxl e st = st"

definition onRej :: "'p Impl \<Rightarrow> EXEC_REPORT \<Rightarrow> strat_1 \<times> 'p \<Rightarrow> strat_1 \<times> 'p" where
  "onRej im e = (\<lambda>(st, p).
     case FindSym st (er_securityId e) of None \<Rightarrow> (st, p)
     | Some i \<Rightarrow> (bump_rejects e (\<lambda>n. n + 1) st,
         im_logMsg im (''REJ sym='' @ dec_int (er_securityId e) @ '' side='' @ dec_int (er_orderSide e) @
           '' code='' @ dec_int (er_rejCode e)) p))"

definition onRplRej :: "'p Impl \<Rightarrow> EXEC_REPORT \<Rightarrow> strat_1 \<times> 'p \<Rightarrow> strat_1 \<times> 'p" where
  "onRplRej im e = onRej im e"

definition onLighteningRej :: "'p Impl \<Rightarrow> EXEC_REPORT \<Rightarrow> strat_1 \<times> 'p \<Rightarrow> strat_1 \<times> 'p" where
  "onLighteningRej im e = onRej im e"

subsection \<open>Live parameters and reports\<close>

definition kMaxSpreadTicks_flid :: int where "kMaxSpreadTicks_flid = 9800"
definition kInvSkewTicks_flid :: int where "kInvSkewTicks_flid = 9801"
definition kFlowSkewTicks_flid :: int where "kFlowSkewTicks_flid = 9802"
definition kQuoteLots_flid :: int where "kQuoteLots_flid = 9803"
definition kKillSwitch_flid :: int where "kKillSwitch_flid = 9804"

definition apply_flid :: "int \<Rightarrow> int \<Rightarrow> strat_1 \<Rightarrow> strat_1" where
  "apply_flid key v st =
     (if key = kMaxSpreadTicks_flid then st\<lparr>sg_max_spread_ticks := v\<rparr>
      else if key = kInvSkewTicks_flid then st\<lparr>sg_inv_skew_ticks := v\<rparr>
      else if key = kFlowSkewTicks_flid then st\<lparr>sg_flow_skew_ticks := v\<rparr>
      else if key = kQuoteLots_flid then st\<lparr>sg_quote_lots := v\<rparr>
      else if key = kKillSwitch_flid then st\<lparr>sg_killed := (v \<noteq> 0)\<rparr>
      else st)"

definition known_flid :: "int \<Rightarrow> bool" where
  "known_flid key \<longleftrightarrow>
     key \<in> {kMaxSpreadTicks_flid, kInvSkewTicks_flid, kFlowSkewTicks_flid, kQuoteLots_flid, kKillSwitch_flid}"

text \<open>The entries come in the order of their keys; an exception leaves the entries before it applied.\<close>

fun update :: "(int \<times> string) list \<Rightarrow> strat_1 \<Rightarrow> strat_error option \<times> strat_1" where
  "update [] st = (None, st)"
| "update ((key, val) # entries) st =
     (if known_flid key
      then case stoi val of Inl e \<Rightarrow> (Some e, st) | Inr v \<Rightarrow> update entries (apply_flid key v st)
      else update entries st)"

definition ui_field :: "int \<Rightarrow> int \<Rightarrow> string" where
  "ui_field flid v = dec_int flid @ ''='' @ dec_int v @ ''^''"

definition getUIData :: "'p Impl \<Rightarrow> 'p \<Rightarrow> SymbolIdType \<Rightarrow> strat_1 \<Rightarrow> string" where
  "getUIData im p symbol_id st =
     (case FindSym st symbol_id of None \<Rightarrow> []
      | Some i \<Rightarrow>
          (let s = sg_syms st i;
               position = im_getInventory im p symbol_id;
               pnl = sg_cash_paise st + position * sy_last_mid s
           in ui_field 9810 position @ ui_field 9811 (sy_last_bid_quote s) @ ui_field 9812 (sy_last_ask_quote s) @
              ui_field 9813 (sg_fills st) @ ui_field 9814 pnl))"

text \<open>The position and its value over all symbols, and the line appended to the metrics file; the
  first argument says whether the file could be opened.\<close>

definition total_position :: "'p Impl \<Rightarrow> 'p \<Rightarrow> strat_1 \<Rightarrow> int" where
  "total_position im p st = (\<Sum>i\<leftarrow>[0..<nat (sg_sym_count st)]. im_getInventory im p (sy_id (sg_syms st i)))"

definition mark_value :: "'p Impl \<Rightarrow> 'p \<Rightarrow> strat_1 \<Rightarrow> int" where
  "mark_value im p st =
     (\<Sum>i\<leftarrow>[0..<nat (sg_sym_count st)]. im_getInventory im p (sy_id (sg_syms st i)) * sy_last_mid (sg_syms st i))"

definition metric_field :: "string \<Rightarrow> string \<Rightarrow> string" where
  "metric_field name v = CHR 0x22 # name @ [CHR 0x22, CHR '':''] @ v"

definition onTimerUpdate :: "bool \<Rightarrow> 'p Impl \<Rightarrow> 'p \<Rightarrow> strat_1 \<Rightarrow> string" where
  "onTimerUpdate is_open im p st =
     (if sg_metrics_path st = [] then []
      else let pnl_inr = (sg_cash_paise st + mark_value im p st) sdiv 100
           in if \<not> is_open then []
              else ''{'' @ metric_field ''t'' (dec_int (im_getSeconds im p)) @ '','' @ metric_field ''events'' ''0'' @
                '','' @ metric_field ''orders_sent'' (dec_int (sg_orders_sent st)) @ '','' @ metric_field ''orders_rejected'' ''0'' @
                '','' @ metric_field ''fills'' (dec_int (sg_fills st)) @
                '','' @ metric_field ''position'' (dec_int (total_position im p st)) @
                '','' @ metric_field ''pnl_inr'' (dec_int pnl_inr) @ '','' @ metric_field ''lat_p50'' ''0'' @
                '','' @ metric_field ''lat_p99'' ''0'' @ '','' @ metric_field ''lat_p999'' ''0'' @ ''}'' @ [CHR 0x0A])"

subsection \<open>Well-formed states\<close>

definition strat_ok :: "strat_1 \<Rightarrow> bool" where
  "strat_ok st \<longleftrightarrow> sg_sym_count st \<le> kMaxSymbols \<and>
     (\<forall>i < nat (sg_sym_count st). 0 < sy_tick_size (sg_syms st i) \<and> 0 < sy_lot_size (sg_syms st i) \<and>
        0 \<le> sy_rejects_buy (sg_syms st i) \<and> 0 \<le> sy_rejects_sell (sg_syms st i))"

text \<open>What the configuration fixed of a symbol, and the part of a symbol's state that quoting does not touch.\<close>

definition instrument :: "SymState \<Rightarrow> SymbolIdType \<times> int \<times> int" where
  "instrument s = (sy_id s, sy_tick_size s, sy_lot_size s)"

definition sym_core :: "SymState \<Rightarrow> (SymbolIdType \<times> int \<times> int) \<times> int \<times> int" where
  "sym_core s = (instrument s, sy_rejects_buy s, sy_rejects_sell s)"

definition same_core :: "strat_1 \<Rightarrow> strat_1 \<Rightarrow> bool" where
  "same_core st st' \<longleftrightarrow> sg_sym_count st' = sg_sym_count st \<and> sym_core \<circ> sg_syms st' = sym_core \<circ> sg_syms st \<and>
     sg_max_spread_ticks st' = sg_max_spread_ticks st \<and> sg_inv_skew_ticks st' = sg_inv_skew_ticks st \<and>
     sg_flow_skew_ticks st' = sg_flow_skew_ticks st \<and> sg_quote_lots st' = sg_quote_lots st \<and>
     sg_preclose_ist_sod st' = sg_preclose_ist_sod st \<and> sg_killed st' = sg_killed st \<and>
     sg_cash_paise st' = sg_cash_paise st \<and> sg_fills st' = sg_fills st"

lemma same_core_refl [simp]: "same_core st st"
  by (simp add: same_core_def)

lemma same_core_trans: "same_core st st1 \<Longrightarrow> same_core st1 st2 \<Longrightarrow> same_core st st2"
  by (simp add: same_core_def)

lemma same_core_upd: "(\<And>s. sym_core (f s) = sym_core s) \<Longrightarrow> same_core st (upd_sym i f st)"
  by (auto simp: same_core_def upd_sym_def fun_eq_iff)

lemma same_core_sym: "same_core st st' \<Longrightarrow> sym_core (sg_syms st' i) = sym_core (sg_syms st i)"
  by (auto simp: same_core_def fun_eq_iff)

lemma same_core_ok: "same_core st st' \<Longrightarrow> strat_ok st' = strat_ok st"
  using same_core_sym [of st st'] by (simp add: strat_ok_def same_core_def sym_core_def instrument_def)

lemma set_last_quote_core [simp]: "sym_core (set_last_quote side px s) = sym_core s"
  by (cases side) (simp_all add: set_last_quote_def sym_core_def instrument_def)

lemma act_side_core: "same_core st (fst (act_side im i ops_ok side px ok (st, p)))"
proof -
  have q: "same_core st (fst (snd (QuoteSide im s side px n (st, p))))" for s n
    by (simp add: QuoteSide_def split_beta Let_def same_core_def)
  have "same_core st (upd_sym i (set_last_quote side px) (fst (snd (QuoteSide im s side px n (st, p)))))" for s n
    by (rule same_core_trans [OF q same_core_upd]) simp
  with q show ?thesis by (auto simp: act_side_def split_beta Let_def same_core_upd)
qed

lemma quote_symbol_core: "same_core st (fst (quote_symbol im ops_ok i (st, p)))"
proof -
  let ?t = "im_getMtick im p (sy_id (sg_syms st i))"
  let ?st = "upd_sym i (\<lambda>s. s\<lparr>sy_last_mid := (mt_bid ?t 0 + mt_ask ?t 0) sdiv 2\<rparr>) st"
  have m: "same_core st ?st" by (intro same_core_upd) (simp add: sym_core_def instrument_def)
  have a: "same_core ?st (fst (act_side im i ops_ok SIDE_SELL x y (act_side im i ops_ok SIDE_BUY u v (?st, p))))" for x y u v
    using act_side_core [of ?st im i ops_ok SIDE_BUY u v p]
      act_side_core [of "fst (act_side im i ops_ok SIDE_BUY u v (?st, p))" im i ops_ok SIDE_SELL x y "snd (act_side im i ops_ok SIDE_BUY u v (?st, p))"]
    by (auto intro: same_core_trans)
  show ?thesis
    using m same_core_trans [OF m a] by (simp add: quote_symbol_def Let_def split_beta)
qed

lemma quote_all_core: "same_core st (fst (fold (quote_symbol im ops_ok) is (st, p)))"
proof (induction "is" arbitrary: st p)
  case (Cons i "is")
  show ?case
    using same_core_trans [OF quote_symbol_core [of st im ops_ok i p] Cons.IH [of "fst (quote_symbol im ops_ok i (st, p))" "snd (quote_symbol im ops_ok i (st, p))"]]
    by simp
qed simp

lemma onMarketData_core: "same_core st (fst (snd (onMarketData im st p)))"
  by (simp add: onMarketData_def quote_all_core)

lemma find_sym_mem: "find_sym syms sid is = Some i \<Longrightarrow> i \<in> set is \<and> sy_id (syms i) = sid"
  by (induction "is") (auto split: if_splits)

lemma bump_rejects_ok:
  assumes "\<And>n. 0 \<le> n \<Longrightarrow> 0 \<le> f n"
  shows "strat_ok st \<Longrightarrow> strat_ok (bump_rejects e f st)"
    and "instrument \<circ> sg_syms (bump_rejects e f st) = instrument \<circ> sg_syms st"
    and "sg_cash_paise (bump_rejects e f st) = sg_cash_paise st" "sg_fills (bump_rejects e f st) = sg_fills st"
    and "sg_sym_count (bump_rejects e f st) = sg_sym_count st"
  using assms by (auto simp: bump_rejects_def strat_ok_def upd_sym_def fun_eq_iff instrument_def split: option.split)

text \<open>The callbacks, with the platform's state at the call.\<close>

datatype 'p callback = OnMarketData 'p | OnAck EXEC_REPORT | OnExec EXEC_REPORT | OnCxl EXEC_REPORT | OnRej EXEC_REPORT 'p
  | Update "(int \<times> string) list"

fun strat_exec :: "'p Impl \<Rightarrow> 'p callback \<Rightarrow> strat_1 \<Rightarrow> strat_1" where
  "strat_exec im (OnMarketData p) st = fst (snd (onMarketData im st p))"
| "strat_exec im (OnAck e) st = onAck e st"
| "strat_exec im (OnExec e) st = onExec e st"
| "strat_exec im (OnCxl e) st = onCxl e st"
| "strat_exec im (OnRej e p) st = fst (onRej im e (st, p))"
| "strat_exec im (Update entries) st = snd (update entries st)"

definition signed_notional :: "EXEC_REPORT \<Rightarrow> int" where
  "signed_notional e = (if er_orderSide e = side_code SIDE_BUY then - notional e else notional e)"

fun executions :: "'p callback list \<Rightarrow> EXEC_REPORT list" where
  "executions [] = []"
| "executions (OnExec e # cbs) = e # executions cbs"
| "executions (_ # cbs) = executions cbs"

lemma apply_flid_frame [simp]: "sg_syms (apply_flid key v st) = sg_syms st" "sg_sym_count (apply_flid key v st) = sg_sym_count st"
  "sg_cash_paise (apply_flid key v st) = sg_cash_paise st" "sg_fills (apply_flid key v st) = sg_fills st"
  by (simp_all add: apply_flid_def)

lemma update_frame: "strat_ok st \<Longrightarrow> strat_ok (snd (update entries st))"
  "sg_syms (snd (update entries st)) = sg_syms st" "sg_sym_count (snd (update entries st)) = sg_sym_count st"
  "sg_cash_paise (snd (update entries st)) = sg_cash_paise st" "sg_fills (snd (update entries st)) = sg_fills st"
proof -
  have f: "sg_syms (snd (update entries st)) = sg_syms st \<and> sg_sym_count (snd (update entries st)) = sg_sym_count st \<and>
      sg_cash_paise (snd (update entries st)) = sg_cash_paise st \<and> sg_fills (snd (update entries st)) = sg_fills st"
    by (induction entries st rule: update.induct) (simp_all split: sum.split)
  then show "strat_ok st \<Longrightarrow> strat_ok (snd (update entries st))"
    "sg_syms (snd (update entries st)) = sg_syms st" "sg_sym_count (snd (update entries st)) = sg_sym_count st"
    "sg_cash_paise (snd (update entries st)) = sg_cash_paise st" "sg_fills (snd (update entries st)) = sg_fills st"
    by (auto simp: strat_ok_def)
qed

lemma strat_exec_ok: "strat_ok st \<Longrightarrow> strat_ok (strat_exec im cb st)"
proof (cases cb)
  case (OnMarketData p)
  then show "strat_ok st \<Longrightarrow> ?thesis" using same_core_ok [OF onMarketData_core [of st im p]] by simp
next
  case (OnExec e)
  then show "strat_ok st \<Longrightarrow> ?thesis"
    by (auto simp: onExec_def Let_def strat_ok_def intro!: bump_rejects_ok(1) [unfolded strat_ok_def])
qed (auto simp: onAck_def onCxl_def onRej_def update_frame intro!: bump_rejects_ok(1) split: option.split)

interpretation ir: op_machine "strat_exec im" strat_ok for im
  by unfold_locales (rule strat_exec_ok)

lemma init_sym_ok: "init_sym im p cfg i s = Inr s' \<Longrightarrow> 0 < sy_tick_size s' \<and> 0 < sy_lot_size s' \<and>
    sy_rejects_buy s' = sy_rejects_buy s \<and> sy_rejects_sell s' = sy_rejects_sell s"
  by (auto simp: init_sym_def Let_def split: sum.splits option.splits)

lemma init_syms_ok:
  "init_syms im p cfg is syms = Inr syms' \<Longrightarrow>
    (\<forall>i \<in> set is \<union> A. 0 < sy_tick_size (syms' i) \<and> 0 < sy_lot_size (syms' i)) \<and>
    (\<forall>i. sy_rejects_buy (syms' i) = sy_rejects_buy (syms i) \<and> sy_rejects_sell (syms' i) = sy_rejects_sell (syms i))"
  if "\<forall>i \<in> A. 0 < sy_tick_size (syms i) \<and> 0 < sy_lot_size (syms i)"
  using that
proof (induction im p cfg "is" syms arbitrary: A rule: init_syms.induct)
  case (2 im p cfg i "is" syms)
  obtain s where s: "init_sym im p cfg i (syms i) = Inr s" "init_syms im p cfg is (syms(i := s)) = Inr syms'"
    using 2(2) by (auto split: sum.splits)
  have "\<forall>j \<in> insert i A. 0 < sy_tick_size ((syms(i := s)) j) \<and> 0 < sy_lot_size ((syms(i := s)) j)"
    using 2(3) init_sym_ok [OF s(1)] by simp
  from 2(1) [OF s this] init_sym_ok [OF s(1)] show ?case by (auto split: if_splits)
qed simp

lemma initialize_ok:
  assumes "initialize im cfg strat_1_default p = Inr (st, p')"
  shows "strat_ok st" "sg_cash_paise st = 0" "sg_fills st = 0"
proof -
  obtain n syms where i: "init_syms im p cfg [0..<nat n] (sg_syms strat_1_default) = Inr syms" "n \<le> kMaxSymbols"
    "sg_sym_count st = n" "sg_syms st = syms" "sg_cash_paise st = 0" "sg_fills st = 0"
    using assms by (auto simp: initialize_def Let_def strat_1_default_def split: sum.splits option.splits if_splits)
  have "0 < sy_tick_size (syms j) \<and> 0 < sy_lot_size (syms j) \<and> sy_rejects_buy (syms j) = 0 \<and> sy_rejects_sell (syms j) = 0"
    if "j < nat n" for j
    using init_syms_ok [of "{}", OF _ i(1)] that by (simp add: strat_1_default_def SymState_default_def)
  then show "strat_ok st" using i by (simp add: strat_ok_def)
  show "sg_cash_paise st = 0" "sg_fills st = 0" using i by simp_all
qed

lemma to_i64_add: "to_i64 (to_i64 a + b) = to_i64 (a + b)"
  using signed_take_bit_add [of 63 "signed_take_bit 63 a" b] signed_take_bit_add [of 63 a b] by (simp add: to_i64_def)

lemma strat_exec_frame:
  "sg_sym_count (strat_exec im cb st) = sg_sym_count st" "instrument \<circ> sg_syms (strat_exec im cb st) = instrument \<circ> sg_syms st"
proof -
  have core: "sg_sym_count st' = sg_sym_count st \<and> instrument \<circ> sg_syms st' = instrument \<circ> sg_syms st" if "same_core st st'" for st'
    using same_core_sym [OF that] that by (auto simp: same_core_def sym_core_def fun_eq_iff)
  have b: "sg_sym_count (bump_rejects e (\<lambda>_. 0) st') = sg_sym_count st' \<and> instrument \<circ> sg_syms (bump_rejects e (\<lambda>_. 0) st') = instrument \<circ> sg_syms st'"
    "sg_sym_count (bump_rejects e (\<lambda>n. n + 1) st') = sg_sym_count st' \<and> instrument \<circ> sg_syms (bump_rejects e (\<lambda>n. n + 1) st') = instrument \<circ> sg_syms st'" for e st'
    using bump_rejects_ok(2,5) [of "\<lambda>_. 0"] bump_rejects_ok(2,5) [of "\<lambda>n. n + 1"] by auto
  have "sg_sym_count (strat_exec im cb st) = sg_sym_count st \<and> instrument \<circ> sg_syms (strat_exec im cb st) = instrument \<circ> sg_syms st"
    using core [OF onMarketData_core [of st im]] b
    by (cases cb) (auto simp: onAck_def onExec_def onCxl_def onRej_def Let_def update_frame split: option.split)
  then show "sg_sym_count (strat_exec im cb st) = sg_sym_count st" "instrument \<circ> sg_syms (strat_exec im cb st) = instrument \<circ> sg_syms st"
    by auto
qed

lemma strat_exec_cash:
  "sg_fills (strat_exec im cb st) = (case cb of OnExec e \<Rightarrow> to_i64 (sg_fills st + 1) | _ \<Rightarrow> sg_fills st)"
  "sg_cash_paise (strat_exec im cb st) = (case cb of OnExec e \<Rightarrow> to_i64 (sg_cash_paise st + signed_notional e) | _ \<Rightarrow> sg_cash_paise st)"
proof -
  have core: "sg_cash_paise (fst (snd (onMarketData im st p))) = sg_cash_paise st \<and> sg_fills (fst (snd (onMarketData im st p))) = sg_fills st" for p
    using onMarketData_core [of st im p] by (simp add: same_core_def)
  note b = bump_rejects_ok(3,4) [of "\<lambda>_. 0", simplified] bump_rejects_ok(3,4) [of "\<lambda>n. n + 1", simplified]
  show "sg_fills (strat_exec im cb st) = (case cb of OnExec e \<Rightarrow> to_i64 (sg_fills st + 1) | _ \<Rightarrow> sg_fills st)"
    "sg_cash_paise (strat_exec im cb st) = (case cb of OnExec e \<Rightarrow> to_i64 (sg_cash_paise st + signed_notional e) | _ \<Rightarrow> sg_cash_paise st)"
    using core b by (cases cb; auto simp: onAck_def onExec_def onCxl_def onRej_def Let_def update_frame signed_notional_def split: option.split)+
qed

lemma run_cash:
  assumes "sg_fills st = to_i64 n" "sg_cash_paise st = to_i64 c"
  shows "sg_fills (fold (strat_exec im) cbs st) = to_i64 (n + int (length (executions cbs))) \<and>
    sg_cash_paise (fold (strat_exec im) cbs st) = to_i64 (c + (\<Sum>e\<leftarrow>executions cbs. signed_notional e))"
  using assms
proof (induction cbs arbitrary: st n c)
  case (Cons cb cbs)
  show ?case
  proof (cases "\<exists>e. cb = OnExec e")
    case True
    then obtain e where e: "cb = OnExec e" by blast
    have "sg_fills (strat_exec im cb st) = to_i64 (n + 1)" "sg_cash_paise (strat_exec im cb st) = to_i64 (c + signed_notional e)"
      using Cons.prems unfolding strat_exec_cash e by (simp_all only: callback.case to_i64_add)
    from Cons.IH [OF this] show ?thesis by (simp add: e add.assoc)
  next
    case False
    have "sg_fills (strat_exec im cb st) = sg_fills st" "sg_cash_paise (strat_exec im cb st) = sg_cash_paise st"
      using False unfolding strat_exec_cash by (auto split: callback.split)
    moreover have "executions (cb # cbs) = executions cbs" using False by (cases cb) auto
    ultimately show ?thesis using Cons.IH [of "strat_exec im cb st" n c] Cons.prems by simp
  qed
qed simp

lemma run_frame:
  "sg_sym_count (fold (strat_exec im) cbs st) = sg_sym_count st \<and>
    instrument \<circ> sg_syms (fold (strat_exec im) cbs st) = instrument \<circ> sg_syms st"
  by (induction cbs arbitrary: st) (simp_all add: strat_exec_frame)

text \<open>C38: The strategy's state is well typed throughout a session. Whatever a successful configuration read and
  whatever callbacks follow, in any order and with any data, there are at most sixteen symbols, tick and lot sizes stay
  positive, the instruments stay the configured ones, the reject counters are never negative, and the
  fill counter and the cash balance are exactly the number and the signed value of the executions reported, modulo the wrap of their
  64-bit type.\<close>

theorem irage_state_sound:
  assumes "initialize im configMap strat_1_default p = Inr (st0, p0)"
  shows "let st = fold (strat_exec im) cbs st0
    in strat_ok st \<and> sg_sym_count st = sg_sym_count st0 \<and> instrument \<circ> sg_syms st = instrument \<circ> sg_syms st0 \<and>
       sg_fills st = to_i64 (int (length (executions cbs))) \<and>
       sg_cash_paise st = to_i64 (\<Sum>e\<leftarrow>executions cbs. signed_notional e)"
proof -
  note i = initialize_ok [OF assms]
  have "sg_fills st0 = to_i64 0" "sg_cash_paise st0 = to_i64 0" using i by (simp_all add: to_i64_def)
  from run_cash [OF this, of im cbs] ir.run_inv [OF i(1), of im cbs] run_frame [of im cbs st0] show ?thesis by (simp add: Let_def)
qed

definition example_config :: "int \<rightharpoonup> string" where
  "example_config = [16 \<mapsto> ''1'', 751 \<mapsto> ''7'']"

definition example_platform :: ConnectImpl where
  "example_platform = ConnectImpl_init\<lparr>ci_running := True,
     ci_syminfo := [7 \<mapsto> [''tick_size'' \<mapsto> ''5'', ''lot_size'' \<mapsto> ''50'']],
     ci_ticks := (\<lambda>_. \<lparr>mt_id = 7, mt_bid = (\<lambda>_. 10000), mt_ask = (\<lambda>_. 10005), mt_bid_size = (\<lambda>_. 100), mt_ask_size = (\<lambda>_. 100)\<rparr>),
     ci_dpr := [7 \<mapsto> (9000, 11000)], ci_total_ops := 0\<rparr>"

definition example_strat :: strat_1 where
  "example_strat = strat_1_default\<lparr>sg_sym_count := 1,
     sg_syms := (\<lambda>_. SymState_default)(0 := SymState_default\<lparr>sy_id := 7, sy_tick_size := 5, sy_lot_size := 50\<rparr>)\<rparr>"

lemma example_initialize:
  "initialize mock_impl example_config strat_1_default example_platform = Inr (example_strat, example_platform\<lparr>ci_inited := True\<rparr>)"
  by (simp add: initialize_def example_config_def example_platform_def example_strat_def mock_impl_def map_at_def stoi_def stol_def
      parse_long_def scan_number_def isspace_def digit_value_def init_sym_def Let_def to_i32_id in_i32_def in_i64_def kMaxSymbols_def
      ConnectImpl_init_def strat_1_default_def)

theorem irage_state_sound_witness:
  "let e = \<lparr>er_securityId = 7, er_price = 10000, er_orderSide = 1, er_fillQty = 50, er_rejCode = 0\<rparr>;
       st = fold (strat_exec mock_impl) [OnRej e example_platform, OnExec e, OnMarketData example_platform] example_strat
   in strat_ok st \<and> sg_cash_paise st = -500000 \<and> sg_fills st = 1"
  using irage_state_sound [OF example_initialize, of "[OnRej \<lparr>er_securityId = 7, er_price = 10000, er_orderSide = 1, er_fillQty = 50, er_rejCode = 0\<rparr>
      example_platform, OnExec \<lparr>er_securityId = 7, er_price = 10000, er_orderSide = 1, er_fillQty = 50, er_rejCode = 0\<rparr>, OnMarketData example_platform]"]
  by (simp add: Let_def signed_notional_def notional_def to_i64_id in_i64_def del: fold_simps)

subsection \<open>What the market-data callback sends\<close>

text \<open>The messages that may go out: a cancel for a configured symbol, or a quote that passes every guard.\<close>

definition is_cancel :: "strat_1 \<Rightarrow> Quote \<Rightarrow> bool" where
  "is_cancel st q \<longleftrightarrow> (\<exists>i < nat (sg_sym_count st). \<exists>side. q = cancel_quote (sy_id (sg_syms st i)) side)"

definition side_gate :: "enOrdSide \<Rightarrow> SymState \<Rightarrow> int \<Rightarrow> int \<Rightarrow> bool" where
  "side_gate side s position max_pos =
     (case side of SIDE_BUY \<Rightarrow> sy_rejects_buy s < kMaxConsecutiveRejects \<and> (0 < max_pos \<longrightarrow> position < max_pos)
      | SIDE_SELL \<Rightarrow> sy_rejects_sell s < kMaxConsecutiveRejects \<and> (0 < max_pos \<longrightarrow> - max_pos < position))"

definition within_dpr :: "int \<Rightarrow> int \<Rightarrow> int \<Rightarrow> bool" where
  "within_dpr lo hi px \<longleftrightarrow> (0 < hi \<and> lo < hi \<longrightarrow> lo \<le> px \<and> px \<le> hi)"

definition guarded_quote :: "'p Impl \<Rightarrow> 'p \<Rightarrow> strat_1 \<Rightarrow> Quote \<Rightarrow> bool" where
  "guarded_quote im p st q \<longleftrightarrow> (\<exists>i < nat (sg_sym_count st).
     let s = sg_syms st i; t = im_getMtick im p (sy_id s)
     in qt_symId q = sy_id s \<and> qt_qty q = sg_quote_lots st * sy_lot_size s \<and> qt_index q = 0 \<and>
        qt_minPriceChange q = sy_tick_size s \<and> sanityCheck t \<and>
        mt_ask t 0 - mt_bid t 0 \<le> sg_max_spread_ticks st * sy_tick_size s \<and>
        within_dpr (im_getDprLow im p (sy_id s)) (im_getDprHigh im p (sy_id s)) (qt_price q) \<and>
        side_gate (qt_side q) s (im_getInventory im p (sy_id s)) (im_getMaxInventory im p (sy_id s) * sy_lot_size s))"

text \<open>Snapping to the tick grid stays on the allowed side of the limit.\<close>

lemma snap_up: "0 < t \<Longrightarrow> lo \<le> ((lo + t - 1) sdiv t) * t" for t :: int
proof (cases "0 \<le> lo + t - 1")
  case True
  assume t: "0 < t"
  have "lo + t - 1 < ((lo + t - 1) div t) * t + t"
    using t div_mult_mod_eq [of "lo + t - 1" t] pos_mod_bound [OF t, of "lo + t - 1"] by linarith
  then show ?thesis using t True by (simp add: sdiv_nonneg)
next
  case False
  assume t: "0 < t"
  have "((- (lo + t - 1)) div t) * t \<le> - (lo + t - 1)"
    using t div_mult_mod_eq [of "- (lo + t - 1)" t] pos_mod_sign [OF t, of "- (lo + t - 1)"] by linarith
  moreover have "(lo + t - 1) sdiv t = - ((- (lo + t - 1)) div t)" using t False by (intro sdiv_neg) simp_all
  ultimately show ?thesis using t by simp
qed

lemma snap_down: "0 < t \<Longrightarrow> 0 < hi \<Longrightarrow> (hi sdiv t) * t \<le> hi" for t :: int
proof -
  assume a: "0 < t" "0 < hi"
  have "hi div t * t \<le> hi" using div_mult_mod_eq [of hi t] pos_mod_sign [OF a(1), of hi] by linarith
  with a show ?thesis by (simp add: sdiv_nonneg)
qed

lemma decisions:
  assumes "side_decisions im p st s t = (bid_px, bid_ok, ask_px, ask_ok)" "0 < sy_tick_size s"
  shows "bid_ok \<Longrightarrow> within_dpr (im_getDprLow im p (sy_id s)) (im_getDprHigh im p (sy_id s)) bid_px \<and>
      side_gate SIDE_BUY s (im_getInventory im p (sy_id s)) (im_getMaxInventory im p (sy_id s) * sy_lot_size s)"
    and "ask_ok \<Longrightarrow> within_dpr (im_getDprLow im p (sy_id s)) (im_getDprHigh im p (sy_id s)) ask_px \<and>
      side_gate SIDE_SELL s (im_getInventory im p (sy_id s)) (im_getMaxInventory im p (sy_id s) * sy_lot_size s)"
proof -
  let ?lo = "im_getDprLow im p (sy_id s)" and ?hi = "im_getDprHigh im p (sy_id s)"
  note up = snap_up [OF assms(2), of ?lo] and down = snap_down [OF assms(2), of ?hi]
  show "bid_ok \<Longrightarrow> within_dpr ?lo ?hi bid_px \<and>
      side_gate SIDE_BUY s (im_getInventory im p (sy_id s)) (im_getMaxInventory im p (sy_id s) * sy_lot_size s)"
    using assms(1) up by (auto simp: side_decisions_def Let_def within_dpr_def side_gate_def not_le split: if_splits)
  show "ask_ok \<Longrightarrow> within_dpr ?lo ?hi ask_px \<and>
      side_gate SIDE_SELL s (im_getInventory im p (sy_id s)) (im_getMaxInventory im p (sy_id s) * sy_lot_size s)"
    using assms(1) down by (auto simp: side_decisions_def Let_def within_dpr_def side_gate_def not_le split: if_splits)
qed

text \<open>A run that leaves the market data alone and adds only messages with the property \<open>P\<close>.\<close>

definition grows :: "'p Impl \<Rightarrow> (Quote \<Rightarrow> bool) \<Rightarrow> 'p \<times> Quote list \<Rightarrow> 'p \<times> Quote list \<Rightarrow> bool" where
  "grows im P a b \<longleftrightarrow> market_view im (fst b) = market_view im (fst a) \<and> (\<exists>new. snd b = snd a @ new \<and> list_all P new)"

lemma grows_refl [simp]: "grows im P a a"
  by (simp add: grows_def)

lemma grows_trans: "grows im P a b \<Longrightarrow> grows im P b c \<Longrightarrow> grows im P a c"
  by (fastforce simp: grows_def)

lemma traced_fields [simp]:
  "im_running (traced im) a = im_running im (fst a)" "im_getMtick (traced im) a = im_getMtick im (fst a)"
  "im_getTotalOps (traced im) a = im_getTotalOps im (fst a)" "im_getOpsConsumed (traced im) a = im_getOpsConsumed im (fst a)"
  "im_getSeconds (traced im) a = im_getSeconds im (fst a)"
  by (simp_all add: traced_def)

lemma traced_decisions [simp]: "side_decisions (traced im) a = side_decisions im (fst a)"
  by (simp add: side_decisions_def traced_def fun_eq_iff)

lemma same_view:
  assumes "market_view im p' = market_view im p"
  shows "im_getMtick im p' = im_getMtick im p" "side_decisions im p' = side_decisions im p" "guarded_quote im p' = guarded_quote im p"
  using assms by (simp_all add: market_view_def side_decisions_def guarded_quote_def fun_eq_iff)

context quiet_platform
begin

lemma send_grows: "P q \<Longrightarrow> grows im P a (snd (im_sendOrder (traced im) q ioc a))"
  using send_quiet [of q ioc "fst a"] by (cases a) (auto simp: grows_def traced_def split: prod.split)

lemma log_grows: "grows im P a (im_logMsg (traced im) msg a)"
  using log_quiet [of msg "fst a"] by (cases a) (auto simp: grows_def traced_def)

lemma strat_1_CancelSide_grows: "P (cancel_quote (sy_id s) side) \<Longrightarrow> grows im P a (strat_1_CancelSide (traced im) s side a)"
  by (simp add: strat_1_CancelSide_def send_grows)

lemma cancel_both_grows:
  "(\<And>side. P (cancel_quote (sy_id s) side)) \<Longrightarrow> grows im P a (cancel_both (traced im) s a)"
  unfolding cancel_both_def by (rule grows_trans [OF strat_1_CancelSide_grows strat_1_CancelSide_grows])

lemma QuoteSide_grows:
  assumes "P \<lparr>qt_symId = sy_id s, qt_price = px, qt_qty = qty, qt_side = side, qt_index = 0, qt_minPriceChange = sy_tick_size s\<rparr>"
  shows "grows im P a (snd (snd (QuoteSide (traced im) s side px qty (st, a))))"
  using send_grows [of P, OF assms, of a False] grows_trans [OF send_grows [of P, OF assms, of a False] log_grows]
  by (auto simp: QuoteSide_def Let_def split_beta)

lemma act_side_grows:
  assumes "ok \<Longrightarrow> ops_ok \<Longrightarrow> P \<lparr>qt_symId = sy_id (sg_syms st i), qt_price = px,
      qt_qty = sg_quote_lots st * sy_lot_size (sg_syms st i), qt_side = side, qt_index = 0,
      qt_minPriceChange = sy_tick_size (sg_syms st i)\<rparr>"
    and "P (cancel_quote (sy_id (sg_syms st i)) side)"
  shows "grows im P a (snd (act_side (traced im) i ops_ok side px ok (st, a)))"
  using assms(1) strat_1_CancelSide_grows [of P, OF assms(2)] QuoteSide_grows [of P "sg_syms st i" px "sg_quote_lots st * sy_lot_size (sg_syms st i)" side a st]
  by (auto simp: act_side_def Let_def split_beta)

end

text \<open>The messages one symbol may cause, in a state with the core of \<open>st\<close>.\<close>

definition allowed :: "'p Impl \<Rightarrow> 'p \<Rightarrow> strat_1 \<Rightarrow> bool \<Rightarrow> Quote \<Rightarrow> bool" where
  "allowed im p st ops_ok q \<longleftrightarrow> is_cancel st q \<or> (ops_ok \<and> guarded_quote im p st q)"

lemma same_coreD:
  assumes "same_core st st'"
  shows "sy_id (sg_syms st' i) = sy_id (sg_syms st i)" "sy_tick_size (sg_syms st' i) = sy_tick_size (sg_syms st i)"
    "sy_lot_size (sg_syms st' i) = sy_lot_size (sg_syms st i)" "sy_rejects_buy (sg_syms st' i) = sy_rejects_buy (sg_syms st i)"
    "sy_rejects_sell (sg_syms st' i) = sy_rejects_sell (sg_syms st i)"
  using same_core_sym [OF assms, of i] by (auto simp: sym_core_def instrument_def)

lemma same_coreP:
  assumes "same_core st st'"
  shows "sg_quote_lots st' = sg_quote_lots st" "sg_max_spread_ticks st' = sg_max_spread_ticks st" "sg_sym_count st' = sg_sym_count st"
  using assms by (simp_all add: same_core_def)

lemma allowed_cancel: "i < nat (sg_sym_count st) \<Longrightarrow> allowed im p st ops_ok (cancel_quote (sy_id (sg_syms st i)) side)"
  by (auto simp: allowed_def is_cancel_def)

context quiet_platform
begin

lemma act_pair_grows:
  assumes c: "same_core st st1" and i: "i < nat (sg_sym_count st)" and v: "market_view im (fst a) = market_view im p"
    and t: "t = im_getMtick im p (sy_id (sg_syms st i))" "sanityCheck t"
      "mt_ask t 0 - mt_bid t 0 \<le> sg_max_spread_ticks st * sy_tick_size (sg_syms st i)"
    and d: "side_decisions im p st1 (sg_syms st1 i) t = (bid_px, bid_ok, ask_px, ask_ok)" and k: "0 < sy_tick_size (sg_syms st i)"
  shows "grows im (allowed im p st ops_ok) a
    (snd (act_side (traced im) i ops_ok SIDE_SELL ask_px ask_ok (act_side (traced im) i ops_ok SIDE_BUY bid_px bid_ok (st1, a))))"
proof -
  let ?b = "act_side (traced im) i ops_ok SIDE_BUY bid_px bid_ok (st1, a)"
  note f = same_coreD [OF c, of i] same_coreP [OF c]
  have tick: "0 < sy_tick_size (sg_syms st1 i)" using k f by simp
  have ok: "allowed im p st ops_ok \<lparr>qt_symId = sy_id (sg_syms st2 i), qt_price = px,
      qt_qty = sg_quote_lots st2 * sy_lot_size (sg_syms st2 i), qt_side = side, qt_index = 0,
      qt_minPriceChange = sy_tick_size (sg_syms st2 i)\<rparr>"
    if "same_core st st2" "ops_ok" "within_dpr (im_getDprLow im p (sy_id (sg_syms st i))) (im_getDprHigh im p (sy_id (sg_syms st i))) px"
      "side_gate side (sg_syms st1 i) (im_getInventory im p (sy_id (sg_syms st i)))
        (im_getMaxInventory im p (sy_id (sg_syms st i)) * sy_lot_size (sg_syms st i))" for st2 px side
    using that t i same_coreD [OF that(1), of i] same_coreP [OF that(1)] f
    by (auto simp: allowed_def guarded_quote_def Let_def side_gate_def split: enOrdSide.splits intro!: exI [of _ i])
  note D = decisions [OF d tick, unfolded f]
  have c2: "same_core st (fst ?b)" using c act_side_core [of st1 "traced im" i ops_ok SIDE_BUY bid_px bid_ok a] by (rule same_core_trans)
  have cancel: "allowed im p st ops_ok (cancel_quote (sy_id (sg_syms st2 i)) side)" if "same_core st st2" for st2 side
    using allowed_cancel [OF i] same_coreD(1) [OF that] by simp
  have "grows im (allowed im p st ops_ok) a (snd ?b)"
    using D(1) ok [OF c] cancel [OF c] by (intro act_side_grows) auto
  moreover have "grows im (allowed im p st ops_ok) (snd ?b) (snd (act_side (traced im) i ops_ok SIDE_SELL ask_px ask_ok (fst ?b, snd ?b)))"
    using D(2) ok [OF c2] cancel [OF c2] by (intro act_side_grows) auto
  ultimately show ?thesis using grows_trans by simp blast
qed

lemma quote_symbol_grows:
  assumes c: "same_core st st1" and i: "i < nat (sg_sym_count st)" and v: "market_view im (fst a) = market_view im p"
    and k: "0 < sy_tick_size (sg_syms st i)"
  shows "grows im (allowed im p st ops_ok) a (snd (quote_symbol (traced im) ops_ok i (st1, a)))"
proof -
  note f = same_coreD [OF c, of i] same_coreP [OF c]
  define t where "t = im_getMtick im p (sy_id (sg_syms st i))"
  have t: "im_getMtick im (fst a) (sy_id (sg_syms st1 i)) = t" using same_view(1) [OF v] f by (simp add: t_def)
  let ?st = "upd_sym i (\<lambda>s. s\<lparr>sy_last_mid := (mt_bid t 0 + mt_ask t 0) sdiv 2\<rparr>) st1"
  have m: "same_core st1 ?st" by (intro same_core_upd) (simp add: sym_core_def instrument_def)
  have cm: "same_core st ?st" using c m by (rule same_core_trans)
  have cancel: "grows im (allowed im p st ops_ok) a (cancel_both (traced im) (sg_syms st2 i) a)" if "same_core st st2" for st2
    using allowed_cancel [OF i] same_coreD(1) [OF that] by (intro cancel_both_grows) simp
  obtain bid_px bid_ok ask_px ask_ok where d: "side_decisions im p ?st (sg_syms ?st i) t = (bid_px, bid_ok, ask_px, ask_ok)"
    by (metis prod_cases4)
  show ?thesis
  proof (cases "sanityCheck t \<and> mt_ask t 0 - mt_bid t 0 \<le> sg_max_spread_ticks st * sy_tick_size (sg_syms st i)")
    case True
    have "snd (quote_symbol (traced im) ops_ok i (st1, a)) =
        snd (act_side (traced im) i ops_ok SIDE_SELL ask_px ask_ok (act_side (traced im) i ops_ok SIDE_BUY bid_px bid_ok (?st, a)))"
      using True d same_view(2) [OF v] same_coreD [OF cm, of i] same_coreP [OF cm] by (simp add: quote_symbol_def t Let_def sanityCheck_def not_le)
    then show ?thesis using act_pair_grows [OF cm i v t_def _ _ d k] True by simp
  next
    case False
    then have "snd (quote_symbol (traced im) ops_ok i (st1, a)) = cancel_both (traced im) (sg_syms st1 i) a \<or>
        snd (quote_symbol (traced im) ops_ok i (st1, a)) = cancel_both (traced im) (sg_syms ?st i) a"
      using same_coreD [OF cm, of i] same_coreP [OF cm] by (auto simp: quote_symbol_def t Let_def sanityCheck_def not_le)
    then show ?thesis using cancel [OF c] cancel [OF cm] by metis
  qed
qed

end

context quiet_platform
begin

lemma quote_all_grows:
  assumes "same_core st st1" "\<forall>i \<in> set is. i < nat (sg_sym_count st) \<and> 0 < sy_tick_size (sg_syms st i)"
    "market_view im (fst a) = market_view im p"
  shows "grows im (allowed im p st ops_ok) a (snd (fold (quote_symbol (traced im) ops_ok) is (st1, a)))"
  using assms
proof (induction "is" arbitrary: st1 a)
  case (Cons i "is")
  let ?r = "quote_symbol (traced im) ops_ok i (st1, a)"
  have c: "same_core st (fst ?r)" using Cons.prems(1) quote_symbol_core by (rule same_core_trans)
  have g: "grows im (allowed im p st ops_ok) a (snd ?r)" using Cons.prems by (intro quote_symbol_grows) auto
  then have "market_view im (fst (snd ?r)) = market_view im p" using Cons.prems(3) by (simp add: grows_def)
  from Cons.IH [OF c _ this] Cons.prems(2) have "grows im (allowed im p st ops_ok) (snd ?r)
      (snd (fold (quote_symbol (traced im) ops_ok) is (fst ?r, snd ?r)))" by simp
  with g show ?case by (auto intro: grows_trans)
qed simp

lemma cancel_all_grows:
  assumes "\<forall>i \<in> set is. i < nat (sg_sym_count st)"
  shows "grows im (is_cancel st) a (fold (\<lambda>i. cancel_both (traced im) (sg_syms st i)) is a)"
  using assms
proof (induction "is" arbitrary: a)
  case (Cons i "is")
  have "grows im (is_cancel st) a (cancel_both (traced im) (sg_syms st i) a)"
    using Cons.prems by (intro cancel_both_grows) (auto simp: is_cancel_def)
  from grows_trans [OF this Cons.IH] Cons.prems show ?case by simp
qed simp

lemma messages_gated:
  assumes "strat_ok st" "onMarketData (traced im) st (p, []) = (rc, st', p', sent)" "q \<in> set sent"
  shows "im_running im p \<and> (is_cancel st q \<or>
    (\<not> sg_killed st \<and> IstSecondsOfDay im p < sg_preclose_ist_sod st \<and> ops_headroom im p \<and> guarded_quote im p st q))"
proof -
  have sod: "IstSecondsOfDay (traced im) (p, []) = IstSecondsOfDay im p" by (simp add: IstSecondsOfDay_def)
  have ops: "ops_headroom (traced im) (p, []) = ops_headroom im p" by (simp add: ops_headroom_def)
  have run: "im_running im p" using assms(2,3) by (auto simp: onMarketData_def split: if_splits)
  show ?thesis
  proof (cases "sg_killed st \<or> sg_preclose_ist_sod st \<le> IstSecondsOfDay im p")
    case True
    then have "(p', sent) = CancelAll (traced im) st (p, [])"
      using assms(2) run sod by (auto simp: onMarketData_def split: if_splits)
    then have "grows im (is_cancel st) (p, []) (p', sent)" using cancel_all_grows by (simp add: CancelAll_def)
    then show ?thesis using run assms(3) by (auto simp: grows_def list_all_iff)
  next
    case False
    then have "(p', sent) = snd (fold (quote_symbol (traced im) (ops_headroom im p)) [0..<nat (sg_sym_count st)] (st, p, []))"
      using assms(2) run sod ops by (auto simp: onMarketData_def)
    moreover have "\<forall>i \<in> set [0..<nat (sg_sym_count st)]. i < nat (sg_sym_count st) \<and> 0 < sy_tick_size (sg_syms st i)"
      using assms(1) by (auto simp: strat_ok_def)
    ultimately have "grows im (allowed im p st (ops_headroom im p)) (p, []) (p', sent)"
      using quote_all_grows [OF same_core_refl, of "[0..<nat (sg_sym_count st)]" st "(p, [])" p] by simp
    then show ?thesis using run assms(3) False by (auto simp: grows_def list_all_iff allowed_def)
  qed
qed

end

text \<open>C36: Every order message of the market-data callback is justified. On any platform that keeps its
  data while it takes an order, a message is sent only while the portfolio runs, and it is either a cancel for a
  configured symbol, or a quote that was decided with the kill switch off, before the pre-close boundary and
  with message headroom, for a configured symbol with both sides of its book present and a spread within the
  limit, at the configured size, inside the daily price range when there is one, on a side with fewer than three
  consecutive rejects and, when a position limit is set, not adding to a position at that limit.\<close>

theorem irage_quotes_gated:
  assumes "quiet_platform im" "strat_ok st" "onMarketData (traced im) st (p, []) = (rc, st', p', sent)" "q \<in> set sent"
  shows "im_running im p \<and> (is_cancel st q \<or>
    (\<not> sg_killed st \<and> IstSecondsOfDay im p < sg_preclose_ist_sod st \<and> ops_headroom im p \<and> guarded_quote im p st q))"
  using assms by (rule quiet_platform.messages_gated)

lemma example_ok: "strat_ok example_strat"
  by (simp add: strat_ok_def example_strat_def kMaxSymbols_def strat_1_default_def SymState_default_def)

definition example_bid :: Quote where
  "example_bid = \<lparr>qt_symId = 7, qt_price = 9995, qt_qty = 50, qt_side = SIDE_BUY, qt_index = 0, qt_minPriceChange = 5\<rparr>"

lemma example_decisions:
  "side_decisions mock_impl example_platform example_strat' (sg_syms example_strat' 0) (ci_ticks example_platform 7) = (9995, True, 10010, True)"
  if "example_strat' = upd_sym 0 (\<lambda>s. s\<lparr>sy_last_mid := m\<rparr>) example_strat"
  by (simp add: that side_decisions_def mock_impl_def example_platform_def example_strat_def upd_sym_def desired_quotes_def
      inventory_skew_ticks_def flow_skew_ticks_def clamp_ticks_def ConnectImpl_init_def strat_1_default_def SymState_default_def
      to_i32_id in_i32_def sdiv_nonneg kMaxConsecutiveRejects_def)

lemma example_symbol:
  "\<exists>st a tr. quote_symbol (traced mock_impl) True 0 (example_strat, example_platform, []) = (st, a, example_bid # tr)"
proof -
  let ?t = "ci_ticks example_platform 7"
  let ?st = "upd_sym 0 (\<lambda>s. s\<lparr>sy_last_mid := (mt_bid ?t 0 + mt_ask ?t 0) sdiv 2\<rparr>) example_strat"
  have s: "sg_syms example_strat 0 = SymState_default\<lparr>sy_id := 7, sy_tick_size := 5, sy_lot_size := 50\<rparr>"
    "sg_max_spread_ticks example_strat = 3" "sg_quote_lots example_strat = 1"
    by (simp_all add: example_strat_def strat_1_default_def)
  have t: "mt_bid ?t 0 = 10000" "mt_ask ?t 0 = 10005" "mt_bid_size ?t 0 = 100" "mt_ask_size ?t 0 = 100"
    by (simp_all add: example_platform_def)
  have m: "im_getMtick mock_impl p = ci_ticks p" for p by (simp add: mock_impl_def)
  have "quote_symbol (traced mock_impl) True 0 (example_strat, example_platform, []) =
      act_side (traced mock_impl) 0 True SIDE_SELL 10010 True (act_side (traced mock_impl) 0 True SIDE_BUY 9995 True (?st, example_platform, []))"
    using example_decisions [OF refl] by (simp add: quote_symbol_def s t m upd_sym_def Let_def)
  moreover obtain st a where "act_side (traced mock_impl) 0 True SIDE_BUY 9995 True (?st, example_platform, []) = (st, a, [example_bid])"
    by (auto simp: act_side_def QuoteSide_def traced_def mock_impl_def ConnectImpl_sendOrder_def example_platform_def ConnectImpl_init_def
        OrderSlot_default_def example_bid_def s upd_sym_def Let_def)
  moreover have "\<exists>st' a' tr. act_side (traced mock_impl) 0 True SIDE_SELL 10010 True (st, a, [example_bid]) = (st', a', example_bid # tr)" for st a
    by (simp add: act_side_def QuoteSide_def traced_def Let_def split_beta)
  ultimately show ?thesis by simp
qed

theorem irage_quotes_gated_witness:
  "\<exists>rc st' p' sent. onMarketData (traced mock_impl) example_strat (example_platform, []) = (rc, st', p', sent) \<and>
    example_bid \<in> set sent \<and> guarded_quote mock_impl example_platform example_strat example_bid"
proof -
  obtain st a tr where q: "quote_symbol (traced mock_impl) True 0 (example_strat, example_platform, []) = (st, a, example_bid # tr)"
    using example_symbol by blast
  have "onMarketData (traced mock_impl) example_strat (example_platform, []) = (0, st, a, example_bid # tr)"
    using q by (simp add: onMarketData_def IstSecondsOfDay_def ops_headroom_def mock_impl_def example_platform_def example_strat_def
        ConnectImpl_init_def strat_1_default_def to_i32_id in_i32_def signed_modulo_int_def sdiv_nonneg)
  moreover from irage_quotes_gated [OF mock.quiet_platform_axioms example_ok this, of example_bid]
  have "guarded_quote mock_impl example_platform example_strat example_bid"
    by (auto simp: is_cancel_def cancel_quote_def example_bid_def Quote_default_def)
  ultimately show ?thesis by auto
qed

subsection \<open>Stopping\<close>

text \<open>A cancel request to one slot of the mock, and to all slots of a strategy.\<close>

definition cancel_slot :: "OrderSlot \<Rightarrow> OrderSlot" where
  "cancel_slot slot = (if os_state slot = STANDING_ACKED then slot\<lparr>os_state := STANDING_UNACKED, os_pending_cancel := True\<rparr> else slot)"

definition tracked_keys :: "strat_1 \<Rightarrow> int set" where
  "tracked_keys st = {Key (sy_id (sg_syms st i)) side 0 | i side. i < nat (sg_sym_count st)}"

lemma strat_1_CancelSide_mock:
  "ci_orders (strat_1_CancelSide mock_impl s side ci) =
     (ci_orders ci)(Key (sy_id s) side 0 := cancel_slot (ci_orders ci (Key (sy_id s) side 0)))"
  "ci_running (strat_1_CancelSide mock_impl s side ci) = ci_running ci" "ci_seconds (strat_1_CancelSide mock_impl s side ci) = ci_seconds ci"
  by (cases "os_state (ci_orders ci (Key (sy_id s) side 0))";
      simp add: strat_1_CancelSide_def mock_impl_def ConnectImpl_getStandingOrder_def ConnectImpl_sendOrder_def cancel_slot_def
        cancel_quote_def Quote_default_def Let_def)+

lemma cancel_slot_twice [simp]: "cancel_slot (cancel_slot slot) = cancel_slot slot"
  by (simp add: cancel_slot_def)

lemma stops_twice: "os_state (ack_slot (cancel_slot (ack_slot (cancel_slot slot)))) = NO_ORDER"
  by (cases "os_state slot") (simp_all add: ack_slot_def cancel_slot_def)

lemma cancel_both_mock:
  "ci_orders (cancel_both mock_impl s ci) k =
     (if k \<in> {Key (sy_id s) SIDE_BUY 0, Key (sy_id s) SIDE_SELL 0} then cancel_slot (ci_orders ci k) else ci_orders ci k)"
  "ci_running (cancel_both mock_impl s ci) = ci_running ci" "ci_seconds (cancel_both mock_impl s ci) = ci_seconds ci"
  by (auto simp: cancel_both_def strat_1_CancelSide_mock)

lemma cancel_all_orders:
  "ci_orders (fold (\<lambda>i. cancel_both mock_impl (sg_syms st i)) is ci) k =
     (if \<exists>i \<in> set is. \<exists>side. k = Key (sy_id (sg_syms st i)) side 0 then cancel_slot (ci_orders ci k) else ci_orders ci k)"
proof (induction "is" arbitrary: ci)
  case (Cons i "is")
  have side: "(\<exists>side. k = Key x side 0) \<longleftrightarrow> k = Key x SIDE_BUY 0 \<or> k = Key x SIDE_SELL 0" for x
    by (metis enOrdSide.exhaust)
  show ?case
    by (cases "\<exists>i \<in> set is. \<exists>side. k = Key (sy_id (sg_syms st i)) side 0";
        cases "\<exists>side. k = Key (sy_id (sg_syms st i)) side 0")
       (simp_all add: Cons.IH cancel_both_mock(1) side [symmetric])
qed simp

lemma cancel_all_frame:
  "ci_running (fold (\<lambda>i. cancel_both mock_impl (sg_syms st i)) is ci) = ci_running ci"
  "ci_seconds (fold (\<lambda>i. cancel_both mock_impl (sg_syms st i)) is ci) = ci_seconds ci"
  by (induction "is" arbitrary: ci) (simp_all add: cancel_both_mock)

lemma CancelAll_mock:
  "ci_orders (CancelAll mock_impl st ci) k = (if k \<in> tracked_keys st then cancel_slot (ci_orders ci k) else ci_orders ci k)"
  "ci_running (CancelAll mock_impl st ci) = ci_running ci" "ci_seconds (CancelAll mock_impl st ci) = ci_seconds ci"
  by (auto simp: CancelAll_def cancel_all_orders cancel_all_frame tracked_keys_def)

definition stopping :: "strat_1 \<Rightarrow> ConnectImpl \<Rightarrow> bool" where
  "stopping st ci \<longleftrightarrow> sg_killed st \<or> sg_preclose_ist_sod st \<le> IstSecondsOfDay mock_impl ci"

text \<open>One market-data callback, then the exchange's answers.\<close>

definition stop_round :: "strat_1 \<Rightarrow> ConnectImpl \<Rightarrow> ConnectImpl" where
  "stop_round st ci = test_ackAll (snd (snd (onMarketData mock_impl st ci)))"

lemma mock_clock: "im_running mock_impl = ci_running"
  "IstSecondsOfDay mock_impl ci = to_i32 ((ci_seconds ci + 19800) smod 86400)"
  by (simp_all add: mock_impl_def IstSecondsOfDay_def)

lemma stop_round_effect:
  assumes "ci_running ci" "stopping st ci"
  shows "ci_orders (stop_round st ci) k = ack_slot (if k \<in> tracked_keys st then cancel_slot (ci_orders ci k) else ci_orders ci k)"
    and "ci_running (stop_round st ci)" "stopping st (stop_round st ci)"
proof -
  have "snd (snd (onMarketData mock_impl st ci)) = CancelAll mock_impl st ci"
    using assms by (auto simp: onMarketData_def stopping_def mock_clock)
  then have "stop_round st ci = test_ackAll (CancelAll mock_impl st ci)" by (simp add: stop_round_def)
  then show "ci_orders (stop_round st ci) k = ack_slot (if k \<in> tracked_keys st then cancel_slot (ci_orders ci k) else ci_orders ci k)"
    "ci_running (stop_round st ci)" "stopping st (stop_round st ci)"
    using assms by (simp_all add: test_ackAll_def CancelAll_mock stopping_def mock_clock)
qed

text \<open>C37: The kill switch and the pre-close sweep end with nothing standing. On the platform's mock, from any state of the
  order slots, requests in flight included, two market-data callbacks under the kill switch or after the pre-close boundary, each followed by
  the exchange's acknowledgements, leave no standing order on either side of any configured symbol; orders of other symbols
  only receive their acknowledgements.\<close>

theorem irage_stop_flat:
  assumes "ci_running ci" "stopping st ci"
  shows "(\<forall>i < nat (sg_sym_count st). \<forall>side.
      \<not> ConnectImpl_getStandingOrder (stop_round st (stop_round st ci)) (sy_id (sg_syms st i)) side 0) \<and>
    (\<forall>sid side. sid \<notin> (\<lambda>i. sy_id (sg_syms st i)) ` {..<nat (sg_sym_count st)} \<longrightarrow>
      ci_orders (stop_round st (stop_round st ci)) (Key sid side 0) = ack_slot (ack_slot (ci_orders ci (Key sid side 0))))"
proof -
  note 1 = stop_round_effect [OF assms]
  note 2 = stop_round_effect [OF 1(2,3)]
  have "Key (sy_id (sg_syms st i)) side 0 \<in> tracked_keys st" if "i < nat (sg_sym_count st)" for i side
    using that by (auto simp: tracked_keys_def)
  moreover have "Key sid side 0 \<notin> tracked_keys st"
    if "sid \<notin> (\<lambda>i. sy_id (sg_syms st i)) ` {..<nat (sg_sym_count st)}" for sid side
    using that by (auto simp: tracked_keys_def Key_inj)
  ultimately show ?thesis
    by (simp add: ConnectImpl_getStandingOrder_def 1(1) 2(1) stops_twice)
qed

theorem irage_stop_flat_witness:
  "let st = example_strat\<lparr>sg_killed := True\<rparr>; ci = snd (im_sendOrder mock_impl example_bid False example_platform)
   in ConnectImpl_getStandingOrder ci 7 SIDE_BUY 0 \<and> \<not> ConnectImpl_getStandingOrder (stop_round st (stop_round st ci)) 7 SIDE_BUY 0"
proof -
  let ?st = "example_strat\<lparr>sg_killed := True\<rparr>" and ?ci = "snd (im_sendOrder mock_impl example_bid False example_platform)"
  have "ci_running ?ci" "ConnectImpl_getStandingOrder ?ci 7 SIDE_BUY 0"
    by (simp_all add: mock_impl_def ConnectImpl_sendOrder_def ConnectImpl_getStandingOrder_def example_platform_def ConnectImpl_init_def
        OrderSlot_default_def example_bid_def Let_def)
  moreover have "stopping ?st ?ci" by (simp add: stopping_def)
  moreover have "sg_sym_count ?st = 1" "sy_id (sg_syms ?st 0) = 7" by (simp_all add: example_strat_def)
  ultimately show ?thesis using irage_stop_flat [of ?ci ?st] by (auto simp: Let_def)
qed

subsection \<open>Snapping can make the quotes meet\<close>

text \<open>At the lower end of the daily price range the bid is lifted to the limit while the ask, leaning down against a long
  position, may reach the same price: both quotes of the strategy then stand at one price.\<close>

lemma dpr_snap_meets:
  "let ci = example_platform\<lparr>ci_inventory := (\<lambda>_. 60), ci_max_inv := [7 \<mapsto> 2], ci_dpr := [7 \<mapsto> (10000, 11000)]\<rparr>;
       st = example_strat\<lparr>sg_inv_skew_ticks := 4\<rparr>
   in side_decisions mock_impl ci st (sg_syms st 0) (ci_ticks ci 7) = (10000, True, 10000, True)"
proof -
  have "inventory_skew_ticks 60 100 4 = 2"
    by (simp add: inventory_skew_ticks_def clamp_ticks_def to_i32_id in_i32_def sdiv_nonneg)
  moreover have "flow_skew_ticks 100 100 1 = 0" by (simp add: flow_skew_ticks_def clamp_ticks_def to_i32_def)
  ultimately have "desired_quotes 10000 10005 5 100 100 60 100 4 1 = \<lparr>dq_bid_price = 9985, dq_ask_price = 10000\<rparr>"
    by (simp add: desired_quotes_def)
  moreover have "(10004 :: int) sdiv 5 = 2000" by (simp add: sdiv_nonneg)
  ultimately show ?thesis
    by (simp add: side_decisions_def mock_impl_def example_platform_def example_strat_def ConnectImpl_init_def strat_1_default_def
        SymState_default_def to_i32_id in_i32_def kMaxConsecutiveRejects_def)
qed

text \<open>The default flow skew of one tick never moves a quote: with both sizes positive the quotient is
  rounded to zero.\<close>

lemma default_flow_skew_idle: "0 < bid_qty \<Longrightarrow> 0 < ask_qty \<Longrightarrow> flow_skew_ticks bid_qty ask_qty 1 = 0"
proof -
  assume a: "0 < bid_qty" "0 < ask_qty"
  then have "\<bar>(bid_qty - ask_qty) sdiv (bid_qty + ask_qty)\<bar> = \<bar>bid_qty - ask_qty\<bar> div (bid_qty + ask_qty)" by (intro abs_sdiv) simp
  also have "\<dots> = 0" using a by (intro div_pos_pos_trivial) auto
  finally show ?thesis using a by (simp add: flow_skew_ticks_def Let_def clamp_ticks_def to_i32_def)
qed

end
