(* ===== verification/Capture_Tools.thy ===== *)
theory Capture_Tools
  imports Mtbt_Generator Feed_Handler Symbol_Master Time_Utils
begin

text \<open>
  The command-line tools around captures and reference data: \<^verbatim>\<open>tools/mtbt_gen.cpp\<close>, \<^verbatim>\<open>tools/mtbt_replay.cpp\<close>,
  \<^verbatim>\<open>tools/symbol_master_loader.cpp\<close> and \<^verbatim>\<open>tools/latency_histogram.cpp\<close>.

  A program is a function of its argument vector (program name first), of the files it opens (\<open>None\<close> for one that cannot be opened) and of
  the random engine; its result holds the exit code and what it writes or reports. Usage messages are not modelled.
\<close>

subsection \<open>Generating a capture\<close>

definition arg_or :: "string list \<Rightarrow> nat \<Rightarrow> (string \<Rightarrow> 'a) \<Rightarrow> 'a \<Rightarrow> 'a" where
  "arg_or argv k conv dflt = (if length argv \<ge> k + 1 then conv (argv ! k) else dflt)"

definition gen_events :: "'r draw \<Rightarrow> ('r \<Rightarrow> u64 \<times> 'r) \<Rightarrow> 'r \<Rightarrow> string list \<Rightarrow> MarketEvent list" where
  "gen_events draw raw seeded argv =
     (let cnt = arg_or argv 2 (\<lambda>s. to_i32 (strtoll s)) 100000;
          token = arg_or argv 3 (\<lambda>s. ucast (strtoul s)) 2885;
          mid = arg_or argv 4 strtoll 1000000;
          tick = arg_or argv 5 strtoll 5;
          gen = MtbtGenerator_init token mid tick seeded
      in case generate_mbo draw raw cnt gen [] of (g, events, live) \<Rightarrow> events)"

text \<open>The exit code, and the bytes written when the file opens.\<close>

definition mtbt_gen_main :: "'r draw \<Rightarrow> ('r \<Rightarrow> u64 \<times> 'r) \<Rightarrow> 'r \<Rightarrow> string list \<Rightarrow> bool \<Rightarrow> int \<times> u8 list option" where
  "mtbt_gen_main draw raw seeded argv opens =
     (if length argv < 2 then (2, None)
      else let events = gen_events draw raw seeded argv;
               bytes = fold encode_capture events []
           in if \<not> opens then (1, None) else (0, Some bytes))"

subsection \<open>Replaying a capture\<close>

record Replay =
  rp_packets :: u64
  rp_events :: u64
  rp_feed :: FeedHandler

function replay_loop :: "u8 list \<Rightarrow> Replay \<Rightarrow> Replay option" where
  "replay_loop f r =
     (case read_u32_le f of
        (None, _) \<Rightarrow> Some r
      | (Some len, f1) \<Rightarrow>
          if len = 0 \<or> len > push_bit 20 1 then Some r
          else (case fread (unat len) f1 of (buf, f2) \<Rightarrow>
                  if length buf \<noteq> unat len then Some r
                  else (case on_packet kPrimary buf (rp_feed r) of None \<Rightarrow> None
                        | Some (evs, feed) \<Rightarrow>
                            replay_loop f2 (r\<lparr>rp_packets := rp_packets r + 1, rp_events := rp_events r + of_nat (length evs),
                              rp_feed := feed\<rparr>))))"
  by pat_completeness auto
termination
  by (relation "measure (\<lambda>(f, r). length f)") (auto simp: read_u32_le_def fread_def split: if_splits)

declare replay_loop.simps [simp del]

text \<open>The exit code, and the three numbers reported: packets, events, malformed.\<close>

definition mtbt_replay_main :: "string list \<Rightarrow> u8 list option \<Rightarrow> (int \<times> (u64 \<times> u64 \<times> u64) option) option" where
  "mtbt_replay_main argv file =
     (if length argv < 2 then Some (2, None)
      else case file of None \<Rightarrow> Some (1, None)
           | Some f \<Rightarrow>
               (case replay_loop f \<lparr>rp_packets = 0, rp_events = 0, rp_feed = FeedHandler_init\<rparr> of None \<Rightarrow> None
                | Some r \<Rightarrow> Some (0, Some (rp_packets r, rp_events r, fh_malformed (rp_feed r)))))"

subsection \<open>Listing the symbol master\<close>

definition describe :: "SymbolMaster \<Rightarrow> Token \<Rightarrow> string" where
  "describe sm token =
     (case sm_get sm token of
        None \<Rightarrow> ''  token '' @ dec (unat token) @ '': not found'' @ [CHR 0x0A]
      | Some inst \<Rightarrow> ''  token '' @ dec (unat token) @ '': '' @ c_str (i_symbol inst) @ ''/'' @ c_str (i_series inst) @
          '' lot='' @ dec_int (i_lot_size inst) @ '' tick='' @ dec_int (i_tick_size inst) @
          '' prev_close='' @ dec_int (i_prev_close inst) @ '' circuit='' @ dec (unat (i_circuit_pct_x100 inst) div 100) @ ''%'' @
          (if is_index_derivative sm token then '' [index-deriv]'' else []) @ [CHR 0x0A])"

definition symbol_master_loader_main :: "string list \<Rightarrow> string option \<Rightarrow> int \<times> string" where
  "symbol_master_loader_main argv file =
     (if length argv < 2 then (2, [])
      else case load_csv file SymbolMaster_init of (rows, sm) \<Rightarrow>
             if rows < 0 then (1, [])
             else (0, ''symbol_master: loaded '' @ dec_int rows @ '' rows ('' @ dec (sm_count sm) @ '' active)'' @ [CHR 0x0A] @
                      (if length argv \<ge> 3 then describe sm (ucast (strtoul (argv ! 2))) else [])))"

subsection \<open>Latency histogram\<close>

text \<open>The samples are the numbers \<open>fscanf\<close> reads until it fails.\<close>

definition kBuckets :: nat where "kBuckets = 50"

definition track_samples :: "u64 list \<Rightarrow> LatencyTracker \<times> u64" where
  "track_samples vs = fold (\<lambda>v (lt, max_ns). (record_sample v lt, if v > max_ns then v else max_ns)) vs
     (LatencyTracker_init 2000000, 0)"

text \<open>The conversion of an unsigned 64-bit integer to \<open>double\<close>.\<close>

definition as_double :: "u64 \<Rightarrow> rat" where "as_double v = fl (of_nat (unat v))"

text \<open>A row of the histogram: the percentile, its value and the length of its bar.\<close>

definition histogram_row :: "LatencyTracker \<Rightarrow> u64 \<Rightarrow> nat \<Rightarrow> rat \<times> u64 \<times> int" where
  "histogram_row lt max_ns i =
     (let p = fl (fl (100 * of_nat i) / of_nat kBuckets);
          v = percentile lt p;
          bar = (if max_ns > 0 then \<lfloor>fl (fl (60 * as_double v) / as_double max_ns)\<rfloor> else 0)
      in (p, v, bar))"

definition histogram_rows :: "LatencyTracker \<Rightarrow> u64 \<Rightarrow> (rat \<times> u64 \<times> int) list" where
  "histogram_rows lt max_ns = map (histogram_row lt max_ns) [1..<kBuckets + 1]"

text \<open>The closing line of the report: minimum, the three percentiles, maximum and mean.\<close>

definition summary_line :: "LatencyTracker \<Rightarrow> u64 \<times> u64 \<times> u64 \<times> u64 \<times> u64 \<times> u64" where
  "summary_line lt = (lt_min_of lt, p50 lt, p99 lt, p999 lt, lt_max lt, mean lt)"

text \<open>The samples come from the file named or from standard input, and without an argument from the synthetic distribution,
  which is the argument \<open>synthetic\<close>. The result holds the exit code, the count, the range, the rows and the closing line.\<close>

definition latency_histogram_main :: "u64 list \<Rightarrow> string list \<Rightarrow> u64 list option \<Rightarrow>
    int \<times> (u64 \<times> u64 \<times> (rat \<times> u64 \<times> int) list \<times> u64 \<times> u64 \<times> u64 \<times> u64 \<times> u64 \<times> u64) option" where
  "latency_histogram_main synthetic argv input =
     (let report = (\<lambda>vs. case track_samples vs of (lt, max_ns) \<Rightarrow>
            (0, Some (lt_count lt, max_ns, histogram_rows lt max_ns, summary_line lt)))
      in if length argv \<ge> 2 then (case input of None \<Rightarrow> (1, None) | Some vs \<Rightarrow> report vs)
         else report synthetic)"

subsection \<open>The replay loop on framed packets\<close>

definition frame :: "u8 list \<Rightarrow> u8 list" where
  "frame pkt = PutLe_u32 (of_nat (length pkt)) @ pkt"

lemma replay_end: "replay_loop [] r = Some r"
  by (simp add: replay_loop.simps read_u32_le_def fread_def)

lemma replay_step:
  assumes "on_packet kPrimary pkt (rp_feed r) = Some (evs, feed)" "0 < length pkt" "length pkt \<le> 1024"
  shows "replay_loop (frame pkt @ f) r = replay_loop f (r\<lparr>rp_packets := rp_packets r + 1,
    rp_events := rp_events r + of_nat (length evs), rp_feed := feed\<rparr>)"
proof -
  have len: "unat (of_nat (length pkt) :: u32) = length pkt" using assms(3) by (simp add: unat_of_nat)
  then have "(of_nat (length pkt) :: u32) \<noteq> 0" "\<not> push_bit 20 1 < (of_nat (length pkt) :: u32)"
    using assms(2,3) by (auto simp: word_less_nat_alt unat_eq_zero [symmetric] push_bit_eq_mult)
  then show ?thesis using assms(1) len by (subst replay_loop.simps) (simp add: frame_def read_u32_back fread_def)
qed

lemma replay_packets:
  "on_packets (map (Pair kPrimary) pkts) (rp_feed r) = Some (evs, feed) \<Longrightarrow> \<forall>pkt \<in> set pkts. 0 < length pkt \<and> length pkt \<le> 1024 \<Longrightarrow>
    replay_loop (concat (map frame pkts)) r = Some (r\<lparr>rp_packets := rp_packets r + of_nat (length pkts),
      rp_events := rp_events r + of_nat (length evs), rp_feed := feed\<rparr>)"
proof (induction pkts arbitrary: r evs)
  case (Cons pkt pkts)
  obtain evs1 feed1 evs2 where 1: "on_packet kPrimary pkt (rp_feed r) = Some (evs1, feed1)"
    "on_packets (map (Pair kPrimary) pkts) feed1 = Some (evs2, feed)" "evs = evs1 @ evs2"
    using Cons.prems(1) by (auto simp: bind_eq_Some_conv)
  let ?r = "r\<lparr>rp_packets := rp_packets r + 1, rp_events := rp_events r + of_nat (length evs1), rp_feed := feed1\<rparr>"
  have "replay_loop (concat (map frame (pkt # pkts))) r = replay_loop (concat (map frame pkts)) ?r"
    using replay_step [OF 1(1)] Cons.prems(2) by simp
  also have "\<dots> = Some (?r\<lparr>rp_packets := rp_packets ?r + of_nat (length pkts),
      rp_events := rp_events ?r + of_nat (length evs2), rp_feed := feed\<rparr>)"
    using Cons.IH [of ?r evs2] 1(2) Cons.prems(2) by simp
  finally show ?case using 1(3) by (simp add: algebra_simps)
qed (simp add: replay_end)

subsection \<open>The events of a generated session are numbered\<close>

definition numbered :: "'r session \<Rightarrow> bool" where
  "numbered = (\<lambda>(g, out, live).
     map me_seq_no out = map (\<lambda>i. of_nat (i + 1)) [0..<length out] \<and> mg_seq g = of_nat (length out + 1) \<and>
     list_all (\<lambda>e. me_type e \<in> {kOrderAdd, kOrderCancel, kTrade} \<and> me_stream_id e = 0) out)"

lemma numbered_emit:
  assumes "numbered (g, out, live)" "me_seq_no e = mg_seq g" "me_type e \<in> {kOrderAdd, kOrderCancel, kTrade}" "me_stream_id e = 0"
    and "mg_seq g' = mg_seq g + 1"
  shows "numbered (g', out @ [e], live')"
  using assms by (auto simp: numbered_def)

lemma numbered_same: "numbered (g, out, live) \<Longrightarrow> mg_seq g' = mg_seq g \<Longrightarrow> numbered (g', out, live')"
  by (simp add: numbered_def)

lemma draw_seq [simp]: "mg_seq (snd (rng_draw draw lo hi g)) = mg_seq g"
  by (simp add: rng_draw_def split_beta)

lemma numbered_ops:
  "numbered s \<Longrightarrow> numbered (mbo_add draw price side s)" "numbered s \<Longrightarrow> numbered (mbo_cancel i s)"
  "numbered s \<Longrightarrow> numbered (mbo_trade i q s)" "numbered s \<Longrightarrow> numbered (snd (mbo_draw draw lo hi s))"
  "numbered s \<Longrightarrow> numbered (snd (mbo_pick raw s))" "numbered s \<Longrightarrow> numbered (walk_mid draw (fst s), snd s)"
proof -
  obtain g out live where s: "s = (g, out, live)" by (cases s)
  have z: "me_stream_id zero_event = 0" by (simp add: zero_event_def)
  show "numbered s \<Longrightarrow> numbered (mbo_add draw price side s)"
    unfolding s mbo_add_def Let_def split_beta prod.case by (rule numbered_emit [rotated]) (auto simp: z intro: numbered_same)
  show "numbered s \<Longrightarrow> numbered (mbo_cancel i s)"
    unfolding s mbo_cancel_def Let_def prod.case by (rule numbered_emit) (auto simp: z)
  show "numbered s \<Longrightarrow> numbered (mbo_trade i q s)"
    unfolding s mbo_trade_def Let_def prod.case by (rule numbered_emit) (auto simp: z)
  show "numbered s \<Longrightarrow> numbered (snd (mbo_draw draw lo hi s))"
    unfolding s by (auto simp: mbo_draw_def Let_def split_beta intro: numbered_same)
  show "numbered s \<Longrightarrow> numbered (snd (mbo_pick raw s))"
    unfolding s by (auto simp: mbo_pick_def Let_def split_beta intro: numbered_same)
  show "numbered s \<Longrightarrow> numbered (walk_mid draw (fst s), snd s)"
    unfolding s by (auto simp: walk_mid_def Let_def split_beta intro: numbered_same)
qed

lemma numbered_shrink: "numbered s \<Longrightarrow> numbered (mbo_shrink s)"
proof (induction s rule: mbo_shrink.induct)
  case (1 g out live)
  then show ?case using numbered_ops(2) [OF 1(2)] by (cases "length live > 150") (simp_all add: mbo_shrink.simps [of g])
qed

lemma numbered_pair: "numbered s \<Longrightarrow> numbered (mbo_pair draw k s)"
  by (simp add: mbo_pair_def Let_def numbered_ops)

lemma numbered_maybe: "numbered s \<Longrightarrow> numbered (mbo_maybe_cancel draw raw s)" "numbered s \<Longrightarrow> numbered (mbo_maybe_trade draw raw s)"
  by (simp_all add: mbo_maybe_cancel_def mbo_maybe_trade_def Let_def split_beta numbered_ops)

lemma numbered_step: "numbered s \<Longrightarrow> numbered (mbo_step draw raw s)"
proof -
  assume s: "numbered s"
  let ?s1 = "snd (mbo_draw draw 0 9 s)"
  let ?s2 = "if fst (mbo_draw draw 0 9 s) < 4 then (walk_mid draw (fst ?s1), snd ?s1) else ?s1"
  let ?s3 = "mbo_pair draw 1 ?s2"
  let ?s4 = "snd (mbo_draw draw 0 9 ?s3)"
  let ?s5 = "if fst (mbo_draw draw 0 9 ?s3) < 5 then mbo_pair draw 2 ?s4 else ?s4"
  have 1: "numbered ?s1" using s by (rule numbered_ops)
  then have "numbered ?s2" using numbered_ops(6) [OF 1] by simp
  then have 4: "numbered ?s4" by (intro numbered_ops numbered_pair)
  then have "numbered ?s5" using numbered_pair [OF 4] by simp
  then have "numbered (mbo_shrink (mbo_maybe_trade draw raw (mbo_maybe_cancel draw raw ?s5)))"
    by (intro numbered_shrink numbered_maybe)
  moreover have "mbo_step draw raw s = mbo_shrink (mbo_maybe_trade draw raw (mbo_maybe_cancel draw raw ?s5))"
    by (simp only: mbo_step_def Let_def split_beta)
  ultimately show ?thesis by (simp only:)
qed

lemma numbered_session: "numbered (generate_mbo draw raw n (MtbtGenerator_init token mid tick seeded) [])"
proof -
  have "numbered ((mbo_step draw raw ^^ k) s)" if "numbered s" for k s
    using that by (induction k) (simp_all add: numbered_step)
  moreover have "numbered (MtbtGenerator_init token mid tick seeded, [], [])" by (simp add: numbered_def MtbtGenerator_init_def)
  ultimately show ?thesis by (simp add: generate_mbo_def numbered_pair)
qed

subsection \<open>A generated capture as a gapless stream\<close>

fun seq_from :: "nat \<Rightarrow> MarketEvent list \<Rightarrow> bool" where
  "seq_from s [] = True"
| "seq_from s (e # es) = (me_seq_no e = of_nat s \<and> seq_from (s + 1) es)"

lemma seq_from_map: "map me_seq_no es = map (\<lambda>i. of_nat (i + s)) [0..<length es] \<Longrightarrow> seq_from s es"
proof (induction es arbitrary: s)
  case (Cons e es)
  have "map (\<lambda>i. of_nat (i + s) :: u64) [0..<length (e # es)] = of_nat s # map (\<lambda>i. of_nat (i + (s + 1))) [0..<length es]"
    by (simp add: upt_conv_Cons map_Suc_upt [symmetric] comp_def del: upt_Suc)
  with Cons.prems have "me_seq_no e = of_nat s" "map me_seq_no es = map (\<lambda>i. of_nat (i + (s + 1))) [0..<length es]" by simp_all
  with Cons.IH show ?case by simp
qed simp

definition wire_ok :: "MarketEvent \<Rightarrow> bool" where
  "wire_ok e \<longleftrightarrow> event_fits e \<and> capturable e \<and> me_stream_id e = 0"

definition packet_of :: "MarketEvent \<Rightarrow> u8 list" where
  "packet_of e = the (encode_packet e)"

lemma packet_of_wire:
  assumes "wire_ok e"
  shows "encode_packet e = Some (packet_of e)" "0 < length (packet_of e)" "length (packet_of e) \<le> 60"
    and "parse_packet (packet_of e) p = Some ([recorded e], p\<lparr>mp_parsed := mp_parsed p + 1\<rparr>)"
    and "parse_header (packet_of e) = Some (Some \<lparr>mh_stream_id = 1, mh_seq_no = me_seq_no e, mh_msg_count = 1, mh_timestamp = me_ts e\<rparr>)"
proof -
  obtain body where b: "encode_packet e = Some (capture_header e @ body)" "length (capture_header e @ body) \<le> 60"
    "\<forall>p. parse_packet (capture_header e @ body) p = Some ([recorded e], p\<lparr>mp_parsed := mp_parsed p + 1\<rparr>)"
    using encode_packet_back [of e] assms by (auto simp: wire_ok_def)
  have p: "packet_of e = capture_header e @ body" by (simp add: packet_of_def b(1))
  then show "encode_packet e = Some (packet_of e)" "length (packet_of e) \<le> 60"
    "parse_packet (packet_of e) p = Some ([recorded e], p\<lparr>mp_parsed := mp_parsed p + 1\<rparr>)" using b by simp_all
  show "0 < length (packet_of e)" by (simp add: p)
  show "parse_header (packet_of e) = Some (Some \<lparr>mh_stream_id = 1, mh_seq_no = me_seq_no e, mh_msg_count = 1, mh_timestamp = me_ts e\<rparr>)"
    using assms by (simp add: p parse_header_back wire_ok_def)
qed

lemma captured_gapless:
  "list_all wire_ok es \<Longrightarrow> seq_from s es \<Longrightarrow> s + length es < 2 ^ 64 \<Longrightarrow>
    gapless 1 s (map (\<lambda>e. (packet_of e, [recorded e])) es)"
proof (induction es arbitrary: s)
  case (Cons e es)
  note w = packet_of_wire [of e]
  have "unat (me_seq_no e) = s" using Cons.prems by (simp add: unat_of_nat)
  then show ?case using Cons.prems Cons.IH [of "s + 1"] w(4) [of MtbtParser_init] w(5) by (simp add: MtbtParser_init_def)
qed simp

lemma in_order_arrival:
  "m \<le> n \<Longrightarrow> arrival_ok n (map (Pair src) [m..<n]) m \<and> arrived (map (Pair src) [m..<n]) m = n"
proof (induction "n - m" arbitrary: m)
  case (Suc k)
  then have "[m..<n] = m # [Suc m..<n]" by (simp add: upt_conv_Cons)
  with Suc(1) [of "Suc m"] Suc(2,3) show ?case by simp
qed simp

lemma captured_bytes: "list_all wire_ok es \<Longrightarrow> fold encode_capture es [] = concat (map frame (map packet_of es))"
proof -
  assume "list_all wire_ok es"
  then have "encode_capture e [] = frame (packet_of e)" if "e \<in> set es" for e
    using that packet_of_wire(1) [of e] by (simp add: list_all_iff encode_capture_def frame_def)
  then have "map (\<lambda>e. encode_capture e []) es = map (\<lambda>e. frame (packet_of e)) es" by simp
  then show ?thesis by (simp only: fold_encode_capture map_map comp_def append_Nil)
qed

lemma captured_replay:
  assumes "list_all wire_ok es" "seq_from 1 es" "length es + 1 < 2 ^ 64"
  shows "\<exists>feed. replay_loop (fold encode_capture es []) \<lparr>rp_packets = 0, rp_events = 0, rp_feed = FeedHandler_init\<rparr> =
      Some \<lparr>rp_packets = of_nat (length es), rp_events = of_nat (length es), rp_feed = feed\<rparr> \<and>
    fh_malformed feed = 0 \<and> ss_gaps (fh_streams feed 1) = 0"
proof -
  let ?ps = "map (\<lambda>e. (packet_of e, [recorded e])) es" and ?as = "map (Pair kPrimary) [0..<length es]"
  have g: "gapless 1 1 ?ps" using assms by (intro captured_gapless) simp_all
  have a: "arrival_ok (length ?ps) ?as 0" "arrived ?as 0 = length es" using in_order_arrival [of 0 "length es" kPrimary] by simp_all
  have s: "stream_at 1 1 ?ps 0 FeedHandler_init" by (simp add: stream_at_def FeedHandler_init_def StreamStats_default_def)
  have m: "fh_malformed FeedHandler_init = 0" by (simp add: FeedHandler_init_def)
  have q: "map (\<lambda>(src, k). (src, fst (?ps ! k))) ?as = map (Pair kPrimary) (map packet_of es)"
    by (rule nth_equalityI) simp_all
  have d: "drop 0 (take (length es) ?ps) = ?ps" by simp
  note e = arrivals_emit [OF g a(1) le0 s, unfolded a(2) q d m]
  obtain feed where f: "on_packets (map (Pair kPrimary) (map packet_of es)) FeedHandler_init = Some (concat (map snd ?ps), feed)"
    "stream_at 1 1 ?ps (length es) feed" "fh_malformed feed = 0"
    using e by (elim exE conjE) (rule that)
  have l: "length (concat (map snd ?ps)) = length es" by (induction es) simp_all
  have "\<forall>pkt \<in> set (map packet_of es). 0 < length pkt \<and> length pkt \<le> 1024"
  proof
    fix pkt assume "pkt \<in> set (map packet_of es)"
    then obtain e where "pkt = packet_of e" "wire_ok e" using assms(1) by (auto simp: list_all_iff)
    with packet_of_wire(2,3) [of e] show "0 < length pkt \<and> length pkt \<le> 1024" by simp
  qed
  from replay_packets [where r = "\<lparr>rp_packets = 0, rp_events = 0, rp_feed = FeedHandler_init\<rparr>", unfolded Replay.simps, OF f(1) this]
  have "replay_loop (fold encode_capture es []) \<lparr>rp_packets = 0, rp_events = 0, rp_feed = FeedHandler_init\<rparr> =
      Some \<lparr>rp_packets = of_nat (length es), rp_events = of_nat (length es), rp_feed = feed\<rparr>"
    unfolding captured_bytes [OF assms(1)] l length_map by simp
  with f(2,3) show ?thesis by (auto simp: stream_at_def)
qed

subsection \<open>The shape of a histogram\<close>

lemma track_samples_max: "track_samples vs = (record_all vs (LatencyTracker_init 2000000), foldr max vs 0)"
proof (induction vs rule: rev_induct)
  case (snoc v vs)
  then show ?case 
    by (simp only: track_samples_def record_all_def fold_append foldr_max_snoc comp_apply fold.simps id_apply prod.case)
      (auto simp: max_def)
qed (simp add: track_samples_def record_all_def)

lemma tracked_percentiles:
  assumes "vs \<noteq> []" "length vs < 2 ^ 52" "lt = record_all vs (LatencyTracker_init 2000000)"
  shows "p \<le> q \<Longrightarrow> percentile lt p \<le> percentile lt q" and "percentile lt p \<in> set vs"
proof -
  have "tracks lt vs \<and> lt_size lt = 2000000"
    using tracks_record_all [OF tracks_start(1) [of 2000000], of vs] assms(2,3) by (simp add: LatencyTracker_init_def)
  then have t: "tracks lt vs" and m: "lt_size lt = 2000000" by simp_all
  note pc = tracks_percentile [OF t assms(1), unfolded m, simplified]
  have r: "rank_index (retained lt) x < length (take 2000000 vs)" for x
    using rank_index_less [OF pc(3)] by (simp add: pc(2))
  show "percentile lt p \<le> percentile lt q" if "p \<le> q"
    unfolding pc(1) by (intro sorted_nth_mono rank_index_mono that) (use r [of q] in simp_all)
  have "percentile lt p \<in> set (take 2000000 vs)"
    unfolding pc(1) using nth_mem [of "rank_index (retained lt) p" "sort (take 2000000 vs)"] r [of p] by simp
  then show "percentile lt p \<in> set vs" by (rule in_set_takeD)
qed

text \<open>The length of a bar in exact terms: monotone in the value, and at most 60 characters despite the two roundings.\<close>

definition bar_of :: "u64 \<Rightarrow> u64 \<Rightarrow> int" where
  "bar_of max_ns v = (if max_ns > 0 then \<lfloor>fl (fl (60 * as_double v) / as_double max_ns)\<rfloor> else 0)"

lemma as_double_mono: "v \<le> w \<Longrightarrow> as_double v \<le> as_double w"
  unfolding as_double_def word_le_nat_alt by (rule fp.rnd_mono) (rule of_nat_mono)

lemma as_double_nonneg: "0 \<le> as_double v"
  unfolding as_double_def by (rule fp.rnd_nonneg) (rule of_nat_0_le_iff)

lemma as_double_ge_1:
  assumes "0 < v"
  shows "1 \<le> as_double v"
proof -
  have "1 \<le> v" using assms by (simp add: word_le_nat_alt word_less_nat_alt)
  from as_double_mono [OF this] show ?thesis using fp.rnd_int [of 1] by (simp add: as_double_def)
qed

lemma bar_mono: "v \<le> w \<Longrightarrow> bar_of m v \<le> bar_of m w"
  unfolding bar_of_def
  by (auto intro!: floor_mono fp.rnd_mono divide_right_mono as_double_mono as_double_nonneg mult_left_mono)

lemma bar_bounds:
  assumes "v \<le> m"
  shows "0 \<le> bar_of m v" and "bar_of m v \<le> 60"
proof -
  show "0 \<le> bar_of m v" by (auto simp: bar_of_def intro!: fp.rnd_nonneg divide_nonneg_nonneg mult_nonneg_nonneg as_double_nonneg)
  have "bar_of m m \<le> 60"
  proof (cases "m > 0")
    case True
    define M where "M = as_double m"
    have M: "0 < M" using as_double_ge_1 [OF True] by (simp add: M_def)
    have "fl (60 * M) / M \<le> 60 * M * (1 + 1 / 2 ^ 53) / M" using M by (intro divide_right_mono fl_error) simp_all
    then have q: "fl (60 * M) / M \<le> 60 * (1 + 1 / 2 ^ 53)" using M by simp
    have "fl (fl (60 * M) / M) \<le> fl (60 * M) / M * (1 + 1 / 2 ^ 53)" using M by (intro fl_error) (simp add: fp.rnd_nonneg)
    also have "\<dots> \<le> 60 * (1 + 1 / 2 ^ 53) * (1 + 1 / 2 ^ 53)" using q by (rule mult_right_mono) simp
    also have "\<dots> < 61" by simp
    finally have "\<lfloor>fl (fl (60 * M) / M)\<rfloor> < 61" by (simp add: floor_less_iff)
    then show ?thesis using True by (simp add: bar_of_def M_def)
  qed (simp add: bar_of_def)
  with bar_mono [OF assms] show "bar_of m v \<le> 60" by (rule order_trans)
qed

lemma histogram_shape:
  assumes "vs \<noteq> []" "length vs < 2 ^ 52" "track_samples vs = (lt, max_ns)" "i \<le> j"
  shows "case (histogram_row lt max_ns i, histogram_row lt max_ns j) of ((p, v, bar), (q, w, bar')) \<Rightarrow>
    v \<le> w \<and> w \<le> max_ns \<and> w \<in> set vs \<and> 0 \<le> bar \<and> bar \<le> bar' \<and> bar' \<le> 60"
proof -
  have lt: "lt = record_all vs (LatencyTracker_init 2000000)" and m: "max_ns = Max (set vs)"
    using assms(1,3) by (simp_all add: track_samples_max foldr_max_Max)
  let ?p = "\<lambda>k. fl (fl (100 * of_nat k) / of_nat kBuckets)"
  have p: "?p i \<le> ?p j" using assms(4) by (intro fp.rnd_mono divide_right_mono) simp_all
  note t = tracked_percentiles [OF assms(1,2) lt]
  have le: "percentile lt q \<le> max_ns" for q unfolding m using t(2) [of q] by simp
  show ?thesis
    using t(1) [OF p] t(2) [of "?p j"] le [of "?p i"] le [of "?p j"] bar_bounds [OF le [of "?p i"]] bar_bounds [OF le [of "?p j"]]
      bar_mono [OF t(1) [OF p], of max_ns]
    by (simp add: histogram_row_def Let_def bar_of_def del: of_nat_mult)
qed

subsection \<open>Properties\<close>

text \<open>C39: What the generator tool writes, the replay tool reads. Whatever the arguments and the random numbers, if the fields of
  the generated events fit their wire types, then replaying the file that \<open>mtbt_gen\<close> wrote reports as many packets and as many events as were
  generated and no malformed packet.\<close>

theorem generated_capture_replays:
  assumes "mtbt_gen_main draw raw seeded argv True = (0, Some bytes)" and "events = gen_events draw raw seeded argv"
    and "\<forall>ev \<in> set events. event_fits ev" and "length events + 1 < 2 ^ 64"
  shows "mtbt_replay_main [prog, path] (Some bytes) = Some (0, Some (of_nat (length events), of_nat (length events), 0))"
proof -
  obtain cnt token mid tick g live where s: "generate_mbo draw raw cnt (MtbtGenerator_init token mid tick seeded) [] = (g, events, live)"
    using assms(2) by (auto simp: gen_events_def Let_def split: prod.splits)
  then have n: "numbered (g, events, live)" by (metis numbered_session)
  have "list_all wire_ok events" using n assms(3) by (auto simp: numbered_def wire_ok_def list_all_iff)
  moreover have "seq_from 1 events" using n by (intro seq_from_map) (simp add: numbered_def)
  moreover have "bytes = fold encode_capture events []"
    using assms(1,2) by (simp add: mtbt_gen_main_def Let_def split: if_splits)
  ultimately show ?thesis using captured_replay [of events] assms(4) by (auto simp: mtbt_replay_main_def)
qed


theorem generated_capture_replays_witness:
  "\<exists>bytes. mtbt_gen_main least_draw (\<lambda>r. (7, r)) () [''mtbt_gen'', ''day.mtbt'', ''0''] True = (0, Some bytes) \<and>
     mtbt_replay_main [''mtbt_replay'', ''day.mtbt''] (Some bytes) = Some (0, Some (6, 6, 0))"
proof -
  let ?evs = "gen_events least_draw (\<lambda>r. (7, r)) () [''mtbt_gen'', ''day.mtbt'', ''0'']"
  have e: "length ?evs = 6" "\<forall>ev \<in> set ?evs. event_fits ev" by code_simp+
  show ?thesis
    using generated_capture_replays [of least_draw "\<lambda>r. (7, r)" "()" "[''mtbt_gen'', ''day.mtbt'', ''0'']" _ ?evs "''mtbt_replay''" "''day.mtbt''"] e
    by (simp add: mtbt_gen_main_def)
qed

end
