(* ===== verification/Demo_Main.thy ===== *)
theory Demo_Main
  imports Backtest
begin

text \<open>
  \<^verbatim>\<open>src/main.cpp\<close>: the entry point of the system, which wires the pipeline together and runs a synthetic session on it.

  The reference data file is its text, or \<open>None\<close> when it cannot be opened. The flag that the signal handler clears is
  the argument \<open>running\<close>: what the loop reads when it is about to run its \<open>n\<close>-th event. The clock readings and the
  uninitialised memory are arguments as in the backtest. What the program reports is taken from the final pipeline.
\<close>

subsection \<open>Set-up\<close>

definition main_kToken :: Token where "main_kToken = 2885"

definition SnapQuote :: "Token \<Rightarrow> Price \<Rightarrow> Price \<Rightarrow> u64 \<Rightarrow> MarketEvent" where
  "SnapQuote token bid ask seq = zero_event\<lparr>me_type := kSnapQuote, me_token := token, me_bid_price := bid, me_bid_qty := 100,
     me_ask_price := ask, me_ask_qty := 100, me_seq_no := seq\<rparr>"

definition main_instrument :: Instrument where
  "main_instrument = Instrument_default\<lparr>i_token := main_kToken, i_segment := kSegmentCm, i_instrument_type := kEquity,
     i_lot_size := 1, i_tick_size := 5, i_prev_close := 1000000, i_circuit_pct_x100 := 2000,
     i_symbol := ''RELIANCE'', i_series := ''EQ''\<rparr>"

definition main_symbols :: "string option \<Rightarrow> SymbolMaster" where
  "main_symbols file =
     (case load_csv file SymbolMaster_init of (rows, symbols) \<Rightarrow>
        if rows < 0 then sm_put main_instrument symbols else symbols)"

definition main_mm_config :: MarketMakingConfig where
  "main_mm_config = MarketMakingConfig_default\<lparr>mc_max_position_lots := 25\<rparr>"

definition main_risk_config :: RiskConfig where
  "main_risk_config = RiskConfig_default\<lparr>rc_max_orders_per_sec := 1000, rc_max_daily_loss_inr := 1000000,
     rc_price_sanity_pct := 50\<rparr>"

definition main_orders :: "(nat \<Rightarrow> Order) \<Rightarrow> OrderManager" where
  "main_orders memory = (let om = OrderManager_init memory
     in om\<lparr>om_encoder := set_trader_id 0 (set_alpha_char 67 77 (om_encoder om))\<rparr>)"

definition main_pipeline :: "SymbolMaster \<Rightarrow> timespec \<Rightarrow> (nat \<Rightarrow> Order) \<Rightarrow> u8 list \<Rightarrow> Pipeline option" where
  "main_pipeline symbols wall memory buf =
     do { (watched, books) \<leftarrow> add_token main_kToken (get_tick_size symbols main_kToken) (2 ^ 14) BookManager_init;
          let pipe = Pipeline_init books (MarketMaking_init (Some symbols) main_mm_config)
                       (RiskManager_init (Some symbols) main_risk_config) (main_orders memory) buf;
          Some (Pipeline_set_now (ist_time_of_day_ns (ist_now_ns wall) 9 30 0) pipe) }"

definition main_mid :: "SymbolMaster \<Rightarrow> Price" where
  "main_mid symbols = (case sm_get symbols main_kToken of None \<Rightarrow> 1000000
     | Some inst \<Rightarrow> if i_prev_close inst > 0 then i_prev_close inst else 1000000)"

subsection \<open>The synthetic session\<close>

definition main_kMaxEvents :: u64 where "main_kMaxEvents = 500000"

definition main_fill :: "Order \<Rightarrow> FillReport" where
  "main_fill ord = \<lparr>f_exchange_order_no = 0, f_client_order_id = o_client_order_id ord, f_token = o_token ord,
     f_fill_price = o_price ord, f_fill_qty = o_qty ord, f_remaining_qty = 0, f_fill_time = 0, f_trade_no = 0, f_side = o_side ord\<rparr>"

definition main_step :: "Clocks \<Rightarrow> Price \<Rightarrow> u64 \<Rightarrow> Pipeline \<Rightarrow> Pipeline option" where
  "main_step ck mid seq pipe =
     (let base = mid + uint (seq mod 100) * 5
      in do { (n, pipe) \<leftarrow> process ck (SnapQuote main_kToken base (base + 10) seq) pipe;
              Some (fold (\<lambda>ord. Pipeline_on_fill (main_fill ord)) (last_sent pipe) pipe) })"

function main_loop :: "(u64 \<Rightarrow> bool) \<Rightarrow> (u64 \<Rightarrow> Clocks) \<Rightarrow> Price \<Rightarrow> u64 \<Rightarrow> Pipeline \<Rightarrow> Pipeline option" where
  "main_loop running cks mid seq pipe =
     (if running seq \<and> seq \<le> main_kMaxEvents
      then do { pipe \<leftarrow> main_step (cks seq) mid seq pipe; main_loop running cks mid (seq + 1) pipe }
      else Some pipe)"
  by pat_completeness auto
termination
proof (relation "measure (\<lambda>(_, _, _, seq, _). unat (main_kMaxEvents + 1 - seq))")
  fix running :: "u64 \<Rightarrow> bool" and cks :: "u64 \<Rightarrow> Clocks" and mid seq pipe pipe'
  assume "running seq \<and> seq \<le> main_kMaxEvents"
  then have s: "unat seq \<le> 500000" by (simp add: main_kMaxEvents_def word_le_nat_alt)
  then have "unat (500001 - seq) = 500001 - unat seq" "unat (500000 - seq) = 500000 - unat seq"
    by (subst unat_sub; simp add: word_le_nat_alt)+
  then show "((running, cks, mid, seq + 1, pipe'), running, cks, mid, seq, pipe)
      \<in> measure (\<lambda>(_, _, _, seq, _). unat (main_kMaxEvents + 1 - seq))"
    using s by (simp add: main_kMaxEvents_def)
qed simp

declare main_loop.simps [simp del]

definition main_program :: "(u64 \<Rightarrow> bool) \<Rightarrow> (u64 \<Rightarrow> Clocks) \<Rightarrow> timespec \<Rightarrow> string option \<Rightarrow> (nat \<Rightarrow> Order) \<Rightarrow> u8 list \<Rightarrow> Pipeline option" where
  "main_program running cks wall file memory buf =
     (let symbols = main_symbols file
      in do { pipe \<leftarrow> main_pipeline symbols wall memory buf;
              main_loop running cks (main_mid symbols) 1 pipe })"

subsection \<open>The order budget under a clock that stands still\<close>

text \<open>The simulated time is set once, so the token bucket is never refilled: the orders approved so far and the tokens left
  always add up to the configured rate.\<close>

definition frozen :: "Timestamp \<Rightarrow> Pipeline \<Rightarrow> bool" where
  "frozen now p \<longleftrightarrow> rm_sim_now_ns (pp_risk p) = now \<and> rm_last_refill_ns (pp_risk p) \<in> {0, now}
     \<and> (\<exists>k. rm_tokens (pp_risk p) = of_nat k \<and> unat (ps_orders_approved (pp_stats p)) + k = 1000)"

lemma frozen_consume:
  assumes "rm_last_refill_ns rm \<in> {0, now}" "rm_tokens rm = of_nat k" "k \<le> 1000" "ConsumeRateToken now rm = (b, rm')"
  shows "rm_sim_now_ns rm' = rm_sim_now_ns rm" "rm_last_refill_ns rm' \<in> {0, now}"
    and "b \<longleftrightarrow> 0 < k" "rm_tokens rm' = of_nat (if b then k - 1 else k)"
proof -
  have f: "fl (of_nat k - 1) = of_nat (k - 1)" if "0 < k" using fp.rnd_int [of "int k - 1"] that assms(3) by (simp add: of_nat_diff)
  have one: "(1 :: rat) \<le> of_nat k \<longleftrightarrow> 0 < k" by linarith
  have e: "(b, rm') = (if 0 < k then (True, rm\<lparr>rm_last_refill_ns := now, rm_tokens := fl (of_nat k - 1)\<rparr>)
      else (False, rm\<lparr>rm_last_refill_ns := now\<rparr>))"
    unfolding assms(4) [symmetric] using assms(1,2) one by (auto simp: ConsumeRateToken_def Let_def)
  then show "rm_sim_now_ns rm' = rm_sim_now_ns rm" "rm_last_refill_ns rm' \<in> {0, now}" "b \<longleftrightarrow> 0 < k"
    "rm_tokens rm' = of_nat (if b then k - 1 else k)" using f assms(2) by (auto split: if_splits)
qed

lemma send_one_risk:
  assumes c: "check ord w1 (pp_risk p) = Some (r, rm)" and s: "send_one w1 w2 ord (sent, p) = Some (sent', p')"
  shows "pp_risk p' = rm \<and> ps_orders_approved (pp_stats p') =
      (if r = kApproved then ps_orders_approved (pp_stats p) + 1 else ps_orders_approved (pp_stats p))"
proof (cases "new_order (pp_om p) ord (pp_msg_buf p) (send_stamp w2 p) 79")
  case None
  then show ?thesis using s c by (simp add: send_one_def Let_def split: if_splits) auto
next
  case (Some x)
  obtain n ord' buf om where x: "x = (n, ord', buf, om)" by (cases x)
  show ?thesis using s unfolding send_one_cases [OF c Some [unfolded x]] by (cases "r = kApproved"; cases "n = 0") auto
qed

lemma frozen_send_one:
  assumes "frozen now p" "now \<noteq> 0" "send_one w1 w2 ord (sent, p) = Some (sent', p')"
  shows "frozen now p'"
proof -
  obtain k where k: "rm_sim_now_ns (pp_risk p) = now" "rm_last_refill_ns (pp_risk p) \<in> {0, now}"
    "rm_tokens (pp_risk p) = of_nat k" "unat (ps_orders_approved (pp_stats p)) + k = 1000"
    using assms(1) by (auto simp: frozen_def)
  obtain r rm where c: "check ord w1 (pp_risk p) = Some (r, rm)"
    using assms(3) by (cases "check ord w1 (pp_risk p)") (auto simp: send_one_def)
  have now: "risk_now w1 (pp_risk p) = now" using k(1) assms(2) by (simp add: risk_now_def)
  have "k \<le> 1000" using k(4) by simp
  note fc = frozen_consume [OF k(2,3) this]
  have rm: "rm_sim_now_ns rm = now" "rm_last_refill_ns rm \<in> {0, now}" "r = kApproved \<Longrightarrow> 0 < k"
    "rm_tokens rm = of_nat (if r = kApproved then k - 1 else k)"
    using check_bucket [OF c, unfolded now] fc [of "r = kApproved" rm] k(1-3) by auto
  note risk = send_one_risk [OF c assms(3)]
  have "unat (ps_orders_approved (pp_stats p) + 1) = unat (ps_orders_approved (pp_stats p)) + 1"
    using unat_add_small [of "ps_orders_approved (pp_stats p)" 1] k(4) by simp
  then have "unat (ps_orders_approved (pp_stats p')) + (if r = kApproved then k - 1 else k) = 1000"
    using risk rm(3) k(4) by (cases "r = kApproved") simp_all
  then show ?thesis unfolding frozen_def using rm(1,2,4) risk by blast
qed

lemma frozen_send_orders:
  "send_orders wall k ords (sent, p) = Some (sent', p') \<Longrightarrow> frozen now p \<Longrightarrow> now \<noteq> 0 \<Longrightarrow> frozen now p'"
proof (induction ords arbitrary: k sent p)
  case (Cons ord ords)
  then obtain s1 p1 where s: "send_one (wall k) (wall (k + 1)) ord (sent, p) = Some (s1, p1)"
      "send_orders wall (k + 2) ords (s1, p1) = Some (sent', p')" by (auto simp: bind_eq_Some_conv)
  show ?case using Cons.IH [OF s(2) frozen_send_one [OF Cons.prems(2,3) s(1)] Cons.prems(3)] .
qed simp

lemma frozen_process:
  assumes "frozen now p" "now \<noteq> 0" "process ck ev p = Some (n, p')"
  shows "frozen now p'"
proof (cases "get_book (me_token ev) (pp_books p)")
  case None
  then show ?thesis using assms process_unwatched [OF None, of ck] by (auto simp: frozen_def)
next
  case (Some b)
  then obtain res book where b: "apply_event ev b = Some (res, book)"
    using assms(3) process_stuck [OF Some, of ck] by (cases "apply_event ev b") auto
  let ?p1 = "updated ck ev book p"
  have upd: "frozen now ?p1" "frozen now (with_orders ?p1)"
    using assms(1) by (auto simp: frozen_def updated_def with_orders_def update_reference_def)
  have "\<exists>sent p2. send_orders (ck_wall ck) 1 (mm_pending (pp_strat ?p1)) (0, with_orders ?p1) = Some (sent, p2)
      \<and> pp_risk p' = pp_risk p2 \<and> pp_stats p' = pp_stats p2" if "p' \<noteq> ?p1"
    using assms(3) that unfolding process_watched [OF Some b refl] by (auto simp: bind_eq_Some_conv split: if_splits)
  then consider "p' = ?p1" | sent p2 where "send_orders (ck_wall ck) 1 (mm_pending (pp_strat ?p1)) (0, with_orders ?p1) = Some (sent, p2)"
      "pp_risk p' = pp_risk p2" "pp_stats p' = pp_stats p2" by blast
  then show ?thesis
  proof cases
    case 1
    then show ?thesis using upd(1) by simp
  next
    case (2 sent p2)
    then show ?thesis using frozen_send_orders [OF 2(1) upd(2) assms(2)] by (simp add: frozen_def)
  qed
qed

lemma frozen_fill: "frozen now p \<Longrightarrow> frozen now (Pipeline_on_fill fill p)"
  by (simp add: frozen_def Pipeline_on_fill_def RiskManager_on_fill_def RecomputePnl_def Let_def)

subsection \<open>The session runs to its end\<close>

definition main_inv :: "Timestamp \<Rightarrow> nat \<Rightarrow> Pipeline \<Rightarrow> bool" where
  "main_inv now k p \<longleftrightarrow> pipe_inv p \<and> frozen now p \<and> stats_ok k (pp_stats p) \<and> unat (ps_events (pp_stats p)) = k"

lemma main_fills_inv: "main_inv now k p \<Longrightarrow> main_inv now k (fold (\<lambda>ord. Pipeline_on_fill (main_fill ord)) ords p)"
proof (induction ords arbitrary: p)
  case (Cons ord ords)
  have "pipe_inv (Pipeline_on_fill (main_fill ord) p)" using pipe.exec_inv [of p "PipeFill (main_fill ord)"] Cons.prems by (simp add: main_inv_def)
  then have "main_inv now k (Pipeline_on_fill (main_fill ord) p)"
    using Cons.prems frozen_fill by (simp add: main_inv_def) (simp add: Pipeline_on_fill_def)
  from Cons.IH [OF this] show ?case by simp
qed simp

lemma snap_returns: "apply_event (SnapQuote token bid ask seq) b \<noteq> None"
  by (simp add: SnapQuote_def apply_event_def check_seq_def dispatch_def zero_event_def split: prod.splits)

lemma main_step_inv:
  assumes "main_inv now k p" "now \<noteq> 0" "k < 2 ^ 62"
  shows "\<exists>p'. main_step ck mid seq p = Some p' \<and> main_inv now (k + 1) p'"
proof -
  define base where "base = mid + uint (seq mod 100) * 5"
  let ?ev = "SnapQuote main_kToken base (base + 10) seq"
  have inv: "pipe_inv p" using assms(1) by (simp add: main_inv_def)
  obtain n p1 where p1: "process ck ?ev p = Some (n, p1)"
    using process_returns [OF inv, of ?ev _ ck] snap_returns by (cases "get_book (me_token ?ev) (pp_books p)") blast+
  have "pipe_inv p1" using pipe.exec_inv [OF inv, of "PipeEvent ck ?ev"] p1 by simp
  moreover have "frozen now p1" using assms(1) frozen_process [OF _ assms(2) p1] by (simp add: main_inv_def)
  moreover have "stats_ok (k + 1) (pp_stats p1)"
    using stats_step [OF _ inv assms(3), of "PipeEvent ck ?ev"] assms(1) p1 by (simp add: main_inv_def)
  moreover have "ps_events (pp_stats p1) = ps_events (pp_stats p) + of_nat 1" using process_stats [OF inv p1] by auto
  then have "unat (ps_events (pp_stats p1)) = k + 1"
    using unat_add_small [of "ps_events (pp_stats p)" 1] assms(1,3) by (simp add: main_inv_def)
  ultimately have "main_inv now (k + 1) p1" by (simp add: main_inv_def)
  from main_fills_inv [OF this] show ?thesis using p1 by (simp add: main_step_def base_def [symmetric])
qed

lemma main_loop_inv:
  assumes "main_inv now k p" "now \<noteq> 0" "k \<le> 500000"
  shows "\<exists>p' m. main_loop running cks mid (of_nat (k + 1)) p = Some p' \<and> main_inv now m p' \<and> m \<le> 500000 \<and>
    ((\<forall>n. running n) \<longrightarrow> m = 500000)"
  using assms
proof (induction "500000 - k" arbitrary: k p)
  case 0
  then have "k = 500000" by simp
  then show ?case using 0 by (subst main_loop.simps) (auto simp: main_kMaxEvents_def)
next
  case (Suc d)
  have le: "(of_nat (k + 1) :: u64) \<le> main_kMaxEvents"
    using Suc(2) by (simp add: main_kMaxEvents_def word_le_nat_alt unsigned_of_nat take_bit_nat_eq_self del: of_nat_add of_nat_Suc)
  show ?case
  proof (cases "running (of_nat (k + 1))")
    case True
    obtain p1 where p1: "main_step (cks (of_nat (k + 1))) mid (of_nat (k + 1)) p = Some p1" "main_inv now (k + 1) p1"
      using main_step_inv [OF Suc(3,4), of "cks (of_nat (k + 1))" mid "of_nat (k + 1)"] Suc(5) by auto
    have "main_loop running cks mid (of_nat (k + 1)) p = main_loop running cks mid (of_nat (k + 1 + 1)) p1"
      using True le p1(1) by (subst main_loop.simps) (simp add: add.commute)
    then show ?thesis using Suc(1) [of "k + 1", OF _ p1(2) Suc(4)] Suc(2) by simp
  next
    case False
    then have "main_loop running cks mid (of_nat (k + 1)) p = Some p" by (subst main_loop.simps) simp
    then show ?thesis using False Suc(3,5) by auto
  qed
qed

lemma main_start:
  assumes "length buf = kNnfMaxMsg" "unat (ist_now_ns wall) + day_ns < 2 ^ 64"
  shows "\<exists>p now. main_pipeline symbols wall memory buf = Some p \<and> main_inv now 0 p \<and> now \<noteq> 0"
proof -
  define now where "now = ist_time_of_day_ns (ist_now_ns wall) 9 30 0"
  have "now = ist_midnight_ns (ist_now_ns wall) + of_nat (34200 * 1000000000)"
    by (simp add: now_def ist_time_of_day_ns_def Let_def kNsPerSecond_def)
  then have "unat now = unat (ist_now_ns wall) div day_ns * day_ns + 34200 * 1000000000"
    using unat_midnight_plus [OF assms(2), of "34200 * 1000000000"] by (simp add: day_ns_def)
  then have nz: "now \<noteq> 0" by auto
  obtain b where b: "OrderBook_init main_kToken (get_tick_size symbols main_kToken) (2 ^ 14) = Some b" using bt_book_starts by blast
  define p0 where "p0 books = Pipeline_init books (MarketMaking_init (Some symbols) main_mm_config)
    (RiskManager_init (Some symbols) main_risk_config) (main_orders memory) buf" for books
  obtain w books where a: "add_token main_kToken (get_tick_size symbols main_kToken) (2 ^ 14) BookManager_init = Some (w, books)"
    using b by (simp add: add_token_def BookManager_init_def main_kToken_def kMaxTokens_def)
  have "encoder_ok (om_encoder (main_orders memory))"
    unfolding main_orders_def OrderManager_init_def Let_def
    by (simp add: encoder_ok_set encoder_ok_init in_i32_def)
  moreover have "om_inv (main_orders memory)" using om_inv_init [of memory] by (simp add: main_orders_def om_inv_def Let_def)
  ultimately have "pipe_inv (p0 books)" using assms(1) mm_inv_init
    by (simp add: pipe_inv_def p0_def Pipeline_init_def MarketMaking_init_def RiskManager_init_def main_risk_config_def RiskConfig_default_def)
  then have "pipe_inv (Pipeline_set_now now (p0 books))" using pipe.exec_inv [of "p0 books" "PipeNow now"] by simp
  moreover have "frozen now (Pipeline_set_now now (p0 books))"
    using fp.rnd_int [of 1000] by (simp add: frozen_def Pipeline_set_now_def RiskManager_set_now_def p0_def Pipeline_init_def RiskManager_init_def
        main_risk_config_def PipelineStats_default_def)
  moreover have "pp_stats (Pipeline_set_now now (p0 books)) = PipelineStats_default" by (simp add: Pipeline_set_now_def p0_def Pipeline_init_def)
  ultimately have "main_inv now 0 (Pipeline_set_now now (p0 books))" by (simp add: main_inv_def stats_ok_def PipelineStats_default_def)
  then show ?thesis using a nz by (auto simp: main_pipeline_def now_def p0_def)
qed

subsection \<open>Properties\<close>

text \<open>C40: The demonstration session runs to its end, with whatever reference data and whenever a signal stops it; without a signal
  it processes exactly 500000 events. Every order generated is approved or rejected, and since its clock never moves the rate limit of 1000
  per second is a limit for the whole session: at most 1000 orders are ever approved.\<close>

theorem demo_session:
  assumes "length buf = kNnfMaxMsg" "unat (ist_now_ns wall) + day_ns < 2 ^ 64"
  shows "\<exists>p st. main_program running cks wall file memory buf = Some p \<and> st = pp_stats p \<and> unat (ps_events st) \<le> 500000 \<and>
    ((\<forall>n. running n) \<longrightarrow> unat (ps_events st) = 500000) \<and>
    unat (ps_orders_generated st) = unat (ps_orders_approved st) + unat (ps_orders_rejected st) \<and>
    unat (ps_orders_sent st) \<le> unat (ps_orders_approved st) \<and> unat (ps_orders_approved st) \<le> 1000"
proof -
  obtain p now where p: "main_pipeline (main_symbols file) wall memory buf = Some p" "main_inv now 0 p" "now \<noteq> 0"
    using main_start [OF assms] by blast
  obtain p' m where p': "main_loop running cks (main_mid (main_symbols file)) 1 p = Some p'" "main_inv now m p'" "m \<le> 500000"
      "(\<forall>n. running n) \<longrightarrow> m = 500000"
    using main_loop_inv [OF p(2,3), of running cks "main_mid (main_symbols file)"] by auto
  have "main_program running cks wall file memory buf = Some p'" using p(1) p'(1) by (simp add: main_program_def)
  then show ?thesis using p'(2-4) by (auto simp: main_inv_def stats_ok_def frozen_def)
qed

theorem demo_session_witness:
  "\<exists>p. main_program (\<lambda>_. True) (\<lambda>_. example_clocks) (0, 0) None (\<lambda>_. example_order) (replicate kNnfMaxMsg 0) = Some p \<and>
     unat (ps_events (pp_stats p)) = 500000 \<and> unat (ps_orders_approved (pp_stats p)) \<le> 1000"
  using demo_session [of "replicate kNnfMaxMsg 0" "(0, 0)" "\<lambda>_. True" "\<lambda>_. example_clocks" None "\<lambda>_. example_order"]
  by (auto simp: ist_now_ns_def kNsPerSecond_def kIstOffsetSeconds_def day_ns_def)

end
