(* ===== verification/Spec2Isabelle.thy ===== *)
theory Spec2Isabelle
  imports Ring_Buffer Book_Manager Feed_Handler Event_Source Order_Manager Nnf_Session Risk_Manager Market_Making Pipeline Backtest Mtbt_Generator Tools Memory_Pool Market_Data_Gateway Order_Gateway Logger Irage_Strategy Capture_Tools Demo_Main
begin

text \<open>
  Verification of the NSE low-latency trading system.

  \<^bold>\<open>The program.\<close> Multicast market data arrives on two redundant sources. The market-data gateway drains the
  sockets and hands packets to the feed handler, which decodes them with the MTBT parser, removes duplicates
  and detects gaps, and pushes the events into a lock-free ring buffer. The book manager routes events to order books. The
  pipeline drives one event through its book, the market-making strategy, the pre-trade risk manager and the
  order manager, which encodes NNF messages; the order gateway writes them to the exchange's socket
  under the NNF session's login and heartbeat protocol. A simulation side (generator, capture files, fill simulator, fee
  model, backtest engine, tools) replays data through the same pipeline. An adapter strategy quotes through a
  vendor's platform with the shared quoting arithmetic.

  \<^bold>\<open>Theories and sources\<close> (paths under \<^verbatim>\<open>src/\<close> of the repository).

  \<^item> \<^verbatim>\<open>Prelude\<close>: machine integers, truncating division, transition systems; the locales \<open>invariant_system\<close> and
    \<open>op_machine\<close> that carry the invariant proofs. \<^verbatim>\<open>Types\<close>: \<^verbatim>\<open>common/types.hpp\<close>.
  \<^item> \<^verbatim>\<open>Ring_Buffer\<close>: \<^verbatim>\<open>common/ring_buffer.hpp\<close>. The locale \<open>bounded_queue\<close> is its interface. Shown: it refines a bounded list;
    under every interleaving of the producer's and the consumer's atomic accesses it is first-in first-out and no slot is
    read and written at once.
  \<^item> \<^verbatim>\<open>Memory_Pool\<close>: \<^verbatim>\<open>common/memory_pool.hpp\<close> over an explicit store of union slots. Shown: no slot in use is handed out
    again, live objects stay intact, the counters are exact.
  \<^item> \<^verbatim>\<open>Logger\<close>: \<^verbatim>\<open>common/logger.hpp\<close>. Shown: the closed log holds exactly the accepted records in order; the others are counted.
  \<^item> \<^verbatim>\<open>Time_Utils\<close>: \<^verbatim>\<open>common/time_utils.hpp\<close>; \<^verbatim>\<open>Fp64\<close>: rounding of rationals to binary64, for the code's \<open>double\<close>s.
  \<^item> \<^verbatim>\<open>Order_Table\<close>, \<^verbatim>\<open>Price_Levels\<close>, \<^verbatim>\<open>Order_Book\<close>, \<^verbatim>\<open>Book_Manager\<close>: \<^verbatim>\<open>order_book/*.hpp\<close>. Shown: the open-addressing table refines
    a finite map; the level arrays stay sorted; from an initial book a well-formed feed leaves exactly the orders and levels of the
    abstract book; events always return unless the table is full, in which case erasing diverges; after a gap nothing but a
    snapshot changes the book; routing touches only the event's book.
  \<^item> \<^verbatim>\<open>Byte_Codec\<close>, \<^verbatim>\<open>Mtbt_Parser\<close>, \<^verbatim>\<open>Feed_Handler\<close>: \<^verbatim>\<open>feed_handler/*.hpp\<close>. Shown: the parser never reads outside the packet;
    two sources of a gapless stream are merged exactly once and in order, provided no packet is first seen before its predecessor; emitted sequence numbers
    increase per stream as long as no packet's numbers reach \<open>2 ^ 64\<close>.
  \<^item> \<^verbatim>\<open>Market_Data_Gateway\<close>: \<^verbatim>\<open>gateway/market_data_gateway.hpp\<close> and the receiving half of \<^verbatim>\<open>gateway/udp_socket.hpp\<close>. Shown: one
    pass over packets that arrive in stream order queues each new message once, drops are counted; and a loss on one source is not repaired by the other within a pass.
  \<^item> \<^verbatim>\<open>Symbol_Master\<close>: \<^verbatim>\<open>session/symbol_master.*\<close>, down to the number scanner. Shown: a written instrument file reads back.
  \<^item> \<^verbatim>\<open>Nnf_Encoder\<close>, \<^verbatim>\<open>Order_Manager\<close>, \<^verbatim>\<open>Nnf_Session\<close>: \<^verbatim>\<open>order_manager/*.hpp\<close>, \<^verbatim>\<open>session/nnf_session.hpp\<close>. Shown: the encoded
    order carries its fields; a live order is never overwritten and its fills add up; complete heartbeats keep the connection from going quiet.
  \<^item> \<^verbatim>\<open>Order_Gateway\<close>: \<^verbatim>\<open>gateway/order_gateway.hpp\<close>. Shown: the bytes on the wire are the messages in order, whole for every successful send.
  \<^item> \<^verbatim>\<open>Risk_Manager\<close>: \<^verbatim>\<open>risk/risk_manager.hpp\<close>. Shown: the exact condition of approval; the bound of the token bucket in rounded
    arithmetic; the daily-loss switch latches; what the mark is after fills.
  \<^item> \<^verbatim>\<open>Quoting_Math\<close>, \<^verbatim>\<open>Market_Making\<close>: \<^verbatim>\<open>strategy/*.hpp\<close>. Shown: quotes stay around the touch and lean against the position by the proportional skew; the strategy keeps at most one
    working quote per side and quotes only under its guards.
  \<^item> \<^verbatim>\<open>Pipeline\<close>: \<^verbatim>\<open>pipeline.hpp\<close>. Shown: every order sent was approved in the state it was checked in; strategy, risk manager and fills agree on positions.
  \<^item> \<^verbatim>\<open>Event_Source\<close>, \<^verbatim>\<open>Mtbt_Generator\<close>, \<^verbatim>\<open>Fill_Simulator\<close>, \<^verbatim>\<open>Backtest\<close>, \<^verbatim>\<open>Tools\<close>: \<^verbatim>\<open>sim/*.hpp\<close>, \<^verbatim>\<open>monitor/metrics.hpp\<close>, \<^verbatim>\<open>tools/\<close>. Shown: captures
    read back as what their messages carry; generated sessions are well-formed feeds; a simulated quote fills exactly what the volume beyond its queue allows;
    the backtest's accounts and fees are those of its fills; the comparison completes; the sweep reports its best cell.
  \<^item> \<^verbatim>\<open>Capture_Tools\<close>: \<^verbatim>\<open>tools/mtbt_gen.cpp\<close>, \<^verbatim>\<open>mtbt_replay.cpp\<close>, \<^verbatim>\<open>symbol_master_loader.cpp\<close>, \<^verbatim>\<open>latency_histogram.cpp\<close>. Shown: a generated
    capture is a gapless stream that replays completely and without malformed packets; the rows of a histogram increase and its bars stay within 60 characters.
  \<^item> \<^verbatim>\<open>Demo_Main\<close>: \<^verbatim>\<open>main.cpp\<close>. Shown: the synthetic session runs to its end with balanced counters, and approves at most 1000 orders because its clock stands still.
  \<^item> \<^verbatim>\<open>Irage_Platform\<close>, \<^verbatim>\<open>Irage_Strategy\<close>: \<^verbatim>\<open>irage/\<close>. The vendor's platform is a record of operations; the locale \<open>quiet_platform\<close> names what
    the strategy relies on, and the repository's mock instantiates it. Shown: every message is guarded; stopping leaves nothing standing;
    the state stays well formed.

  \<^bold>\<open>Conventions.\<close> Unsigned integers are words and wrap; signed ones are exact, with the conversions between widths written
  out; \<open>double\<close> values are rationals rounded by \<open>fl\<close>. \<open>None\<close> is a read outside an array, undefined behaviour, or a loop that
  does not end. Callbacks are the lists of what they received; files are texts or byte lists. Clocks, cycle counters, uninitialised memory, the random engine,
  the kernel and the vendor's platform are arguments.

  \<^bold>\<open>Bounds and fuel.\<close> No theorem rests on fuel: loops are structural recursion, functions with a termination proof, or
  \<open>partial_function (option)\<close> (the shift loop of \<open>EraseOrder\<close>) with a separate proof that they return. Probing loops
  run over the table's size, as in the code; the interleaved logger and ring buffer steps and the gateway's passes are lists of any length.

  \<^bold>\<open>Not modelled.\<close> \<^verbatim>\<open>common/cpu_utils.hpp\<close> and \<^verbatim>\<open>common/compiler.hpp\<close> (thread affinity, memory locking, compiler hints), socket options and
  the transmit half of \<^verbatim>\<open>udp_socket.hpp\<close>: system calls without effect on the values computed. The compilation units that only include
  headers. Usage and error messages, and the argument parsing of the backtest and sweep tools. The
  entry point of the adapter and the parts of the platform mock that only set up tests. Tests, benchmarks, the dashboard page and scripts.
\<close>

end
